(* ===== verification/Relay_Prelude.thy ===== *)
theory Relay_Prelude
  imports Main "HOL-Library.Word" "HOL-Library.Sublist"
begin

text \<open>
  Shared vocabulary of the development: the types that name the program's machine data, the
  error values of the Go code, sequencing of fallible steps, Go's bounds-checked indexing, and
  the generic lemmas on lists, codes and association lists that the components use.

  Conventions. A Go \<open>string\<close> is a list of \<open>char\<close> (a \<open>char\<close> is one byte), a \<open>[]byte\<close> is a list
  of \<open>8 word\<close>, and a Go \<open>int\<close> is 64 bits wide (the supported platforms are 64-bit): it is an
  \<open>int\<close> where no operation of the code can leave the 64-bit range and a \<open>64 word\<close>
  where it can. A \<open>panic\<close> (index out of range, explicit \<open>panic\<close>, a library that panics) is the error
  value \<^verbatim>\<open>Panic\<close>, so that a theorem can say that a function never panics.
\<close>

section \<open>Types\<close>

type_synonym byte = "8 word"
type_synonym bytes = "8 word list"
type_synonym go_int = "64 word"

datatype err =
    BerError string                 \<comment> \<open>\<^verbatim>\<open>*ber.Error\<close> with its \<^verbatim>\<open>Msg\<close>\<close>
  | ParseError string               \<comment> \<open>\<^verbatim>\<open>*snmp.ParseError\<close> with its \<^verbatim>\<open>Msg\<close>\<close>
  | NumError string                 \<comment> \<open>\<^verbatim>\<open>*strconv.NumError\<close>\<close>
  | Errorf string "string list"     \<comment> \<open>\<^verbatim>\<open>fmt.Errorf\<close>: the format and its arguments\<close>
  | Wrapf string "string list" err  \<comment> \<open>\<^verbatim>\<open>fmt.Errorf\<close> with \<^verbatim>\<open>%w\<close>: the format, its other arguments, the wrapped error\<close>
  | EnvError string                 \<comment> \<open>an error returned by the operating system or a library\<close>
  | Panic string                    \<comment> \<open>a run-time panic\<close>

type_synonym 'a res = "err + 'a"

fun is_panic :: "err \<Rightarrow> bool" where
  "is_panic (Panic _) = True"
| "is_panic _ = False"

definition no_panic :: "'a res \<Rightarrow> bool" where
  "no_panic r \<longleftrightarrow> (case r of Inl e \<Rightarrow> \<not> is_panic e | Inr _ \<Rightarrow> True)"

named_theorems run_simps "unfolding equations for running the model on concrete data"
named_theorems no_panic_intros "rules that discharge absence of panics"

section \<open>Sequencing fallible steps\<close>

text \<open>\<open>if err != nil { return err }\<close> after a call that gives \<open>m\<close>.\<close>

definition rbind :: "'a res \<Rightarrow> ('a \<Rightarrow> 'b res) \<Rightarrow> 'b res" where
  "rbind m f = (case m of Inl e \<Rightarrow> Inl e | Inr x \<Rightarrow> f x)"

lemma rbind_simps [simp]:
  "rbind (Inl e) f = Inl e"
  "rbind (Inr x) f = f x"
  by (simp_all add: rbind_def)

lemma rbind_weak_cong: "m = m' \<Longrightarrow> rbind m f = rbind m' f"
  by simp

lemma rbind_Inr_iff: "rbind m f = Inr y \<longleftrightarrow> (\<exists>x. m = Inr x \<and> f x = Inr y)"
  by (cases m) simp_all

lemma rbind_Inl_iff: "rbind m f = Inl e \<longleftrightarrow> m = Inl e \<or> (\<exists>x. m = Inr x \<and> f x = Inl e)"
  by (cases m) simp_all

lemma no_panic_simps [simp]:
  "no_panic (Inr x)"
  "no_panic (Inl e) \<longleftrightarrow> \<not> is_panic e"
  by (simp_all add: no_panic_def)

lemma no_panic_rbind [no_panic_intros]:
  "no_panic m \<Longrightarrow> (\<And>x. m = Inr x \<Longrightarrow> no_panic (f x)) \<Longrightarrow> no_panic (rbind m f)"
  by (cases m) simp_all

section \<open>Bounds-checked indexing and slicing\<close>

definition index :: "'a list \<Rightarrow> nat \<Rightarrow> 'a res" where
  "index xs i = (if i < length xs then Inr (xs ! i) else Inl (Panic ''index out of range''))"

text \<open>\<open>xs[lo:hi]\<close>.\<close>

definition slice :: "'a list \<Rightarrow> nat \<Rightarrow> nat \<Rightarrow> 'a list res" where
  "slice xs lo hi =
     (if lo \<le> hi \<and> hi \<le> length xs then Inr (take (hi - lo) (drop lo xs))
      else Inl (Panic ''slice bounds out of range''))"

lemma index_Inr_iff: "index xs i = Inr x \<longleftrightarrow> i < length xs \<and> xs ! i = x"
  by (auto simp: index_def)

lemma index_in_range [simp]: "i < length xs \<Longrightarrow> index xs i = Inr (xs ! i)"
  by (simp add: index_def)

lemma slice_in_range [simp]:
  "lo \<le> hi \<Longrightarrow> hi \<le> length xs \<Longrightarrow> slice xs lo hi = Inr (take (hi - lo) (drop lo xs))"
  by (simp add: slice_def)

section \<open>Lists of distinct pieces: the uniquely decodable codes\<close>

text \<open>
  An encoder of symbols into non-empty words none of which is a proper prefix of another: two
  sequences of symbols with the same concatenated code are the same, also when a
  terminator that starts no code word ends them. It is the interface between the escaping of JSON
  strings and the injectivity of the dedup key.
\<close>

locale prefix_code =
  fixes syms :: "'s set"
    and enc :: "'s \<Rightarrow> 'c list"
    and stop :: 'c
  assumes enc_nonempty: "s \<in> syms \<Longrightarrow> enc s \<noteq> []"
    and enc_prefix_free: "s \<in> syms \<Longrightarrow> t \<in> syms \<Longrightarrow> enc s @ u = enc t @ v \<Longrightarrow> s = t"
    and enc_not_stop: "s \<in> syms \<Longrightarrow> enc s = c # w \<Longrightarrow> c \<noteq> stop"
begin

lemma enc_head_not_stop: "s \<in> syms \<Longrightarrow> enc s @ u \<noteq> stop # v"
  using enc_nonempty enc_not_stop by (cases "enc s") auto

lemma terminated_inject:
  assumes "set ss \<subseteq> syms" "set ts \<subseteq> syms"
    and "concat (map enc ss) @ stop # u = concat (map enc ts) @ stop # v"
  shows "ss = ts \<and> u = v"
  using assms
proof (induction ss arbitrary: ts)
  case Nil
  show ?case
  proof (cases ts)
    case (Cons t ts')
    with Nil have "enc t @ concat (map enc ts') @ stop # v = stop # u" by simp
    with Cons Nil enc_head_not_stop show ?thesis by auto
  qed (use Nil in simp)
next
  case (Cons s ss)
  show ?case
  proof (cases ts)
    case Nil
    with Cons.prems have "enc s @ concat (map enc ss) @ stop # u = stop # v" by simp
    with Cons.prems enc_head_not_stop show ?thesis by auto
  next
    case (Cons t ts')
    with Cons.prems have eq: "enc s @ concat (map enc ss) @ stop # u =
      enc t @ concat (map enc ts') @ stop # v" by simp
    with Cons Cons.prems have "s = t" by (auto intro: enc_prefix_free)
    with Cons Cons.prems eq Cons.IH [of ts'] show ?thesis by auto
  qed
qed

end

section \<open>Association lists with distinct keys\<close>

text \<open>A Go map that is iterated: its pairs in the order the runtime visits them.\<close>

fun al_del :: "'k \<Rightarrow> ('k \<times> 'v) list \<Rightarrow> ('k \<times> 'v) list" where
  "al_del k [] = []"
| "al_del k ((k', v) # ps) = (if k = k' then al_del k ps else (k', v) # al_del k ps)"

definition al_put :: "'k \<Rightarrow> 'v \<Rightarrow> ('k \<times> 'v) list \<Rightarrow> ('k \<times> 'v) list" where
  "al_put k v ps = (k, v) # al_del k ps"

fun al_upd :: "'k \<Rightarrow> ('v \<Rightarrow> 'v) \<Rightarrow> ('k \<times> 'v) list \<Rightarrow> ('k \<times> 'v) list" where
  "al_upd k f [] = []"
| "al_upd k f ((k', v) # ps) = (if k = k' then (k', f v) # ps else (k', v) # al_upd k f ps)"

definition al_distinct :: "('k \<times> 'v) list \<Rightarrow> bool" where
  "al_distinct ps \<longleftrightarrow> distinct (map fst ps)"

lemma map_of_al_del [simp]: "map_of (al_del k ps) = (map_of ps)(k := None)"
  by (induction k ps rule: al_del.induct) (auto simp: fun_eq_iff)

lemma map_of_al_put [simp]: "map_of (al_put k v ps) = (map_of ps)(k \<mapsto> v)"
  by (simp add: al_put_def fun_eq_iff)

lemma map_of_al_upd:
  "map_of (al_upd k f ps) = (case map_of ps k of None \<Rightarrow> map_of ps | Some v \<Rightarrow> (map_of ps)(k \<mapsto> f v))"
proof (induction k f ps rule: al_upd.induct)
  case (2 k f k' v ps)
  then show ?case by (cases "map_of ps k") (auto simp: fun_upd_def)
qed simp

lemma keys_al_del [simp]: "fst ` set (al_del k ps) = fst ` set ps - {k}"
  by (induction k ps rule: al_del.induct) auto

lemma set_al_del: "p \<in> set (al_del k ps) \<longleftrightarrow> p \<in> set ps \<and> fst p \<noteq> k"
  by (induction k ps rule: al_del.induct) auto

lemma length_al_del_le: "length (al_del k ps) \<le> length ps"
  by (induction k ps rule: al_del.induct) auto

lemma length_al_del: "al_distinct ps \<Longrightarrow> k \<in> fst ` set ps \<Longrightarrow> Suc (length (al_del k ps)) = length ps"
proof (induction k ps rule: al_del.induct)
  case (2 k k' v ps)
  show ?case
  proof (cases "k = k'")
    case True
    with "2.prems" have "k \<notin> fst ` set ps" by (auto simp: al_distinct_def)
    then have "al_del k ps = ps"
      by (induction k ps rule: al_del.induct) auto
    with True show ?thesis by simp
  next
    case False
    with 2 show ?thesis by (auto simp: al_distinct_def)
  qed
qed simp

lemma al_del_absent: "k \<notin> fst ` set ps \<Longrightarrow> al_del k ps = ps"
  by (induction k ps rule: al_del.induct) auto

lemma distinct_al_del [simp, intro]: "al_distinct ps \<Longrightarrow> al_distinct (al_del k ps)"
  by (induction k ps rule: al_del.induct) (auto simp: al_distinct_def set_al_del)

lemma distinct_al_put [simp, intro]: "al_distinct ps \<Longrightarrow> al_distinct (al_put k v ps)"
  using distinct_al_del [of ps k] by (auto simp: al_put_def al_distinct_def set_al_del)

lemma keys_al_upd [simp]: "map fst (al_upd k f ps) = map fst ps"
  by (induction k f ps rule: al_upd.induct) auto

lemma length_al_upd [simp]: "length (al_upd k f ps) = length ps"
  by (induction k f ps rule: al_upd.induct) auto

lemma distinct_al_upd [simp]: "al_distinct (al_upd k f ps) = al_distinct ps"
  by (simp add: al_distinct_def)

lemma map_of_mem: "al_distinct ps \<Longrightarrow> map_of ps k = Some v \<longleftrightarrow> (k, v) \<in> set ps"
  by (simp add: al_distinct_def)

lemma set_al_upd:
  "p \<in> set (al_upd k f ps) \<Longrightarrow> p \<in> set ps \<or> (\<exists>v. (k, v) \<in> set ps \<and> p = (k, f v))"
  by (induction k f ps rule: al_upd.induct) (auto split: if_splits)

section \<open>Loops over lists with a fallible body\<close>

fun mapM :: "('a \<Rightarrow> 'b res) \<Rightarrow> 'a list \<Rightarrow> 'b list res" where
  "mapM f [] = Inr []"
| "mapM f (x # xs) = rbind (f x) (\<lambda>y. rbind (mapM f xs) (\<lambda>ys. Inr (y # ys)))"

lemma mapM_Inr_iff: "mapM f xs = Inr ys \<longleftrightarrow> list_all2 (\<lambda>x y. f x = Inr y) xs ys"
proof (induction xs arbitrary: ys)
  case (Cons x xs)
  then show ?case by (cases ys) (auto simp: rbind_Inr_iff)
qed auto

end
