(* ===== verification/Go_Strings.thy ===== *)
theory Go_Strings
  imports Relay_Prelude
begin

text \<open>
  The parts of Go's \<open>strings\<close>, \<open>strconv\<close>, \<open>fmt\<close>, \<open>encoding/hex\<close>, \<open>unicode/utf8\<close> and
  \<open>net\<close> packages that the relay uses, on byte strings. White space and case mapping follow the
  Unicode tables as far as the relay can observe them: every white-space rune is listed, and a
  non-ASCII rune is mapped only where its lower- or upper-case partner is an ASCII letter (the relay
  compares the results with ASCII words only).
\<close>

section \<open>Prefixes, suffixes, substrings\<close>

definition has_prefix :: "string \<Rightarrow> string \<Rightarrow> bool" where
  "has_prefix s p \<longleftrightarrow> length p \<le> length s \<and> take (length p) s = p"

definition has_suffix :: "string \<Rightarrow> string \<Rightarrow> bool" where
  "has_suffix s p \<longleftrightarrow> length p \<le> length s \<and> drop (length s - length p) s = p"

definition trim_prefix :: "string \<Rightarrow> string \<Rightarrow> string" where
  "trim_prefix s p = (if has_prefix s p then drop (length p) s else s)"

fun contains_str :: "string \<Rightarrow> string \<Rightarrow> bool" where
  "contains_str [] p = (p = [])"
| "contains_str (c # s) p = (has_prefix (c # s) p \<or> contains_str s p)"

lemma has_prefix_iff: "has_prefix s p \<longleftrightarrow> (\<exists>r. s = p @ r)"
  unfolding has_prefix_def by (metis append_eq_conv_conj append_take_drop_id length_append le_add1)

lemma has_suffix_iff: "has_suffix s p \<longleftrightarrow> (\<exists>r. s = r @ p)"
proof
  assume "has_suffix s p"
  then have "s = take (length s - length p) s @ p"
    unfolding has_suffix_def by (metis append_take_drop_id)
  then show "\<exists>r. s = r @ p" ..
qed (auto simp: has_suffix_def)

lemma contains_str_iff: "contains_str s p \<longleftrightarrow> sublist p s"
  by (induction s) (auto simp: has_prefix_iff sublist_Cons_right prefix_def)

lemma has_prefix_simps [simp]:
  "has_prefix s []"
  "has_prefix [] (c # p) = False"
  "has_prefix (d # s) (c # p) \<longleftrightarrow> d = c \<and> has_prefix s p"
  by (auto simp: has_prefix_def)

lemma has_prefix_append [simp]: "has_prefix (p @ r) p"
  by (simp add: has_prefix_def)

lemma trim_prefix_append [simp]: "trim_prefix (p @ r) p = r"
  by (simp add: trim_prefix_def)

section \<open>White space: \<open>strings.TrimSpace\<close>\<close>

text \<open>The white-space runes of \<open>unicode.IsSpace\<close>, in UTF-8.\<close>

definition space_runes :: "string list" where
  "space_runes =
    [[CHR '' ''], [CHR 0x09], [CHR 0x0A], [CHR 0x0B], [CHR 0x0C], [CHR 0x0D],
     [CHR 0xC2, CHR 0x85], [CHR 0xC2, CHR 0xA0], [CHR 0xE1, CHR 0x9A, CHR 0x80],
     [CHR 0xE2, CHR 0x80, CHR 0x80], [CHR 0xE2, CHR 0x80, CHR 0x81], [CHR 0xE2, CHR 0x80, CHR 0x82],
     [CHR 0xE2, CHR 0x80, CHR 0x83], [CHR 0xE2, CHR 0x80, CHR 0x84], [CHR 0xE2, CHR 0x80, CHR 0x85],
     [CHR 0xE2, CHR 0x80, CHR 0x86], [CHR 0xE2, CHR 0x80, CHR 0x87], [CHR 0xE2, CHR 0x80, CHR 0x88],
     [CHR 0xE2, CHR 0x80, CHR 0x89], [CHR 0xE2, CHR 0x80, CHR 0x8A], [CHR 0xE2, CHR 0x80, CHR 0xA8],
     [CHR 0xE2, CHR 0x80, CHR 0xA9], [CHR 0xE2, CHR 0x80, CHR 0xAF], [CHR 0xE2, CHR 0x81, CHR 0x9F],
     [CHR 0xE3, CHR 0x80, CHR 0x80]]"

fun strip_one :: "string list \<Rightarrow> string \<Rightarrow> string option" where
  "strip_one [] s = None"
| "strip_one (p # ps) s =
     (if p \<noteq> [] \<and> has_prefix s p then Some (drop (length p) s) else strip_one ps s)"

lemma strip_one_shorter: "strip_one ps s = Some s' \<Longrightarrow> length s' < length s"
  by (induction ps) (auto simp: has_prefix_iff split: if_splits)

function trim_runes :: "string list \<Rightarrow> string \<Rightarrow> string" where
  "trim_runes ps s = (case strip_one ps s of None \<Rightarrow> s | Some s' \<Rightarrow> trim_runes ps s')"
  by pat_completeness auto
termination
  by (relation "measure (\<lambda>(ps, s). length s)") (auto dest: strip_one_shorter)

declare trim_runes.simps [simp del]

definition trim_left :: "string \<Rightarrow> string" where
  "trim_left s = trim_runes space_runes s"

definition trim_right :: "string \<Rightarrow> string" where
  "trim_right s = rev (trim_runes (map rev space_runes) (rev s))"

definition trim_space :: "string \<Rightarrow> string" where
  "trim_space s = trim_right (trim_left s)"

lemmas trim_run_defs = trim_space_def trim_left_def trim_right_def space_runes_def

lemma trim_runes_stable: "strip_one ps (trim_runes ps s) = None"
proof (induction ps s rule: trim_runes.induct)
  case (1 ps s)
  then show ?case
    by (cases "strip_one ps s") (simp_all add: trim_runes.simps [of ps s])
qed

lemma trim_runes_id: "strip_one ps s = None \<Longrightarrow> trim_runes ps s = s"
  by (simp add: trim_runes.simps)

lemma strip_one_suffix: "strip_one ps s = Some s' \<Longrightarrow> \<exists>p \<in> set ps. p \<noteq> [] \<and> s = p @ s'"
proof (induction ps)
  case (Cons p ps)
  show ?case
  proof (cases "p \<noteq> [] \<and> has_prefix s p")
    case True
    with Cons.prems show ?thesis by (auto simp: has_prefix_iff)
  next
    case False
    with Cons show ?thesis by auto
  qed
qed simp

lemma trim_runes_suffix: "suffix (trim_runes ps s) s"
proof (induction ps s rule: trim_runes.induct)
  case (1 ps s)
  show ?case
  proof (cases "strip_one ps s")
    case None
    then show ?thesis by (simp add: trim_runes_id)
  next
    case (Some s')
    from strip_one_suffix [OF this] have "suffix s' s" by (auto simp: suffix_def)
    with 1 [OF Some] Some show ?thesis
      by (auto simp: trim_runes.simps [of ps s] intro: suffix_order.trans)
  qed
qed

lemma trim_left_suffix: "suffix (trim_left s) s"
  by (simp add: trim_left_def trim_runes_suffix)

lemma trim_right_prefix: "prefix (trim_right s) s"
  using trim_runes_suffix [of "map rev space_runes" "rev s"]
  by (simp add: trim_right_def suffix_to_prefix)

lemma strip_one_None_prefix:
  "strip_one ps s = None \<Longrightarrow> prefix t s \<Longrightarrow> strip_one ps t = None"
  by (induction ps) (auto simp: has_prefix_iff prefix_def split: if_splits)

lemma trim_space_idem [simp]: "trim_space (trim_space s) = trim_space s"
proof -
  have "strip_one space_runes (trim_left s) = None"
    by (simp add: trim_left_def trim_runes_stable)
  then have "trim_left (trim_space s) = trim_space s"
    unfolding trim_space_def trim_left_def
    by (intro trim_runes_id strip_one_None_prefix [OF _ trim_right_prefix])
  then show ?thesis
    by (simp add: trim_space_def trim_right_def trim_runes_id trim_runes_stable)
qed

text \<open>A byte no white-space rune begins or ends with, as all graphic ASCII characters are.\<close>

definition solid :: "char \<Rightarrow> bool" where
  "solid c \<longleftrightarrow> (\<forall>p \<in> set space_runes. hd p \<noteq> c \<and> last p \<noteq> c)"

lemma strip_one_solid:
  "(\<And>p. p \<in> set ps \<Longrightarrow> hd p \<noteq> c) \<Longrightarrow> strip_one ps (c # s) = None"
proof (induction ps)
  case (Cons p ps)
  from Cons.prems [of p] have "p = [] \<or> \<not> has_prefix (c # s) p" by (cases p) auto
  with Cons show ?case by auto
qed simp

lemma space_rune_nonempty: "p \<in> set space_runes \<Longrightarrow> p \<noteq> []"
  by (auto simp: space_runes_def)

lemma trim_left_solid [simp]: "solid c \<Longrightarrow> trim_left (c # s) = c # s"
  by (auto simp: trim_left_def solid_def intro!: trim_runes_id strip_one_solid)

lemma trim_right_solid [simp]: "solid c \<Longrightarrow> trim_right (s @ [c]) = s @ [c]"
proof -
  assume "solid c"
  then have "strip_one (map rev space_runes) (c # rev s) = None"
    using space_rune_nonempty by (intro strip_one_solid) (auto simp: solid_def hd_rev)
  then show ?thesis by (simp add: trim_right_def trim_runes_id)
qed

lemma trim_nil [simp]: "trim_left [] = []" "trim_right [] = []" "trim_space [] = []"
  by (simp_all add: trim_run_defs trim_runes.simps)

text \<open>Text that begins and ends with a solid character has nothing to trim.\<close>

lemma trim_space_solid:
  "s \<noteq> [] \<Longrightarrow> solid (hd s) \<Longrightarrow> solid (last s) \<Longrightarrow> trim_space s = s"
  by (metis append_butlast_last_id hd_Cons_tl trim_left_solid trim_right_solid trim_space_def)

lemma trim_space_all_solid: "list_all solid s \<Longrightarrow> trim_space s = s"
  by (cases "s = []") (simp_all add: trim_space_solid list_all_iff)

section \<open>Case mapping\<close>

definition lower_char :: "char \<Rightarrow> char" where
  "lower_char c =
     (if 65 \<le> (of_char c :: nat) \<and> (of_char c :: nat) \<le> 90 then char_of ((of_char c :: nat) + 32) else c)"

definition upper_char :: "char \<Rightarrow> char" where
  "upper_char c =
     (if 97 \<le> (of_char c :: nat) \<and> (of_char c :: nat) \<le> 122 then char_of ((of_char c :: nat) - 32) else c)"

text \<open>
  The non-ASCII runes that map to an ASCII letter: the Kelvin sign (U+212A) and the dotted capital I
  (U+0130) going down, the dotless small i (U+0131) and the long s (U+017F) going up.
\<close>

fun to_lower :: "string \<Rightarrow> string" where
  "to_lower [] = []"
| "to_lower (c # s) =
     (if c = CHR 0xE2 \<and> has_prefix s [CHR 0x84, CHR 0xAA] then CHR ''k'' # to_lower (drop 2 s)
      else if c = CHR 0xC4 \<and> has_prefix s [CHR 0xB0] then CHR ''i'' # to_lower (drop 1 s)
      else lower_char c # to_lower s)"

fun to_upper :: "string \<Rightarrow> string" where
  "to_upper [] = []"
| "to_upper (c # s) =
     (if c = CHR 0xC4 \<and> has_prefix s [CHR 0xB1] then CHR ''I'' # to_upper (drop 1 s)
      else if c = CHR 0xC5 \<and> has_prefix s [CHR 0xBF] then CHR ''S'' # to_upper (drop 1 s)
      else upper_char c # to_upper s)"

text \<open>Case of the letters, for running the model.\<close>

lemma lower_literals [run_simps]:
  "lower_char (CHR ''A'') = CHR ''a''"
  "lower_char (CHR ''B'') = CHR ''b''"
  "lower_char (CHR ''C'') = CHR ''c''"
  "lower_char (CHR ''D'') = CHR ''d''"
  "lower_char (CHR ''E'') = CHR ''e''"
  "lower_char (CHR ''F'') = CHR ''f''"
  "lower_char (CHR ''G'') = CHR ''g''"
  "lower_char (CHR ''H'') = CHR ''h''"
  "lower_char (CHR ''I'') = CHR ''i''"
  "lower_char (CHR ''J'') = CHR ''j''"
  "lower_char (CHR ''K'') = CHR ''k''"
  "lower_char (CHR ''L'') = CHR ''l''"
  "lower_char (CHR ''M'') = CHR ''m''"
  "lower_char (CHR ''N'') = CHR ''n''"
  "lower_char (CHR ''O'') = CHR ''o''"
  "lower_char (CHR ''P'') = CHR ''p''"
  "lower_char (CHR ''Q'') = CHR ''q''"
  "lower_char (CHR ''R'') = CHR ''r''"
  "lower_char (CHR ''S'') = CHR ''s''"
  "lower_char (CHR ''T'') = CHR ''t''"
  "lower_char (CHR ''U'') = CHR ''u''"
  "lower_char (CHR ''V'') = CHR ''v''"
  "lower_char (CHR ''W'') = CHR ''w''"
  "lower_char (CHR ''X'') = CHR ''x''"
  "lower_char (CHR ''Y'') = CHR ''y''"
  "lower_char (CHR ''Z'') = CHR ''z''"
  by (simp_all add: lower_char_def char_of_def bit_0)

lemma case_other [run_simps]:
  "(of_char c :: nat) < 65 \<or> 90 < (of_char c :: nat) \<Longrightarrow> lower_char c = c"
  "(of_char c :: nat) < 97 \<or> 122 < (of_char c :: nat) \<Longrightarrow> upper_char c = c"
  by (auto simp: lower_char_def upper_char_def)

lemma upper_literals [run_simps]:
  "upper_char (CHR ''a'') = CHR ''A''"
  "upper_char (CHR ''b'') = CHR ''B''"
  "upper_char (CHR ''c'') = CHR ''C''"
  "upper_char (CHR ''d'') = CHR ''D''"
  "upper_char (CHR ''e'') = CHR ''E''"
  "upper_char (CHR ''f'') = CHR ''F''"
  "upper_char (CHR ''g'') = CHR ''G''"
  "upper_char (CHR ''h'') = CHR ''H''"
  "upper_char (CHR ''i'') = CHR ''I''"
  "upper_char (CHR ''j'') = CHR ''J''"
  "upper_char (CHR ''k'') = CHR ''K''"
  "upper_char (CHR ''l'') = CHR ''L''"
  "upper_char (CHR ''m'') = CHR ''M''"
  "upper_char (CHR ''n'') = CHR ''N''"
  "upper_char (CHR ''o'') = CHR ''O''"
  "upper_char (CHR ''p'') = CHR ''P''"
  "upper_char (CHR ''q'') = CHR ''Q''"
  "upper_char (CHR ''r'') = CHR ''R''"
  "upper_char (CHR ''s'') = CHR ''S''"
  "upper_char (CHR ''t'') = CHR ''T''"
  "upper_char (CHR ''u'') = CHR ''U''"
  "upper_char (CHR ''v'') = CHR ''V''"
  "upper_char (CHR ''w'') = CHR ''W''"
  "upper_char (CHR ''x'') = CHR ''X''"
  "upper_char (CHR ''y'') = CHR ''Y''"
  "upper_char (CHR ''z'') = CHR ''Z''"
  by (simp_all add: upper_char_def char_of_def bit_0)

definition is_ascii :: "char \<Rightarrow> bool" where
  "is_ascii c \<longleftrightarrow> (of_char c :: nat) < 128"

lemma to_lower_ascii: "list_all is_ascii s \<Longrightarrow> to_lower s = map lower_char s"
  by (induction s) (auto simp: is_ascii_def)

lemma to_upper_ascii: "list_all is_ascii s \<Longrightarrow> to_upper s = map upper_char s"
  by (induction s) (auto simp: is_ascii_def)

lemma lower_char_idem [simp]: "lower_char (lower_char c) = lower_char c"
  by (auto simp: lower_char_def)

lemma to_lower_ascii_idem: "list_all is_ascii s \<Longrightarrow> to_lower (to_lower s) = to_lower s"
proof -
  assume a: "list_all is_ascii s"
  then have "list_all is_ascii (map lower_char s)"
    by (auto simp: list_all_iff is_ascii_def lower_char_def)
  with a show ?thesis by (simp add: to_lower_ascii)
qed

end
