(* ===== verification/Go_Numbers.thy ===== *)
theory Go_Numbers
  imports Go_Strings
begin

text \<open>
  Numbers as text: \<open>strconv.Itoa\<close>, \<open>%d\<close>, \<open>strconv.ParseInt\<close> in base 10, \<open>big.Int.String\<close>,
  \<open>%x\<close> and \<open>hex.EncodeToString\<close>, and the printing of IP addresses. Printing is shown injective and
  parsing its inverse.
\<close>

section \<open>Decimal\<close>

definition digit :: "nat \<Rightarrow> char" where
  "digit d = char_of (48 + d)"

definition is_digit :: "char \<Rightarrow> bool" where
  "is_digit c \<longleftrightarrow> 48 \<le> (of_char c :: nat) \<and> (of_char c :: nat) \<le> 57"

definition digit_val :: "char \<Rightarrow> nat" where
  "digit_val c = of_char c - 48"

fun nat_str :: "nat \<Rightarrow> string" where
  "nat_str n = (if n < 10 then [digit n] else nat_str (n div 10) @ [digit (n mod 10)])"

declare nat_str.simps [simp del]

definition int_str :: "int \<Rightarrow> string" where
  "int_str i = (if i < 0 then CHR ''-'' # nat_str (nat (- i)) else nat_str (nat i))"

definition digits_val :: "string \<Rightarrow> nat" where
  "digits_val s = foldl (\<lambda>n c. 10 * n + digit_val c) 0 s"

lemma digit_simps [simp]:
  "d < 10 \<Longrightarrow> is_digit (digit d)"
  "d < 10 \<Longrightarrow> digit_val (digit d) = d"
  by (simp_all add: digit_def is_digit_def digit_val_def)

lemma digits_val_snoc [simp]: "digits_val (s @ [c]) = 10 * digits_val s + digit_val c"
  by (simp add: digits_val_def)

lemma digits_val_nil [simp]: "digits_val [] = 0"
  by (simp add: digits_val_def)

lemma nat_str_nonempty [simp]: "nat_str n \<noteq> []"
  by (subst nat_str.simps) simp

lemma nat_str_digits: "list_all is_digit (nat_str n)"
proof (induction n rule: nat_str.induct)
  case (1 n)
  then show ?case by (subst nat_str.simps) simp
qed

lemma digits_val_nat_str [simp]: "digits_val (nat_str n) = n"
proof (induction n rule: nat_str.induct)
  case (1 n)
  show ?case
  proof (cases "n < 10")
    case True
    then show ?thesis by (subst nat_str.simps) (simp add: digits_val_def)
  next
    case False
    with 1 show ?thesis by (subst nat_str.simps) simp
  qed
qed

lemma nat_str_inject [simp]: "nat_str m = nat_str n \<longleftrightarrow> m = n"
  by (metis digits_val_nat_str)

lemma nat_str_not_minus: "nat_str n \<noteq> CHR ''-'' # s"
  using nat_str_digits [of n] by (auto simp: is_digit_def)

lemma int_str_inject [simp]: "int_str i = int_str j \<longleftrightarrow> i = j"
  by (auto simp: int_str_def nat_str_not_minus nat_str_not_minus [symmetric] split: if_splits)

lemma int_str_nonempty [simp]: "int_str i \<noteq> []"
  by (simp add: int_str_def)

lemma digit_literals [run_simps]:
  "digit 0 = CHR ''0''" "digit 1 = CHR ''1''" "digit (Suc 0) = CHR ''1''" "digit 2 = CHR ''2''"
  "digit 3 = CHR ''3''" "digit 4 = CHR ''4''" "digit 5 = CHR ''5''" "digit 6 = CHR ''6''"
  "digit 7 = CHR ''7''" "digit 8 = CHR ''8''" "digit 9 = CHR ''9''"
  by (simp_all add: digit_def char_of_def bit_0)

lemmas decimal_run [run_simps] = nat_str.simps [of "numeral n" for n] nat_str.simps [of 0]
  nat_str.simps [of 1] nat_str.simps [of "Suc 0"] int_str_def

text \<open>
  A printed natural number has no leading zero: it is the one numeral of its value that has none.
\<close>

definition canonical_num :: "string \<Rightarrow> bool" where
  "canonical_num s \<longleftrightarrow> s \<noteq> [] \<and> list_all is_digit s \<and> (hd s = CHR ''0'' \<longrightarrow> s = ''0'')"

lemma digit_digit_val: "is_digit c \<Longrightarrow> digit (digit_val c) = c"
  by (simp add: digit_def digit_val_def is_digit_def)

lemma digits_val_pos:
  "list_all is_digit s \<Longrightarrow> s \<noteq> [] \<Longrightarrow> hd s \<noteq> CHR ''0'' \<Longrightarrow> 0 < digits_val s"
proof (induction s rule: rev_induct)
  case (snoc c s)
  show ?case
  proof (cases "s = []")
    case True
    with snoc.prems have "of_char c \<noteq> (of_char (CHR ''0'') :: nat)" by (simp only: of_char_eq_iff) simp
    with True snoc.prems show ?thesis
      by (simp add: digits_val_def digit_val_def is_digit_def)
  next
    case False
    with snoc show ?thesis by simp
  qed
qed simp

lemma digit_val_less: "is_digit c \<Longrightarrow> digit_val c < 10"
  unfolding is_digit_def digit_val_def by linarith

lemma nat_str_digits_val: "canonical_num s \<Longrightarrow> nat_str (digits_val s) = s"
proof (induction s rule: rev_induct)
  case (snoc c s)
  have c: "is_digit c" using snoc.prems by (simp add: canonical_num_def)
  show ?case
  proof (cases "s = []")
    case True
    with c show ?thesis
      by (subst nat_str.simps) (simp add: digits_val_def digit_val_less digit_digit_val)
  next
    case False
    with snoc.prems have s: "canonical_num s" "hd s \<noteq> CHR ''0''"
      by (auto simp: canonical_num_def)
    then have "0 < digits_val s" using False by (auto simp: canonical_num_def intro: digits_val_pos)
    with snoc.IH s c digit_val_less [OF c] show ?thesis
      by (subst nat_str.simps) (simp add: digit_digit_val)
  qed
qed (simp add: canonical_num_def)

lemma canonical_nat_str: "canonical_num (nat_str n)"
proof (induction n rule: nat_str.induct)
  case (1 n)
  show ?case
  proof (cases "n < 10")
    case True
    then show ?thesis
      by (subst nat_str.simps) (simp add: canonical_num_def)
  next
    case False
    with 1 have IH: "canonical_num (nat_str (n div 10))" by simp
    have "nat_str (n div 10) \<noteq> ''0''"
      using False digits_val_nat_str [of "n div 10"]
      by (intro notI) (simp add: digits_val_def digit_val_def)
    with IH False show ?thesis
      by (subst nat_str.simps) (auto simp: canonical_num_def)
  qed
qed

section \<open>\<open>strconv.ParseInt(s, 10, 64)\<close>\<close>

definition max_int64 :: int where "max_int64 = 9223372036854775807"
definition min_int64 :: int where "min_int64 = -9223372036854775808"

text \<open>
  Go returns a value and an error: on a range error the value is the nearest 64-bit integer, on a
  syntax error it is 0.
\<close>

definition parse_int :: "string \<Rightarrow> err option \<times> int" where
  "parse_int s =
     (let neg = (case s of c # _ \<Rightarrow> c = CHR ''-'' | [] \<Rightarrow> False);
          body = (case s of c # t \<Rightarrow> if c = CHR ''-'' \<or> c = CHR ''+'' then t else s | [] \<Rightarrow> []);
          n = int (digits_val body)
      in if body = [] \<or> \<not> list_all is_digit body then (Some (NumError ''invalid syntax''), 0)
         else if \<not> neg \<and> max_int64 < n then (Some (NumError ''value out of range''), max_int64)
         else if neg \<and> - min_int64 < n then (Some (NumError ''value out of range''), min_int64)
         else (None, if neg then - n else n))"

definition clamp_int64 :: "int \<Rightarrow> int" where
  "clamp_int64 n = max min_int64 (min max_int64 n)"

definition in_int64 :: "int \<Rightarrow> bool" where
  "in_int64 n \<longleftrightarrow> min_int64 \<le> n \<and> n \<le> max_int64"

lemma sint_in_range: "in_int64 n \<Longrightarrow> sint (word_of_int n :: 64 word) = n"
proof -
  assume "in_int64 n"
  then have "signed_take_bit 63 n = n"
    by (intro signed_take_bit_int_eq_self) (simp_all add: in_int64_def min_int64_def max_int64_def)
  then show ?thesis by (simp add: sint_sbintrunc')
qed

lemma parse_int_digits:
  assumes "s \<noteq> []" "list_all is_digit s"
  shows "parse_int s = (if int (digits_val s) \<le> max_int64 then (None, int (digits_val s))
                        else (Some (NumError ''value out of range''), max_int64))"
proof -
  obtain c t where s: "s = c # t" using assms by (cases s) auto
  with assms have "c \<noteq> CHR ''-''" "c \<noteq> CHR ''+''" by (auto simp: is_digit_def)
  with s assms show ?thesis by (simp add: parse_int_def)
qed

text \<open>Parsing what \<open>big.Int.String\<close> prints: exact in range, clamped with an error outside.\<close>

lemma parse_int_int_str:
  "parse_int (int_str n) =
     (if in_int64 n then (None, n) else (Some (NumError ''value out of range''), clamp_int64 n))"
proof (cases "n < 0")
  case True
  then have "int_str n = CHR ''-'' # nat_str (nat (- n))" by (simp add: int_str_def)
  with True nat_str_digits [of "nat (- n)"] show ?thesis
    by (auto simp: parse_int_def in_int64_def clamp_int64_def min_int64_def max_int64_def)
next
  case False
  then have "int_str n = nat_str (nat n)" by (simp add: int_str_def)
  with False show ?thesis
    by (auto simp: parse_int_digits nat_str_digits in_int64_def clamp_int64_def min_int64_def max_int64_def)
qed

lemmas parse_int_run [run_simps] =
  parse_int_def digits_val_def digit_val_def is_digit_def max_int64_def min_int64_def
  clamp_int64_def in_int64_def

section \<open>Hexadecimal\<close>

definition hex_digit :: "nat \<Rightarrow> char" where
  "hex_digit d = (if d < 10 then char_of (48 + d) else char_of (87 + d))"

definition hex_byte :: "byte \<Rightarrow> string" where
  "hex_byte b = [hex_digit (unat b div 16), hex_digit (unat b mod 16)]"

definition hex_encode :: "bytes \<Rightarrow> string" where
  "hex_encode bs = concat (map hex_byte bs)"

lemma hex_digit_literals [run_simps]:
  "hex_digit 0 = CHR ''0''" "hex_digit 1 = CHR ''1''" "hex_digit (Suc 0) = CHR ''1''"
  "hex_digit 2 = CHR ''2''" "hex_digit 3 = CHR ''3''" "hex_digit 4 = CHR ''4''"
  "hex_digit 5 = CHR ''5''" "hex_digit 6 = CHR ''6''" "hex_digit 7 = CHR ''7''"
  "hex_digit 8 = CHR ''8''" "hex_digit 9 = CHR ''9''" "hex_digit 10 = CHR ''a''"
  "hex_digit 11 = CHR ''b''" "hex_digit 12 = CHR ''c''" "hex_digit 13 = CHR ''d''"
  "hex_digit 14 = CHR ''e''" "hex_digit 15 = CHR ''f''"
  by (simp_all add: hex_digit_def char_of_def bit_0)

lemma of_char_hex_digit:
  "d < 16 \<Longrightarrow> (of_char (hex_digit d) :: nat) = (if d < 10 then 48 + d else 87 + d)"
  by (simp add: hex_digit_def)

lemma hex_digit_inject: "d < 16 \<Longrightarrow> e < 16 \<Longrightarrow> hex_digit d = hex_digit e \<longleftrightarrow> d = e"
proof -
  assume "d < 16" "e < 16"
  moreover have "hex_digit d = hex_digit e \<longleftrightarrow> (of_char (hex_digit d) :: nat) = of_char (hex_digit e)"
    by simp
  ultimately show ?thesis by (simp only: of_char_hex_digit) auto
qed

lemma unat_byte_less: "unat (b :: byte) < 256"
  using unsigned_less [of b, where ?'a = nat] by simp

lemma hex_byte_inject [simp]: "hex_byte a = hex_byte b \<longleftrightarrow> a = b"
proof -
  have "unat a div 16 < 16" "unat b div 16 < 16" using unat_byte_less [of a] unat_byte_less [of b] by auto
  then have "hex_byte a = hex_byte b \<longleftrightarrow> unat a div 16 = unat b div 16 \<and> unat a mod 16 = unat b mod 16"
    by (simp add: hex_byte_def hex_digit_inject)
  also have "\<dots> \<longleftrightarrow> unat a = unat b" by (metis div_mult_mod_eq)
  finally show ?thesis by (simp add: word_unat_eq_iff)
qed

lemma hex_encode_inject: "hex_encode xs = hex_encode ys \<longleftrightarrow> xs = ys"
proof (induction xs arbitrary: ys)
  case Nil
  then show ?case by (cases ys) (simp_all add: hex_encode_def hex_byte_def)
next
  case (Cons x xs)
  show ?case
  proof (cases ys)
    case Nil
    then show ?thesis by (simp add: hex_encode_def hex_byte_def)
  next
    case (Cons y ys')
    have "length (hex_byte x) = length (hex_byte y)" by (simp add: hex_byte_def)
    then have "hex_encode (x # xs) = hex_encode (y # ys') \<longleftrightarrow> x = y \<and> hex_encode xs = hex_encode ys'"
      by (simp add: hex_encode_def)
    with Cons Cons.IH show ?thesis by simp
  qed
qed

lemmas hex_run [run_simps] = hex_byte_def hex_encode_def

section \<open>Byte strings\<close>

text \<open>\<open>string(b)\<close> and \<open>[]byte(s)\<close>.\<close>

definition str_of_bytes :: "bytes \<Rightarrow> string" where
  "str_of_bytes = map (\<lambda>b. char_of (unat b))"

definition bytes_of_str :: "string \<Rightarrow> bytes" where
  "bytes_of_str = map (\<lambda>c. word_of_nat (of_char c))"

text \<open>Characters of closed bytes.\<close>

lemmas char_run [run_simps] = str_of_bytes_def char_of_def bit_0

lemma str_of_bytes_of_str [simp]: "str_of_bytes (bytes_of_str s) = s"
  by (simp add: str_of_bytes_def bytes_of_str_def o_def unat_of_nat map_idI)

lemma bytes_of_str_of_bytes [simp]: "bytes_of_str (str_of_bytes b) = b"
  by (simp add: str_of_bytes_def bytes_of_str_def o_def unat_byte_less map_idI)

lemma length_bytes_of_str [simp]: "length (bytes_of_str s) = length s"
  by (simp add: bytes_of_str_def)

section \<open>Joining\<close>

text \<open>The helper \<open>join\<close>/\<open>joinStrings\<close>/\<open>joinParts\<close> of several packages, and \<open>strings.Split\<close>.\<close>

fun join_sep :: "string list \<Rightarrow> string \<Rightarrow> string" where
  "join_sep [] sep = []"
| "join_sep (p # ps) sep = p @ concat (map (\<lambda>q. sep @ q) ps)"

text \<open>\<open>strings.Split(s, c)\<close> for a one-byte separator.\<close>

fun split_on :: "char \<Rightarrow> string \<Rightarrow> string list" where
  "split_on c [] = [[]]"
| "split_on c (x # s) =
     (if x = c then [] # split_on c s
      else case split_on c s of [] \<Rightarrow> [[x]] | p # ps \<Rightarrow> (x # p) # ps)"

lemma split_on_nonempty [simp]: "split_on c s \<noteq> []"
  by (induction s) (auto split: list.splits)

lemma split_on_no_sep: "c \<notin> set p \<Longrightarrow> split_on c p = [p]"
  by (induction p) auto

lemma split_on_append_sep: "c \<notin> set p \<Longrightarrow> split_on c (p @ c # s) = p # split_on c s"
  by (induction p) auto

lemma split_on_join:
  "ps \<noteq> [] \<Longrightarrow> \<forall>p \<in> set ps. c \<notin> set p \<Longrightarrow> split_on c (join_sep ps [c]) = ps"
proof (induction ps rule: induct_list012)
  case (3 p q ps)
  have "join_sep (p # q # ps) [c] = p @ c # join_sep (q # ps) [c]" by simp
  with 3 show ?case by (simp add: split_on_append_sep del: join_sep.simps)
qed (auto simp: split_on_no_sep)

lemma join_split_on: "join_sep (split_on c s) [c] = s"
proof (induction s)
  case (Cons x s)
  then show ?case by (cases "split_on c s"; cases "x = c") auto
qed simp

end
