(* ===== verification/Go_Text.thy ===== *)
theory Go_Text
  imports Go_Numbers
begin

text \<open>
  \<open>utf8.Valid\<close>, the string encoder of \<open>encoding/json\<close> and \<open>net.IP.String\<close>. The JSON escape
  is an instance of the prefix-code interface on the valid runes, which makes the encoding of a
  valid UTF-8 string injective: this is what the dedup key relies on.
\<close>

section \<open>UTF-8\<close>

definition cont_byte :: "nat \<Rightarrow> bool" where
  "cont_byte b \<longleftrightarrow> 128 \<le> b \<and> b < 192"

text \<open>The width of the rune a byte sequence starts with, 0 where none does (\<open>utf8.DecodeRune\<close>).\<close>

fun rune_width :: "nat list \<Rightarrow> nat" where
  "rune_width [] = 0"
| "rune_width (a # s) =
     (if a < 128 then 1
      else if 194 \<le> a \<and> a < 224 then
        (case s of b # _ \<Rightarrow> if cont_byte b then 2 else 0 | _ \<Rightarrow> 0)
      else if 224 \<le> a \<and> a < 240 then
        (case s of b # c # _ \<Rightarrow>
           if cont_byte b \<and> (a = 224 \<longrightarrow> 160 \<le> b) \<and> (a = 237 \<longrightarrow> b < 160) \<and> cont_byte c then 3 else 0
         | _ \<Rightarrow> 0)
      else if 240 \<le> a \<and> a < 245 then
        (case s of b # c # d # _ \<Rightarrow>
           if cont_byte b \<and> (a = 240 \<longrightarrow> 144 \<le> b) \<and> (a = 244 \<longrightarrow> b < 144) \<and> cont_byte c \<and> cont_byte d
           then 4 else 0
         | _ \<Rightarrow> 0)
      else 0)"

lemma rune_width_le: "rune_width s \<le> length s"
  by (cases s) (auto split: list.splits)

text \<open>The width a lead byte announces.\<close>

definition lead_width :: "nat \<Rightarrow> nat" where
  "lead_width a = (if a < 128 then 1 else if a < 224 then 2 else if a < 240 then 3 else 4)"

lemma rune_width_lead: "rune_width (a # s) \<noteq> 0 \<Longrightarrow> rune_width (a # s) = lead_width a"
  by (auto simp: lead_width_def split: if_splits list.splits)

lemma rune_width_append: "rune_width s \<noteq> 0 \<Longrightarrow> rune_width (s @ t) = rune_width s"
  by (cases s) (auto split: if_splits list.splits)

lemma rune_width_take: "rune_width s \<noteq> 0 \<Longrightarrow> rune_width (take (rune_width s) s) = rune_width s"
  by (cases s) (auto split: if_splits list.splits)

definition str_codes :: "string \<Rightarrow> nat list" where
  "str_codes = map of_char"

definition rune_width_str :: "string \<Rightarrow> nat" where
  "rune_width_str s = rune_width (str_codes s)"

lemma rune_width_str_le: "rune_width_str s \<le> length s"
  using rune_width_le [of "str_codes s"] by (simp add: rune_width_str_def str_codes_def)

lemma rune_width_str_nil [simp]: "rune_width_str [] = 0"
  by (simp add: rune_width_str_def str_codes_def)

text \<open>\<open>utf8.Valid\<close>: the whole string is a sequence of runes.\<close>

function utf8_valid :: "string \<Rightarrow> bool" where
  "utf8_valid s =
     (if s = [] then True
      else if rune_width_str s = 0 then False
      else utf8_valid (drop (rune_width_str s) s))"
  by pat_completeness auto
termination
  by (relation "measure length") auto

declare utf8_valid.simps [simp del]

text \<open>The runes of a string: each valid rune as its bytes, each other byte alone.\<close>

function runes :: "string \<Rightarrow> string list" where
  "runes s = (if s = [] then []
     else let w = max 1 (rune_width_str s) in take w s # runes (drop w s))"
  by pat_completeness auto
termination
  by (relation "measure length") auto

declare runes.simps [simp del]

definition is_rune :: "string \<Rightarrow> bool" where
  "is_rune r \<longleftrightarrow> r \<noteq> [] \<and> rune_width_str r = length r"

lemma concat_runes [simp]: "concat (runes s) = s"
proof (induction s rule: runes.induct)
  case (1 s)
  then show ?case
    by (cases "s = []") (simp_all add: runes.simps [of s] runes.simps [of "[]"] Let_def)
qed

lemma runes_valid: "utf8_valid s \<Longrightarrow> set (runes s) \<subseteq> Collect is_rune"
proof (induction s rule: runes.induct)
  case (1 s)
  show ?case
  proof (cases "s = []")
    case False
    with "1.prems" have w: "rune_width_str s \<noteq> 0" "utf8_valid (drop (rune_width_str s) s)"
      by (simp_all add: utf8_valid.simps [of s] split: if_splits)
    then have "max 1 (rune_width_str s) = rune_width_str s" by simp
    moreover have "is_rune (take (rune_width_str s) s)"
      using w False rune_width_str_le [of s] rune_width_take [of "str_codes s"]
      by (simp add: is_rune_def rune_width_str_def str_codes_def take_map)
    ultimately show ?thesis
      using 1 False w by (simp add: runes.simps [of s] Let_def)
  qed (simp add: runes.simps [of "[]"])
qed

lemma utf8_valid_ascii: "list_all is_ascii s \<Longrightarrow> utf8_valid s"
proof (induction s)
  case (Cons c s)
  then have "rune_width_str (c # s) = 1"
    by (simp add: rune_width_str_def str_codes_def is_ascii_def)
  with Cons show ?case by (simp add: utf8_valid.simps [of "c # s"])
qed (simp add: utf8_valid.simps [of "[]"])

section \<open>JSON strings\<close>

text \<open>
  The escape of one rune with HTML escaping on, as \<open>json.Marshal\<close> does; an invalid byte
  becomes the escaped replacement character.
\<close>

definition backslash :: char where "backslash = CHR 0x5C"

definition json_ascii :: "char \<Rightarrow> string" where
  "json_ascii c =
     (if c = CHR 0x22 \<or> c = backslash then [backslash, c]
      else if c = CHR 0x08 then [backslash, CHR ''b'']
      else if c = CHR 0x0C then [backslash, CHR ''f'']
      else if c = CHR 0x0A then [backslash, CHR ''n'']
      else if c = CHR 0x0D then [backslash, CHR ''r'']
      else if c = CHR 0x09 then [backslash, CHR ''t'']
      else if (of_char c :: nat) < 32 \<or> c = CHR ''<'' \<or> c = CHR ''>'' \<or> c = CHR ''&'' then
        [backslash, CHR ''u'', CHR ''0'', CHR ''0'',
         hex_digit (of_char c div 16), hex_digit (of_char c mod 16)]
      else [c])"

definition json_rune :: "string \<Rightarrow> string" where
  "json_rune r =
     (if rune_width_str r \<noteq> length r then backslash # ''ufffd''
      else case r of
        [c] \<Rightarrow> json_ascii c
      | _ \<Rightarrow> if r = [CHR 0xE2, CHR 0x80, CHR 0xA8] then backslash # ''u2028''
             else if r = [CHR 0xE2, CHR 0x80, CHR 0xA9] then backslash # ''u2029''
             else r)"

definition json_string :: "string \<Rightarrow> string" where
  "json_string s = CHR 0x22 # concat (map json_rune (runes s)) @ [CHR 0x22]"

lemma rune_codes: "is_rune (c # r) \<Longrightarrow> lead_width (of_char c) = Suc (length r)"
  using rune_width_lead [of "of_char c" "str_codes r"]
  by (simp add: is_rune_def rune_width_str_def str_codes_def)

lemma is_rune_single: "is_rune [c] \<longleftrightarrow> (of_char c :: nat) < 128"
  by (auto simp: is_rune_def rune_width_str_def str_codes_def)

lemma is_rune_multi: "is_rune (c # d # r) \<Longrightarrow> 194 \<le> (of_char c :: nat)"
  by (auto simp: is_rune_def rune_width_str_def str_codes_def split: if_splits)

lemma backslash_code [simp]: "(of_char backslash :: nat) = 92"
  by (simp add: backslash_def)

text \<open>Reading the first rune back from an escaped string.\<close>

definition unhex :: "char \<Rightarrow> nat" where
  "unhex c = (if (of_char c :: nat) < 58 then of_char c - 48 else of_char c - 87)"

lemma unhex_hex_digit [simp]: "d < 16 \<Longrightarrow> unhex (hex_digit d) = d"
  by (simp add: unhex_def of_char_hex_digit)

definition json_unrune :: "string \<Rightarrow> string" where
  "json_unrune x =
     (if hd x = backslash then
        if x ! 1 = CHR ''u'' then
          if take 4 (drop 2 x) = ''2028'' then [CHR 0xE2, CHR 0x80, CHR 0xA8]
          else if take 4 (drop 2 x) = ''2029'' then [CHR 0xE2, CHR 0x80, CHR 0xA9]
          else [char_of (16 * unhex (x ! 4) + unhex (x ! 5))]
        else
          [if x ! 1 = CHR ''b'' then CHR 0x08 else if x ! 1 = CHR ''f'' then CHR 0x0C
           else if x ! 1 = CHR ''n'' then CHR 0x0A else if x ! 1 = CHR ''r'' then CHR 0x0D
           else if x ! 1 = CHR ''t'' then CHR 0x09 else x ! 1]
      else take (lead_width (of_char (hd x))) x)"

lemma json_unrune_ascii: "(of_char c :: nat) < 128 \<Longrightarrow> json_unrune (json_ascii c @ u) = [c]"
proof -
  assume c: "(of_char c :: nat) < 128"
  let ?short = "{CHR 0x22, backslash, CHR 0x08, CHR 0x0C, CHR 0x0A, CHR 0x0D, CHR 0x09}"
  have hex: "char_of (16 * ((of_char c :: nat) div 16) + of_char c mod 16) = c" by simp
  consider (short) "c \<in> ?short"
    | (escaped) "c \<notin> ?short" "(of_char c :: nat) < 32 \<or> c = CHR ''<'' \<or> c = CHR ''>'' \<or> c = CHR ''&''"
    | (plain) "c \<notin> ?short" "\<not> ((of_char c :: nat) < 32 \<or> c = CHR ''<'' \<or> c = CHR ''>'' \<or> c = CHR ''&'')"
    by blast
  then show ?thesis
  proof cases
    case short
    then show ?thesis
      by (elim insertE emptyE) (simp_all add: json_unrune_def json_ascii_def backslash_def)
  next
    case escaped
    then have "json_ascii c = [backslash, CHR ''u'', CHR ''0'', CHR ''0'',
         hex_digit (of_char c div 16), hex_digit (of_char c mod 16)]"
      by (simp add: json_ascii_def)
    with c hex show ?thesis by (simp add: json_unrune_def)
  next
    case plain
    then have "json_ascii c = [c]" "c \<noteq> backslash" by (simp_all add: json_ascii_def)
    with c show ?thesis by (simp add: json_unrune_def lead_width_def)
  qed
qed

lemma json_unrune_json_rune:
  assumes r: "is_rune r"
  shows "json_unrune (json_rune r @ u) = r"
proof (cases r)
  case Nil
  with r show ?thesis by (simp add: is_rune_def)
next
  case (Cons c s)
  show ?thesis
  proof (cases s)
    case Nil
    with r Cons have "(of_char c :: nat) < 128" by (simp add: is_rune_single)
    then show ?thesis
      using r Cons Nil json_unrune_ascii [of c u] by (simp add: json_rune_def is_rune_def)
  next
    case (Cons d t)
    with r \<open>r = c # s\<close> have c: "194 \<le> (of_char c :: nat)" by (auto dest: is_rune_multi)
    then have "c \<noteq> backslash" by (auto simp: backslash_def)
    moreover have "lead_width (of_char c) = length r"
      using rune_codes [of c s] r \<open>r = c # s\<close> by simp
    ultimately show ?thesis
      using r \<open>r = c # s\<close> Cons
      by (auto simp: json_unrune_def json_rune_def is_rune_def backslash_def)
  qed
qed

lemma json_rune_head:
  assumes "is_rune r"
  shows "json_rune r \<noteq> []" and "json_rune r = c # w \<Longrightarrow> c \<noteq> CHR 0x22"
proof -
  obtain a s where r: "r = a # s" using assms by (cases r) (auto simp: is_rune_def)
  show "json_rune r \<noteq> []"
    by (auto simp: json_rune_def json_ascii_def r split: list.splits)
  have "a \<noteq> CHR 0x22" if "s \<noteq> []"
    using that assms is_rune_multi [of a "hd s" "tl s"] by (cases s) (auto simp: r)
  then show "json_rune r = c # w \<Longrightarrow> c \<noteq> CHR 0x22"
    by (auto simp: json_rune_def json_ascii_def r backslash_def split: list.splits if_splits)
qed

interpretation json: prefix_code "Collect is_rune" json_rune "CHR 0x22"
proof
  fix r t u v
  assume "r \<in> Collect is_rune" "t \<in> Collect is_rune" "json_rune r @ u = json_rune t @ v"
  then show "r = t" by (metis json_unrune_json_rune mem_Collect_eq)
qed (use json_rune_head in auto)

text \<open>A JSON string of valid UTF-8, followed by anything, gives its text back.\<close>

lemma json_string_inject:
  assumes "utf8_valid s" "utf8_valid t" "json_string s @ u = json_string t @ v"
  shows "s = t \<and> u = v"
proof -
  have "runes s = runes t \<and> u = v"
    using assms by (intro json.terminated_inject) (auto simp: json_string_def dest: runes_valid)
  then show ?thesis using concat_runes by metis
qed

section \<open>IP addresses: \<open>net.IP.String\<close>\<close>

definition ipv4_str :: "bytes \<Rightarrow> string" where
  "ipv4_str bs = join_sep (map (\<lambda>b. nat_str (unat b)) bs) ''.''"

fun u16_groups :: "bytes \<Rightarrow> nat list" where
  "u16_groups (a # b # bs) = (256 * unat a + unat b) # u16_groups bs"
| "u16_groups _ = []"

fun hex_nat :: "nat \<Rightarrow> string" where
  "hex_nat n = (if n < 16 then [hex_digit n] else hex_nat (n div 16) @ [hex_digit (n mod 16)])"

declare hex_nat.simps [simp del]

text \<open>The first longest run of at least two zero groups, as \<open>(start, end)\<close>.\<close>

definition zero_run_from :: "nat list \<Rightarrow> nat \<Rightarrow> nat" where
  "zero_run_from gs i = i + length (takeWhile (\<lambda>g. g = 0) (drop i gs))"

definition zero_run :: "nat list \<Rightarrow> (nat \<times> nat) option" where
  "zero_run gs =
     foldl (\<lambda>best i. let j = zero_run_from gs i; l = j - i
                     in if 2 \<le> l \<and> (case best of None \<Rightarrow> True | Some (zs, ze) \<Rightarrow> ze - zs < l)
                        then Some (i, j) else best)
       None [0, 1, 2, 3, 4, 5, 6, 7]"

definition ipv6_str :: "bytes \<Rightarrow> string" where
  "ipv6_str bs =
     (let gs = u16_groups bs in
      case zero_run gs of
        None \<Rightarrow> join_sep (map hex_nat gs) '':''
      | Some (zs, ze) \<Rightarrow>
          join_sep (map hex_nat (take zs gs)) '':'' @ ''::'' @
          join_sep (map hex_nat (drop ze gs)) '':'')"

definition v4_mapped :: "bytes \<Rightarrow> bool" where
  "v4_mapped bs \<longleftrightarrow> take 12 bs = replicate 10 0 @ [0xFF, 0xFF]"

definition ip_str :: "bytes \<Rightarrow> string" where
  "ip_str bs =
     (if length bs = 0 then ''<nil>''
      else if length bs = 4 then ipv4_str bs
      else if length bs = 16 then (if v4_mapped bs then ipv4_str (drop 12 bs) else ipv6_str bs)
      else ''?'' @ hex_encode bs)"

end
