(* ===== verification/Relay_Model.thy ===== *)
theory Relay_Model
  imports Go_Text
begin

text \<open>
  The data of \<open>internal/model/types.go\<close>: configuration sections, trap events, dedup keys and
  dedup states, as records with the code's fields in the code's order, and the operations of that
  file. A Go map that is only looked up is a HOL map; the match specification, which the code
  iterates, is an association list in the order of the iteration.
\<close>

section \<open>Dynamically typed YAML values\<close>

text \<open>
  A value of Go type \<open>any\<close> as the YAML decoder makes it. Scalars other than strings (numbers,
  booleans, timestamps) are read by the relay through \<open>fmt.Sprint\<close> only, so they are
  represented by the text it prints for them. A mapping with string keys is \<^verbatim>\<open>map[string]any\<close>, any
  other mapping \<^verbatim>\<open>map[any]any\<close>; its pairs are listed in the order in which \<open>fmt\<close> prints them.
\<close>

datatype yval =
    YNil
  | YStr string
  | YScalar string
  | YList "yval list"
  | YMap "(string \<times> yval) list"
  | YAnyMap "(yval \<times> yval) list"

text \<open>\<open>fmt.Sprint(v)\<close>.\<close>

fun sprint :: "yval \<Rightarrow> string" where
  "sprint YNil = ''<nil>''"
| "sprint (YStr s) = s"
| "sprint (YScalar t) = t"
| "sprint (YList vs) = ''['' @ join_sep (map sprint vs) '' '' @ '']''"
| "sprint (YMap kvs) = ''map['' @ join_sep (map (\<lambda>(k, v). k @ '':'' @ sprint v) kvs) '' '' @ '']''"
| "sprint (YAnyMap kvs) =
     ''map['' @ join_sep (map (\<lambda>(k, v). sprint k @ '':'' @ sprint v) kvs) '' '' @ '']''"

section \<open>Configuration\<close>

record server_config =
  sc_host :: string
  sc_port :: int
  sc_max_datagram_size :: int
  sc_cleanup_interval_seconds :: int
  sc_max_dedup_entries :: int
  sc_queue_size :: int
  sc_worker_count :: int
  sc_stats_log_interval_secs :: int

record metrics_config =
  mc_enabled :: bool
  mc_host :: string
  mc_port :: int
  mc_path :: string

record runtime_config =
  rc_memory_limit :: string

record logging_config =
  lc_level :: string
  lc_format :: string
  lc_file :: string
  lc_alerts_file :: string

record forwarder_config =
  fc_name :: string
  fc_host :: string
  fc_port :: int
  fc_enabled :: bool
  fc_source_host :: string

record v3_user_config =
  v3_user_name :: string
  v3_auth_protocol :: string
  v3_auth_passphrase :: string
  v3_priv_protocol :: string
  v3_priv_passphrase :: string

record receiver_config =
  rv_v3_users :: "v3_user_config list"

text \<open>\<open>MatchSpec.Raw\<close>: the decoded mapping; a nil map and an empty one are both \<open>[]\<close>.\<close>

record match_spec =
  ms_raw :: "(string \<times> yval) list"

text \<open>
  \<open>MatchSpec.UnmarshalYAML\<close>: an absent node leaves a nil map, another one is decoded into a
  \<^verbatim>\<open>map[string]any\<close>, which fails for a node that is not a mapping. \<open>None\<close> is the nil or
  zero-kind node, and the decoder of the YAML library is the function \<open>decode\<close>.
\<close>

definition unmarshal_match_spec ::
    "('n \<Rightarrow> (string \<times> yval) list res) \<Rightarrow> 'n option \<Rightarrow> match_spec res" where
  "unmarshal_match_spec decode node =
     (case node of
        None \<Rightarrow> Inr \<lparr>ms_raw = []\<rparr>
      | Some n \<Rightarrow> rbind (decode n) (\<lambda>raw. Inr \<lparr>ms_raw = raw\<rparr>))"

record dedup_clear_config =
  dc_match :: match_spec
  dc_key_fields :: "string list"
  dc_varbind_oid :: string
  dc_regex :: string

record dedup_config =
  dd_ttl_seconds :: int
  dd_key_fields :: "string list"
  dd_hold_until_clear :: bool
  dd_clear :: "dedup_clear_config option"

record filter_rule_config =
  fr_id :: string
  fr_action :: string
  fr_match :: match_spec

record filters_config =
  fl_default_action :: string
  fl_rules :: "filter_rule_config list"

record alarm_rule_config =
  al_id :: string
  al_match :: match_spec
  al_dedup :: dedup_config

record app_config =
  ac_server :: server_config
  ac_runtime :: runtime_config
  ac_metrics :: metrics_config
  ac_logging :: logging_config
  ac_receiver :: receiver_config
  ac_field_aliases :: "(string \<rightharpoonup> string) option"   \<comment> \<open>\<open>None\<close> is the nil map\<close>
  ac_forwarders :: "forwarder_config list"
  ac_filters :: filters_config
  ac_dedup_defaults :: dedup_config
  ac_alarms :: "alarm_rule_config list"

text \<open>\<open>AppConfig.GetRuntimeMemoryLimit\<close>, on a possibly nil receiver.\<close>

definition get_runtime_memory_limit :: "app_config option \<Rightarrow> string" where
  "get_runtime_memory_limit c =
     (case c of None \<Rightarrow> [] | Some cfg \<Rightarrow> trim_space (rc_memory_limit (ac_runtime cfg)))"

section \<open>Trap events\<close>

record varbind =
  vb_oid :: string
  vb_type_name :: string
  vb_value :: string

text \<open>Times are nanoseconds on the clock that \<open>time.Now\<close> reads.\<close>

record trap_event =
  ev_received_at :: int
  ev_source_ip :: string
  ev_source_port :: int
  ev_raw_bytes :: bytes
  ev_version :: int
  ev_community :: string
  ev_pdu_type :: string
  ev_enterprise_oid :: string
  ev_agent_address :: string
  ev_generic_trap :: string
  ev_generic_trap_name :: string
  ev_specific_trap :: string
  ev_uptime :: string
  ev_request_id :: int
  ev_error_status :: int
  ev_error_index :: int
  ev_trap_oid :: string
  ev_varbinds :: "varbind list"
  ev_raw_varbind_map :: "string \<rightharpoonup> string"
  ev_fields :: "(string \<rightharpoonup> string) option"          \<comment> \<open>\<open>None\<close> is the nil map\<close>
  ev_alerts_logged :: bool

text \<open>The zero value of the struct.\<close>

definition zero_event :: trap_event where
  "zero_event =
     \<lparr>ev_received_at = 0, ev_source_ip = [], ev_source_port = 0, ev_raw_bytes = [],
      ev_version = 0, ev_community = [], ev_pdu_type = [], ev_enterprise_oid = [],
      ev_agent_address = [], ev_generic_trap = [], ev_generic_trap_name = [],
      ev_specific_trap = [], ev_uptime = [], ev_request_id = 0, ev_error_status = 0,
      ev_error_index = 0, ev_trap_oid = [], ev_varbinds = [], ev_raw_varbind_map = Map.empty,
      ev_fields = None, ev_alerts_logged = False\<rparr>"

text \<open>Reading a possibly nil Go map: a nil map has no entry.\<close>

definition map_get :: "(string \<rightharpoonup> string) option \<Rightarrow> string \<Rightarrow> string option" where
  "map_get m k = (case m of None \<Rightarrow> None | Some f \<Rightarrow> f k)"

lemma map_get_simps [simp]: "map_get None k = None" "map_get (Some f) k = f k"
  by (simp_all add: map_get_def)

text \<open>\<open>m[k]\<close>: the value, or the empty string where there is none.\<close>

definition str_get :: "(string \<rightharpoonup> string) \<Rightarrow> string \<Rightarrow> string" where
  "str_get m k = (case m k of None \<Rightarrow> [] | Some v \<Rightarrow> v)"

text \<open>\<open>fmt.Sprintf("%s:%d", e.SourceIP, e.SourcePort)\<close>.\<close>

definition source_text :: "trap_event \<Rightarrow> string" where
  "source_text e = ev_source_ip e @ '':'' @ int_str (ev_source_port e)"

text \<open>\<open>TrapEvent.Summary\<close>.\<close>

definition summary :: "trap_event \<Rightarrow> string" where
  "summary e =
     join_sep
       ([''src='' @ source_text e, ''version='' @ int_str (ev_version e)] @
        (if ev_trap_oid e \<noteq> [] then [''trap_oid='' @ ev_trap_oid e]
         else if ev_pdu_type e \<noteq> [] then [''pdu='' @ ev_pdu_type e] else []) @
        (if ev_enterprise_oid e \<noteq> [] then [''enterprise='' @ ev_enterprise_oid e] else []) @
        (if ev_generic_trap_name e \<noteq> [] then [''generic='' @ ev_generic_trap_name e]
         else if ev_generic_trap e \<noteq> [] then [''generic='' @ ev_generic_trap e] else []) @
        (if ev_specific_trap e \<noteq> [] then [''specific='' @ ev_specific_trap e] else []))
       '' ''"

section \<open>Dedup keys and states\<close>

record dedup_key =
  dk_hash :: string
  dk_repr :: string
  dk_missing_fields :: "string list"

record dedup_state =
  ds_rule_id :: string
  ds_key_hash :: string
  ds_key_repr :: string
  ds_first_event :: trap_event
  ds_first_seen_at :: int
  ds_last_seen_at :: int
  ds_ttl_seconds :: int
  ds_hold_until_clear :: bool
  ds_suppressed_count :: int

text \<open>
  \<open>DedupState.ExpiresAt\<close>: \<open>time.Duration(ttl) * time.Second\<close> is a 64-bit product of
  nanoseconds and wraps.
\<close>

definition ttl_duration :: "int \<Rightarrow> int" where
  "ttl_duration ttl = sint (word_of_int ttl * 1000000000 :: go_int)"

definition expires_at :: "dedup_state \<Rightarrow> int" where
  "expires_at s = ds_first_seen_at s + ttl_duration (ds_ttl_seconds s)"

text \<open>The longest TTL whose nanoseconds fit 64 bits: about 292 years.\<close>

definition max_ttl_seconds :: int where
  "max_ttl_seconds = 9223372036"

lemma ttl_duration_exact:
  assumes "- max_ttl_seconds \<le> ttl" "ttl \<le> max_ttl_seconds"
  shows "ttl_duration ttl = ttl * 1000000000"
proof -
  have "(word_of_int ttl * 1000000000 :: go_int) = word_of_int (ttl * 1000000000)" by simp
  then have "ttl_duration ttl = signed_take_bit 63 (ttl * 1000000000)"
    by (simp only: ttl_duration_def sint_sbintrunc') simp
  also have "\<dots> = ttl * 1000000000"
    using assms by (intro signed_take_bit_int_eq_self) (auto simp: max_ttl_seconds_def)
  finally show ?thesis .
qed

end
