(* ===== verification/Oid_Util.thy ===== *)
theory Oid_Util
  imports Relay_Model
begin

text \<open>
  \<open>internal/oidutil/oidutil.go\<close>: the normal form of OID text (no surrounding white space, no
  leading dot), lookups that accept dotted and undotted keys, and the spellings that a field
  lookup tries.
\<close>

definition Normalize :: "string \<Rightarrow> string" where
  "Normalize value = trim_prefix (trim_space value) ''.''"

definition Lookup :: "(string \<rightharpoonup> string) option \<Rightarrow> string \<Rightarrow> (string \<times> bool)" where
  "Lookup m key =
     (case m of
        None \<Rightarrow> ([], False)
      | Some f \<Rightarrow>
         (case f key of
            Some value \<Rightarrow> (value, True)
          | None \<Rightarrow>
             let normalized = Normalize key; dotted = ''.'' @ normalized in
             case (if normalized \<noteq> key then f normalized else None) of
               Some value \<Rightarrow> (value, True)
             | None \<Rightarrow>
                (case (if dotted \<noteq> key \<and> dotted \<noteq> normalized then f dotted else None) of
                   Some value \<Rightarrow> (value, True)
                 | None \<Rightarrow> ([], False))))"

definition Variants :: "string \<Rightarrow> string list" where
  "Variants value =
     (let trimmed = trim_space value in
      if trimmed = [] then []
      else let normalized = Normalize trimmed in
        if normalized = trimmed then [normalized] else [normalized, trimmed])"

text \<open>Unfolding the OID and text functions on closed strings.\<close>

lemmas oid_run [run_simps] =
  Normalize_def Lookup_def Variants_def trim_run_defs trim_runes.simps [of _ "c # s" for c s]
  trim_runes.simps [of _ "[]"] trim_prefix_def has_prefix_def

section \<open>Plain OID text\<close>

text \<open>Digits and dots, not starting with a dot: what the decoders produce.\<close>

definition oid_char :: "char \<Rightarrow> bool" where
  "oid_char c \<longleftrightarrow> is_digit c \<or> c = CHR ''.''"

definition plain_oid :: "string \<Rightarrow> bool" where
  "plain_oid s \<longleftrightarrow> s \<noteq> [] \<and> list_all oid_char s \<and> hd s \<noteq> CHR ''.''"

lemma solid_oid_char [simp]: "oid_char c \<Longrightarrow> solid c"
  by (auto simp: oid_char_def is_digit_def solid_def space_runes_def)

lemma oid_text_trim: "list_all oid_char s \<Longrightarrow> trim_space s = s"
  by (rule trim_space_all_solid) (auto simp: list_all_iff)

lemma Normalize_plain [simp]: "plain_oid s \<Longrightarrow> Normalize s = s"
  by (cases s) (auto simp: plain_oid_def Normalize_def oid_text_trim trim_prefix_def)

lemma Normalize_dotted [simp]: "plain_oid s \<Longrightarrow> Normalize (CHR ''.'' # s) = s"
  by (auto simp: plain_oid_def Normalize_def oid_text_trim oid_char_def trim_prefix_def)

lemma Normalize_nil [simp]: "Normalize [] = []"
  by (simp add: Normalize_def trim_prefix_def)

lemma plain_oid_not_dotted: "plain_oid s \<Longrightarrow> s \<noteq> CHR ''.'' # t"
  by (auto simp: plain_oid_def)

text \<open>
  Normalising is idempotent on text whose normal form is plain, whatever white space or dot
  surrounds it; it is not in general, since one leading dot is removed at a time.
\<close>

lemma Normalize_twice: "plain_oid (Normalize s) \<Longrightarrow> Normalize (Normalize s) = Normalize s"
  by simp

text \<open>An alias is found under both spellings of its OID, the undotted one first.\<close>

lemma Lookup_plain:
  assumes "plain_oid k"
  shows "Lookup (Some f) k =
    (case f k of Some v \<Rightarrow> (v, True)
     | None \<Rightarrow> (case f (CHR ''.'' # k) of Some v \<Rightarrow> (v, True) | None \<Rightarrow> ([], False)))"
  using assms plain_oid_not_dotted [OF assms] plain_oid_not_dotted [OF assms, symmetric]
  by (auto simp: Lookup_def split: option.splits)

lemma Lookup_dotted:
  assumes "plain_oid k"
  shows "Lookup (Some f) (CHR ''.'' # k) =
    (case f (CHR ''.'' # k) of Some v \<Rightarrow> (v, True)
     | None \<Rightarrow> (case f k of Some v \<Rightarrow> (v, True) | None \<Rightarrow> ([], False)))"
  using assms plain_oid_not_dotted [OF assms] plain_oid_not_dotted [OF assms, symmetric]
  by (auto simp: Lookup_def split: option.splits)

lemma Variants_plain [simp]: "plain_oid s \<Longrightarrow> Variants s = [s]"
proof -
  assume s: "plain_oid s"
  then have "trim_space s = s" "s \<noteq> []" by (simp_all add: plain_oid_def oid_text_trim)
  with s show ?thesis by (simp add: Variants_def)
qed

lemma Variants_dotted [simp]: "plain_oid s \<Longrightarrow> Variants (CHR ''.'' # s) = [s, CHR ''.'' # s]"
proof -
  assume s: "plain_oid s"
  then have "trim_space (CHR ''.'' # s) = CHR ''.'' # s"
    by (intro oid_text_trim) (simp add: plain_oid_def oid_char_def)
  with s plain_oid_not_dotted [OF s] show ?thesis by (simp add: Variants_def)
qed

end
