(* ===== verification/Ber.thy ===== *)
theory Ber
  imports Oid_Util
begin

unbundle bit_operations_syntax

text \<open>
  \<open>internal/ber/ber.go\<close>: the TLV reader over a byte slice and a position, and the decoders of
  integers, object identifiers and SNMP values. The reader is characterised by the grammar of
  definite-length encodings with at most four length bytes; it never indexes outside its data.
  Lengths and OID arcs are computed on 64-bit words, as Go's \<open>int\<close> is.
\<close>

section \<open>The TLV reader\<close>

record tlv =
  tlv_tag :: byte
  tlv_length :: int
  tlv_value :: bytes

record reader =
  rd_data :: bytes
  rd_pos :: nat

definition new_reader :: "bytes \<Rightarrow> reader" where
  "new_reader data = \<lparr>rd_data = data, rd_pos = 0\<rparr>"

definition remaining :: "reader \<Rightarrow> int" where
  "remaining r = int (length (rd_data r)) - int (rd_pos r)"

definition at_eof :: "reader \<Rightarrow> bool" where
  "at_eof r \<longleftrightarrow> length (rd_data r) \<le> rd_pos r"

definition advance :: "nat \<Rightarrow> reader \<Rightarrow> reader" where
  "advance n r = r\<lparr>rd_pos := rd_pos r + n\<rparr>"

text \<open>The loop over the bytes of a long-form length, with its overflow guard.\<close>

fun read_len_bytes :: "reader \<Rightarrow> nat \<Rightarrow> nat \<Rightarrow> go_int \<Rightarrow> go_int res" where
  "read_len_bytes r i 0 len = Inr len"
| "read_len_bytes r i (Suc k) len =
     (if max_int64 div 256 < sint len then Inl (BerError ''BER length overflow'')
      else rbind (index (rd_data r) (rd_pos r + i))
             (\<lambda>b. read_len_bytes r (Suc i) k (push_bit 8 len OR ucast b)))"

definition read_len :: "byte \<Rightarrow> reader \<Rightarrow> go_int res \<times> reader" where
  "read_len first_len r =
     (if first_len < 0x80 then (Inr (ucast first_len), r)
      else let count = unat (first_len AND 0x7F) in
        if count = 0 then (Inl (BerError ''indefinite BER length is not supported''), r)
        else if 4 < count then (Inl (BerError ''BER length is too large''), r)
        else if remaining r < int count then (Inl (BerError ''truncated BER length''), r)
        else case read_len_bytes r 0 count 0 of
            Inl e \<Rightarrow> (Inl e, r)
          | Inr len \<Rightarrow> (Inr len, advance count r))"

text \<open>The last part of \<open>ReadTLV\<close>: the value of the announced length.\<close>

definition read_value :: "byte \<Rightarrow> go_int \<Rightarrow> reader \<Rightarrow> tlv res \<times> reader" where
  "read_value tag len r =
     (if sint len < 0 then (Inl (BerError ''BER length overflow''), r)
      else if remaining r < sint len then (Inl (BerError ''truncated BER value''), r)
      else case slice (rd_data r) (rd_pos r) (rd_pos r + nat (sint len)) of
          Inl e \<Rightarrow> (Inl e, r)
        | Inr v \<Rightarrow> (Inr \<lparr>tlv_tag = tag, tlv_length = sint len, tlv_value = v\<rparr>,
                    advance (nat (sint len)) r))"

definition ReadTLV :: "reader \<Rightarrow> tlv res \<times> reader" where
  "ReadTLV r =
     (if remaining r < 2 then (Inl (BerError ''truncated BER data''), r)
      else case index (rd_data r) (rd_pos r) of
          Inl e \<Rightarrow> (Inl e, r)
        | Inr tag \<Rightarrow>
            let r1 = advance 1 r in
            case index (rd_data r1) (rd_pos r1) of
                Inl e \<Rightarrow> (Inl e, r1)
              | Inr first_len \<Rightarrow>
                  (case read_len first_len (advance 1 r1) of
                     (Inl e, r2) \<Rightarrow> (Inl e, r2)
                   | (Inr len, r2) \<Rightarrow> read_value tag len r2))"

text \<open>Reading one element and going on with the reader it leaves, or returning its error.\<close>

definition with_tlv :: "reader \<Rightarrow> (tlv \<Rightarrow> reader \<Rightarrow> 'a res) \<Rightarrow> 'a res" where
  "with_tlv r k = (case ReadTLV r of (Inl e, _) \<Rightarrow> Inl e | (Inr t, r') \<Rightarrow> k t r')"

lemma with_tlv_weak_cong: "r = r' \<Longrightarrow> with_tlv r k = with_tlv r' k"
  by simp

lemmas run_congs = rbind_weak_cong with_tlv_weak_cong

lemmas read_tlv_run [run_simps] =
  with_tlv_def ReadTLV_def read_len_def read_value_def new_reader_def remaining_def at_eof_def
  advance_def max_int64_def index_def slice_def Let_def

section \<open>The grammar of definite lengths\<close>

text \<open>Big-endian value of a byte sequence.\<close>

definition be_val :: "bytes \<Rightarrow> nat" where
  "be_val bs = foldl (\<lambda>n b. 256 * n + unat b) 0 bs"

lemma be_val_nil [simp]: "be_val [] = 0"
  by (simp add: be_val_def)

lemma be_val_snoc [simp]: "be_val (bs @ [b]) = 256 * be_val bs + unat b"
  by (simp add: be_val_def)

lemma be_val_less: "be_val bs < 256 ^ length bs"
proof (induction bs rule: rev_induct)
  case (snoc b bs)
  then have "be_val bs + 1 \<le> 256 ^ length bs" by simp
  then have "256 * be_val bs + 256 \<le> 256 * 256 ^ length bs" by simp
  then show ?case using unat_byte_less [of b] by simp
qed simp

text \<open>\<open>len_header hdr n\<close>: the length octets \<open>hdr\<close> announce \<open>n\<close> bytes.\<close>

definition len_header :: "bytes \<Rightarrow> nat \<Rightarrow> bool" where
  "len_header hdr n \<longleftrightarrow>
     (\<exists>b. hdr = [b] \<and> b < 0x80 \<and> n = unat b) \<or>
     (\<exists>b bs. hdr = b # bs \<and> 0x80 \<le> b \<and> unat (b AND 0x7F) = length bs \<and>
             1 \<le> length bs \<and> length bs \<le> 4 \<and> n = be_val bs)"

lemma len_header_nonempty: "len_header hdr n \<Longrightarrow> hdr \<noteq> []"
  by (auto simp: len_header_def)

lemma small_sint: "unat (w :: go_int) < 2 ^ 63 \<Longrightarrow> sint w = int (unat w)"
proof -
  assume "unat w < 2 ^ 63"
  then have "int (unat w) < int (2 ^ 63)" by (simp only: of_nat_less_iff)
  then have "uint w < 2 ^ 63" by simp
  moreover have "- (2 ^ 63) \<le> uint w" by (rule order_trans [OF _ uint_ge_0]) simp
  ultimately have "signed_take_bit 63 (uint w) = uint w"
    by (intro signed_take_bit_int_eq_self)
  then show ?thesis by (simp add: sint_uint)
qed

lemma shift8_or: "unat w < 2 ^ 48 \<Longrightarrow> unat (push_bit 8 (w :: go_int) OR ucast (b :: byte)) = 256 * unat w + unat b"
proof -
  assume w: "unat w < 2 ^ 48"
  have "push_bit 8 w OR ucast b = push_bit 8 w + (ucast b :: go_int)"
    by (rule disjunctive_add [symmetric]) (auto simp: bit_simps dest: bit_imp_le_length)
  also have "\<dots> = w * 256 + ucast b" by (simp add: push_bit_eq_mult)
  finally have "unat (push_bit 8 w OR ucast b) = (unat w * 256 + unat (ucast b :: go_int)) mod 2 ^ 64"
    by (simp add: unat_word_ariths mod_simps)
  moreover have "unat (ucast b :: go_int) = unat b"
    using unat_byte_less [of b] by (simp add: unsigned_ucast_eq take_bit_nat_eq_self)
  ultimately show ?thesis using w unat_byte_less [of b] by simp
qed

lemma read_len_bytes_val:
  "unat len < 256 ^ j \<Longrightarrow> j + k \<le> 4 \<Longrightarrow> rd_pos r + i + k \<le> length (rd_data r) \<Longrightarrow>
   \<exists>w. read_len_bytes r i k len = Inr w \<and>
       unat w = foldl (\<lambda>n b. 256 * n + unat b) (unat len) (take k (drop (rd_pos r + i) (rd_data r))) \<and>
       unat w < 256 ^ (j + k)"
proof (induction r i k len arbitrary: j rule: read_len_bytes.induct)
  case (2 r i k len)
  let ?b = "rd_data r ! (rd_pos r + i)"
  let ?w = "push_bit 8 len OR ucast ?b"
  have "(256::nat) ^ j \<le> 256 ^ 4" using "2.prems" by (intro power_increasing) auto
  with "2.prems" have small: "unat len < 2 ^ 48" by simp
  then have step: "unat ?w = 256 * unat len + unat ?b" by (rule shift8_or)
  with "2.prems" unat_byte_less [of ?b] have "unat ?w < 256 ^ Suc j" by simp
  moreover have "\<not> max_int64 div 256 < sint len"
  proof -
    have "int (unat len) < int (2 ^ 48)" using small by (simp only: of_nat_less_iff)
    moreover have "sint len = int (unat len)" using small by (intro small_sint) simp
    ultimately show ?thesis by (simp add: max_int64_def)
  qed
  moreover have "take (Suc k) (drop (rd_pos r + i) (rd_data r)) =
      ?b # take k (drop (rd_pos r + Suc i) (rd_data r))"
    using "2.prems" by (simp add: Cons_nth_drop_Suc [symmetric])
  ultimately show ?case
    using "2.IH" [of ?b "Suc j"] "2.prems" step by simp
qed auto

text \<open>
  The length octets are accepted exactly when they follow the grammar; the reader then stands
  behind them.
\<close>

lemma drop_rd_Cons:
  "rd_pos r < length (rd_data r) \<Longrightarrow>
   drop (rd_pos r) (rd_data r) = rd_data r ! rd_pos r # drop (Suc (rd_pos r)) (rd_data r)"
  by (simp add: Cons_nth_drop_Suc)

lemma drop_split: "drop p xs = take n (drop p xs) @ drop (p + n) xs"
  by (metis append_take_drop_id drop_drop add.commute)

lemma word_less_0x80: "(b :: byte) < 0x80 \<longleftrightarrow> unat b < 128"
  by (simp add: word_less_nat_alt)

lemma read_len_Inr:
  assumes "read_len b r = (Inr len, r')" "rd_pos r \<le> length (rd_data r)"
  shows "\<exists>bs. len_header (b # bs) (unat len) \<and> unat len < 2 ^ 32 \<and>
    drop (rd_pos r) (rd_data r) = bs @ drop (rd_pos r') (rd_data r) \<and>
    rd_data r' = rd_data r \<and> rd_pos r' = rd_pos r + length bs \<and> rd_pos r' \<le> length (rd_data r)"
proof (cases "b < 0x80")
  case True
  then have "unat (ucast b :: go_int) = unat b" "unat b < 128"
    by (simp_all add: word_less_0x80 unsigned_ucast_eq take_bit_nat_eq_self)
  with True assms show ?thesis
    by (intro exI [of _ "[]"]) (auto simp: read_len_def len_header_def)
next
  case False
  let ?count = "unat (b AND 0x7F)"
  from False assms have c: "?count \<noteq> 0" "?count \<le> 4" "int ?count \<le> remaining r"
    and len: "read_len_bytes r 0 ?count 0 = Inr len" and r': "r' = advance ?count r"
    by (auto simp: read_len_def Let_def split: if_splits sum.splits)
  let ?bs = "take ?count (drop (rd_pos r) (rd_data r))"
  have "rd_pos r + ?count \<le> length (rd_data r)"
    using c(3) unfolding remaining_def by linarith
  with c(2) read_len_bytes_val [of 0 0 ?count r 0] len
  have "unat len = be_val ?bs" "unat len < 256 ^ ?count" "length ?bs = ?count"
    by (auto simp: be_val_def)
  moreover have "(256::nat) ^ ?count \<le> 256 ^ 4" using c(2) by (intro power_increasing) auto
  ultimately show ?thesis
    using c False r' \<open>rd_pos r + ?count \<le> length (rd_data r)\<close>
    by (intro exI [of _ ?bs]) (auto simp: len_header_def advance_def not_less intro: drop_split)
qed

lemma read_value_Inr:
  assumes "read_value tag len r = (Inr t, r')" "unat len < 2 ^ 32" "rd_pos r \<le> length (rd_data r)"
  shows "drop (rd_pos r) (rd_data r) = tlv_value t @ drop (rd_pos r') (rd_data r) \<and>
    tlv_tag t = tag \<and> length (tlv_value t) = unat len \<and> tlv_length t = int (unat len) \<and>
    rd_data r' = rd_data r \<and> rd_pos r' = rd_pos r + unat len \<and> rd_pos r' \<le> length (rd_data r)"
proof -
  have len: "sint len = int (unat len)" using assms(2) by (intro small_sint) simp
  with assms(1) have rem: "int (unat len) \<le> remaining r" by (auto simp: read_value_def split: if_splits)
  then have fits: "rd_pos r + unat len \<le> length (rd_data r)"
    unfolding remaining_def using assms(3) by linarith
  with assms(1) len rem have t: "t = \<lparr>tlv_tag = tag, tlv_length = int (unat len),
      tlv_value = take (unat len) (drop (rd_pos r) (rd_data r))\<rparr>" "r' = advance (unat len) r"
    by (auto simp: read_value_def split: if_splits)
  with fits show ?thesis by (auto simp: advance_def intro: drop_split)
qed

lemma ReadTLV_Inr:
  assumes "ReadTLV r = (Inr t, r')"
  shows "\<exists>hdr. drop (rd_pos r) (rd_data r) =
                 tlv_tag t # hdr @ tlv_value t @ drop (rd_pos r') (rd_data r) \<and>
    len_header hdr (length (tlv_value t)) \<and> tlv_length t = int (length (tlv_value t)) \<and>
    rd_data r' = rd_data r \<and> rd_pos r' \<le> length (rd_data r) \<and>
    rd_pos r' = rd_pos r + 1 + length hdr + length (tlv_value t)"
proof -
  from assms have "2 \<le> remaining r" by (auto simp: ReadTLV_def split: if_splits)
  then have pos: "rd_pos r + 2 \<le> length (rd_data r)" unfolding remaining_def by linarith
  let ?tag = "rd_data r ! rd_pos r" and ?b = "rd_data r ! (rd_pos r + 1)" and ?r2 = "advance 1 (advance 1 r)"
  have r2: "rd_pos ?r2 = rd_pos r + 2" "rd_data ?r2 = rd_data r" by (simp_all add: advance_def)
  from assms pos obtain len r3 where len: "read_len ?b ?r2 = (Inr len, r3)" "read_value ?tag len r3 = (Inr t, r')"
    by (auto simp: ReadTLV_def Let_def advance_def split: if_splits prod.splits sum.splits)
  from read_len_Inr [OF len(1)] pos r2 obtain bs where bs: "len_header (?b # bs) (unat len)"
    "unat len < 2 ^ 32" "drop (rd_pos r + 2) (rd_data r) = bs @ drop (rd_pos r3) (rd_data r)"
    "rd_data r3 = rd_data r" "rd_pos r3 = rd_pos r + 2 + length bs" "rd_pos r3 \<le> length (rd_data r)"
    by auto
  note v = read_value_Inr [OF len(2) bs(2)]
  have "drop (rd_pos r) (rd_data r) = ?tag # ?b # drop (rd_pos r + 2) (rd_data r)"
    using pos by (simp add: Cons_nth_drop_Suc)
  with bs v show ?thesis by (intro exI [of _ "?b # bs"]) auto
qed

lemma read_len_header:
  assumes "len_header (b # bs) n" "drop (rd_pos r) (rd_data r) = bs @ rest"
    "rd_pos r \<le> length (rd_data r)"
  shows "\<exists>len. read_len b r = (Inr len, advance (length bs) r) \<and> unat len = n"
proof (cases "b < 0x80")
  case True
  then have "unat (b :: byte) < 128" by (simp add: word_less_0x80)
  then have "unat (ucast b :: go_int) = unat b"
    by (simp add: unsigned_ucast_eq take_bit_nat_eq_self)
  with True assms show ?thesis
    by (auto simp: read_len_def len_header_def advance_def linorder_not_less [symmetric])
next
  case False
  with assms(1) have c: "unat (b AND 0x7F) = length bs" "1 \<le> length bs" "length bs \<le> 4" "n = be_val bs"
    by (auto simp: len_header_def)
  have fits: "rd_pos r + length bs \<le> length (rd_data r)"
    using arg_cong [OF assms(2), of length] assms(3) by simp
  have "take (length bs) (drop (rd_pos r) (rd_data r)) = bs" using assms(2) by simp
  with c fits read_len_bytes_val [of 0 0 "length bs" r 0]
  obtain w where "read_len_bytes r 0 (length bs) 0 = Inr w" "unat w = n"
    by (auto simp: be_val_def)
  moreover have "\<not> remaining r < int (length bs)" using fits unfolding remaining_def by linarith
  ultimately show ?thesis using False c(1-3) by (auto simp: read_len_def Let_def)
qed

lemma len_header_bound: "len_header hdr n \<Longrightarrow> n < 2 ^ 32"
proof (unfold len_header_def, elim disjE exE conjE)
  fix b bs assume "length bs \<le> 4" "n = be_val bs"
  moreover from this have "(256::nat) ^ length bs \<le> 256 ^ 4" by (intro power_increasing) auto
  ultimately show "n < 2 ^ 32" using be_val_less [of bs] by simp
next
  fix b assume "n = unat (b :: byte)"
  then show "n < 2 ^ 32" using unat_byte_less [of b] by simp
qed

lemma ReadTLV_header:
  assumes "drop (rd_pos r) (rd_data r) = tag # hdr @ v @ rest" "len_header hdr (length v)"
  shows "ReadTLV r = (Inr \<lparr>tlv_tag = tag, tlv_length = int (length v), tlv_value = v\<rparr>,
                      advance (1 + length hdr + length v) r)"
proof -
  obtain b bs where hdr: "hdr = b # bs" using len_header_nonempty [OF assms(2)] by (cases hdr) auto
  let ?r2 = "advance 1 (advance 1 r)"
  have len: "length (rd_data r) = rd_pos r + 2 + length bs + length v + length rest"
    using arg_cong [OF assms(1), of length] hdr by simp
  have at0: "rd_data r ! rd_pos r = tag" and at1: "rd_data r ! (rd_pos r + 1) = b"
    using arg_cong [OF assms(1), of "\<lambda>l. l ! 0"] arg_cong [OF assms(1), of "\<lambda>l. l ! 1"] len hdr
    by simp_all
  have "drop (rd_pos r + 2) (rd_data r) = drop 2 (drop (rd_pos r) (rd_data r))"
    by (simp add: add.commute)
  then have tl: "drop (rd_pos ?r2) (rd_data ?r2) = bs @ v @ rest"
    using assms(1) hdr by (simp add: advance_def)
  moreover have "rd_pos ?r2 \<le> length (rd_data ?r2)" using len by (simp add: advance_def)
  ultimately obtain w where w: "read_len b ?r2 = (Inr w, advance (length bs) ?r2)" "unat w = length v"
    using read_len_header [of b bs "length v" ?r2 "v @ rest"] assms(2) hdr by auto
  let ?r3 = "advance (length bs) ?r2"
  have "drop (rd_pos ?r3) (rd_data ?r3) = drop (length bs) (drop (rd_pos ?r2) (rd_data ?r2))"
    by (simp add: advance_def add.commute)
  with tl have "drop (rd_pos ?r3) (rd_data ?r3) = v @ rest" by simp
  moreover have "sint w = int (length v)" "\<not> remaining ?r3 < sint w"
    using small_sint [of w] len_header_bound [OF assms(2)] w(2) len
    by (simp_all add: remaining_def advance_def)
  ultimately have "read_value tag w ?r3 =
      (Inr \<lparr>tlv_tag = tag, tlv_length = int (length v), tlv_value = v\<rparr>, advance (length v) ?r3)"
    using len by (simp add: read_value_def advance_def)
  then show ?thesis
    using len at0 at1 w(1) hdr by (simp add: ReadTLV_def Let_def remaining_def advance_def)
qed

lemma ReadTLV_no_panic [simp]: "ReadTLV r = (Inl e, r') \<Longrightarrow> \<not> is_panic e"
proof -
  assume e: "ReadTLV r = (Inl e, r')"
  show ?thesis
  proof (cases "remaining r < 2")
    case False
    then have pos: "rd_pos r + 2 \<le> length (rd_data r)" unfolding remaining_def by linarith
    have rl: "\<not> is_panic x" if "read_len b q = (Inl x, q')" for b q x q'
    proof -
      have "\<exists>w. read_len_bytes q 0 (unat (b AND 0x7F)) 0 = Inr w"
        if "unat (b AND 0x7F) \<le> 4" "\<not> remaining q < int (unat (b AND 0x7F))" "unat (b AND 0x7F) \<noteq> 0"
      proof -
        have "rd_pos q + unat (b AND 0x7F) \<le> length (rd_data q)"
          using that(2,3) unfolding remaining_def by linarith
        with that(1) read_len_bytes_val [of 0 0 "unat (b AND 0x7F)" q 0] show ?thesis by auto
      qed
      with that show ?thesis
        by (auto simp: read_len_def Let_def not_less split: if_splits sum.splits)
    qed
    have rv: "\<not> is_panic x" if "read_value b w q = (Inl x, q')" for b w q x q'
      using that by (auto simp: read_value_def remaining_def slice_def split: if_splits)
    show ?thesis
      using e False pos rl rv
      by (auto simp: ReadTLV_def Let_def advance_def split: if_splits prod.splits sum.splits)
  qed (use e in \<open>auto simp: ReadTLV_def\<close>)
qed

section \<open>What the reader accepts\<close>

text \<open>\<open>tlv_enc t e\<close>: \<open>e\<close> is an encoding of \<open>t\<close> with a definite length of one to five octets.\<close>

definition tlv_enc :: "tlv \<Rightarrow> bytes \<Rightarrow> bool" where
  "tlv_enc t e \<longleftrightarrow>
     tlv_length t = int (length (tlv_value t)) \<and>
     (\<exists>hdr. e = tlv_tag t # hdr @ tlv_value t \<and> len_header hdr (length (tlv_value t)))"

definition unread :: "reader \<Rightarrow> bytes" where
  "unread r = drop (rd_pos r) (rd_data r)"

lemma unread_new [simp]: "unread (new_reader data) = data"
  by (simp add: unread_def new_reader_def)

lemma unread_advance: "unread r = e @ rest \<Longrightarrow> unread (advance (length e) r) = rest"
proof -
  assume "unread r = e @ rest"
  moreover have "unread (advance (length e) r) = drop (length e) (unread r)"
    by (simp add: unread_def advance_def add.commute)
  ultimately show ?thesis by simp
qed

lemma at_eof_unread: "at_eof r \<longleftrightarrow> unread r = []"
  by (simp add: at_eof_def unread_def)

lemma tlv_enc_length: "tlv_enc t e \<Longrightarrow> 2 + length (tlv_value t) \<le> length e"
  using len_header_nonempty by (fastforce simp: tlv_enc_def Suc_le_eq)

lemma ReadTLV_iff:
  "ReadTLV r = (Inr t, r') \<longleftrightarrow>
     (\<exists>e rest. unread r = e @ rest \<and> tlv_enc t e \<and> r' = advance (length e) r)"
proof
  assume a: "ReadTLV r = (Inr t, r')"
  from ReadTLV_Inr [OF a] obtain hdr where
    u: "unread r = (tlv_tag t # hdr @ tlv_value t) @ drop (rd_pos r') (rd_data r)"
    and h: "len_header hdr (length (tlv_value t))" "tlv_length t = int (length (tlv_value t))"
    by (auto simp: unread_def)
  from u h(1) have "ReadTLV r = (Inr \<lparr>tlv_tag = tlv_tag t, tlv_length = int (length (tlv_value t)),
      tlv_value = tlv_value t\<rparr>, advance (1 + length hdr + length (tlv_value t)) r)"
    by (intro ReadTLV_header) (auto simp: unread_def)
  with a have "r' = advance (length (tlv_tag t # hdr @ tlv_value t)) r" by simp
  with u h show "\<exists>e rest. unread r = e @ rest \<and> tlv_enc t e \<and> r' = advance (length e) r"
    unfolding tlv_enc_def by blast
next
  assume "\<exists>e rest. unread r = e @ rest \<and> tlv_enc t e \<and> r' = advance (length e) r"
  then obtain hdr rest where "unread r = tlv_tag t # hdr @ tlv_value t @ rest"
    "len_header hdr (length (tlv_value t))" "tlv_length t = int (length (tlv_value t))"
    "r' = advance (1 + length hdr + length (tlv_value t)) r"
    by (auto simp: tlv_enc_def)
  then show "ReadTLV r = (Inr t, r')"
    by (cases t) (auto simp: unread_def ReadTLV_header)
qed

lemma with_tlv_Inr_iff: "with_tlv r k = Inr x \<longleftrightarrow> (\<exists>t r'. ReadTLV r = (Inr t, r') \<and> k t r' = Inr x)"
  by (auto simp: with_tlv_def split: prod.splits sum.splits)

lemma with_tlv_no_panic [no_panic_intros]:
  "(\<And>t r'. ReadTLV r = (Inr t, r') \<Longrightarrow> no_panic (k t r')) \<Longrightarrow> no_panic (with_tlv r k)"
  by (auto simp: with_tlv_def split: prod.splits sum.splits)

text \<open>Reading the element at the front of the unread bytes.\<close>

lemma with_tlv_step:
  assumes "unread r = e @ rest" "tlv_enc t e"
  shows "\<exists>r'. unread r' = rest \<and> with_tlv r k = k t r'"
proof -
  have "ReadTLV r = (Inr t, advance (length e) r)" using assms by (auto simp: ReadTLV_iff)
  then show ?thesis using unread_advance [OF assms(1)] by (auto simp: with_tlv_def)
qed

section \<open>Integers\<close>

definition DecodeTagClass :: "byte \<Rightarrow> string" where
  "DecodeTagClass tag =
     (let c = tag AND 0xC0 in
      if c = 0x00 then ''universal''
      else if c = 0x40 then ''application''
      else if c = 0x80 then ''context''
      else ''private'')"

definition DecodeTagNumber :: "byte \<Rightarrow> byte" where
  "DecodeTagNumber tag = tag AND 0x1F"

text \<open>\<open>big.Int.SetBytes\<close> is the big-endian value; \<open>Lsh(1, 8 * len)\<close> the power of two.\<close>

definition DecodeUnsignedBigInt :: "bytes \<Rightarrow> int" where
  "DecodeUnsignedBigInt data = int (be_val data)"

definition DecodeSignedBigInt :: "bytes \<Rightarrow> int" where
  "DecodeSignedBigInt data =
     (case data of
        [] \<Rightarrow> 0
      | b # _ \<Rightarrow>
          let n = int (be_val data) in
          if b AND 0x80 = 0 then n else n - 2 ^ (length data * 8))"

lemma be_val_Cons: "be_val (b # bs) = unat b * 256 ^ length bs + be_val bs"
  by (induction bs rule: rev_induct) (simp_all add: be_val_def algebra_simps)

lemma msb_clear: "(b :: byte) AND 0x80 = 0 \<longleftrightarrow> unat b < 128"
proof -
  have "b AND 0x80 = 0 \<longleftrightarrow> \<not> bit b 7"
    using and_exp_eq_0_iff_not_bit [of b 7] by simp
  also have "\<dots> \<longleftrightarrow> unat b < 128"
  proof -
    have "bit b 7 \<longleftrightarrow> bit (unat b) 7" by (simp add: bit_unsigned_iff)
    also have "\<dots> \<longleftrightarrow> odd (unat b div 2 ^ 7)" by (rule bit_iff_odd)
    also have "\<dots> \<longleftrightarrow> \<not> unat b < 128"
      using unat_byte_less [of b] by (cases "unat b < 128") (auto simp: div_if)
    finally show ?thesis by simp
  qed
  finally show ?thesis .
qed

text \<open>Two's complement of the width of the data: congruent to the unsigned value and in range.\<close>

lemma DecodeSigned_congruent:
  "\<exists>k \<in> {0, 1}. DecodeSignedBigInt data = DecodeUnsignedBigInt data - k * 2 ^ (8 * length data)"
  by (cases data) (auto simp: DecodeSignedBigInt_def DecodeUnsignedBigInt_def Let_def mult.commute)

lemma pow256: "(256::'a::comm_semiring_1) ^ n = 2 ^ (8 * n)"
  by (simp add: power_mult)

lemma DecodeSigned_range:
  assumes "data \<noteq> []"
  shows "- (2 ^ (8 * length data - 1)) \<le> DecodeSignedBigInt data \<and>
         DecodeSignedBigInt data < 2 ^ (8 * length data - 1)"
proof -
  obtain b bs where d: "data = b # bs" using assms by (cases data) auto
  let ?P = "2 ^ (8 * length bs) :: nat"
  have low: "be_val bs < ?P" using be_val_less [of bs] by (simp add: pow256)
  have v: "be_val data = unat b * ?P + be_val bs" by (simp add: d be_val_Cons pow256)
  have half: "(2 :: int) ^ (8 * length data - 1) = 128 * 2 ^ (8 * length bs)"
    by (simp add: d power_add)
  have P: "(0 :: int) \<le> 2 ^ (8 * length bs)" by simp
  have b: "unat b < 256" by (rule unat_byte_less)
  have next_v: "be_val data < (unat b + 1) * ?P" using v low by simp
  show ?thesis
  proof (cases "unat b < 128")
    case True
    then have "(unat b + 1) * ?P \<le> 128 * ?P" by (intro mult_right_mono) auto
    with next_v have "be_val data < 128 * ?P" by linarith
    then have "int (be_val data) < int (128 * ?P)" by (simp only: of_nat_less_iff)
    moreover have "DecodeSignedBigInt data = int (be_val data)"
      using True by (simp add: DecodeSignedBigInt_def d msb_clear)
    ultimately show ?thesis unfolding half using P by simp
  next
    case False
    then have "128 * ?P \<le> unat b * ?P" by (intro mult_right_mono) auto
    with v have "128 * ?P \<le> be_val data" by linarith
    then have lo: "int (128 * ?P) \<le> int (be_val data)" by (simp only: of_nat_le_iff)
    have "(unat b + 1) * ?P \<le> 256 * ?P" using b by (intro mult_right_mono) auto
    with next_v have "be_val data < 256 * ?P" by linarith
    then have hi: "int (be_val data) < int (256 * ?P)" by (simp only: of_nat_less_iff)
    have "DecodeSignedBigInt data = int (be_val data) - 256 * 2 ^ (8 * length bs)"
      using False by (simp add: DecodeSignedBigInt_def d msb_clear power_add)
    with lo hi show ?thesis unfolding half using P by simp
  qed
qed

section \<open>Object identifiers\<close>

text \<open>The loop over the bytes after the first: the pending arc, and the arcs printed so far.\<close>

fun oid_loop :: "bytes \<Rightarrow> go_int \<Rightarrow> string list \<Rightarrow> go_int \<times> string list" where
  "oid_loop [] value parts = (value, parts)"
| "oid_loop (b # bs) value parts =
     (let value' = push_bit 7 value OR ucast (b AND 0x7F) in
      if b AND 0x80 = 0 then oid_loop bs 0 (parts @ [int_str (sint value')])
      else oid_loop bs value' parts)"

text \<open>\<open>join\<close>: what is built so far is extended by the separator and the next part.\<close>

definition join_parts :: "string list \<Rightarrow> string \<Rightarrow> string" where
  "join_parts parts sep =
     (case parts of
        [] \<Rightarrow> []
      | p # ps \<Rightarrow> foldl (\<lambda>out q. out @ sep @ q) p ps)"

lemma join_parts_eq [simp]: "join_parts parts sep = join_sep parts sep"
proof -
  have "foldl (\<lambda>out q. out @ sep @ q) p ps = p @ concat (map (\<lambda>q. sep @ q) ps)" for p ps
    by (induction ps arbitrary: p) simp_all
  then show ?thesis by (cases parts) (simp_all add: join_parts_def)
qed

definition DecodeOID :: "bytes \<Rightarrow> string res" where
  "DecodeOID data =
     (case data of
        [] \<Rightarrow> Inr []
      | b # rest \<Rightarrow>
          let first = int (unat b);
              parts = (if first < 40 then [''0'', int_str first]
                       else if first < 80 then [''1'', int_str (first - 40)]
                       else [''2'', int_str (first - 80)]);
              (value, parts) = oid_loop rest 0 parts
          in if value \<noteq> 0 then Inl (BerError ''truncated OID encoding'')
             else Inr (join_parts parts ''.''))"

lemma DecodeOID_no_panic [simp]: "DecodeOID data = Inl e \<Longrightarrow> \<not> is_panic e"
  by (auto simp: DecodeOID_def Let_def split: list.splits if_splits prod.splits)

section \<open>SNMP values\<close>

text \<open>The type name and the text of a value.\<close>

definition DecodeValue :: "tlv \<Rightarrow> (string \<times> string) res" where
  "DecodeValue t =
     (let cls = DecodeTagClass (tlv_tag t); number = DecodeTagNumber (tlv_tag t); v = tlv_value t;
          hex = ''0x'' @ hex_encode v; unsigned = int_str (DecodeUnsignedBigInt v) in
      if cls = ''universal'' \<and> number = 2 then Inr (''INTEGER'', int_str (DecodeSignedBigInt v))
      else if cls = ''universal'' \<and> number = 4 then
        Inr (''OCTET STRING'', if utf8_valid (str_of_bytes v) then str_of_bytes v else hex)
      else if cls = ''universal'' \<and> number = 5 then Inr (''NULL'', [])
      else if cls = ''universal'' \<and> number = 6 then
        rbind (DecodeOID v) (\<lambda>oid. Inr (''OBJECT IDENTIFIER'', oid))
      else if cls = ''universal'' \<and> number = 3 then Inr (''BIT STRING'', hex)
      else if cls = ''universal'' \<and> number = 16 then Inr (''SEQUENCE'', hex)
      else if cls = ''application'' \<and> number = 0 then
        Inr (''IPADDRESS'', if length v = 4 \<or> length v = 16 then ip_str v else hex)
      else if cls = ''application'' \<and> number = 1 then Inr (''COUNTER32'', unsigned)
      else if cls = ''application'' \<and> number = 2 then Inr (''GAUGE32'', unsigned)
      else if cls = ''application'' \<and> number = 3 then Inr (''TIMETICKS'', unsigned)
      else if cls = ''application'' \<and> number = 4 then Inr (''OPAQUE'', hex)
      else if cls = ''application'' \<and> number = 6 then Inr (''COUNTER64'', unsigned)
      else if cls = ''context'' \<and> number = 0 then Inr (''noSuchObject'', [])
      else if cls = ''context'' \<and> number = 1 then Inr (''noSuchInstance'', [])
      else if cls = ''context'' \<and> number = 2 then Inr (''endOfMibView'', [])
      else Inr (cls @ ''['' @ nat_str (unat number) @ '']'', hex))"

lemma DecodeValue_Inl: "DecodeValue t = Inl e \<Longrightarrow> DecodeOID (tlv_value t) = Inl e"
  unfolding DecodeValue_def Let_def by (simp add: rbind_Inl_iff split: if_splits)

lemma DecodeValue_no_panic [simp]: "DecodeValue t = Inl e \<Longrightarrow> \<not> is_panic e"
  by (auto dest: DecodeValue_Inl)

lemmas value_run [run_simps] =
  DecodeTagClass_def DecodeTagNumber_def DecodeSignedBigInt_def DecodeUnsignedBigInt_def
  DecodeOID_def DecodeValue_def be_val_def

section \<open>The text of decoded identifiers\<close>

lemma oid_loop_parts:
  "oid_loop bs v parts = (w, parts') \<Longrightarrow> \<exists>ns. parts' = parts @ map int_str ns"
proof (induction bs v parts rule: oid_loop.induct)
  case (2 b bs v parts)
  show ?case
  proof (cases "b AND 0x80 = 0")
    case True
    with 2 obtain ns where "parts' = (parts @ [int_str (sint (push_bit 7 v OR ucast (b AND 0x7F)))]) @ map int_str ns"
      by (fastforce simp: Let_def)
    then show ?thesis by (intro exI [of _ "sint (push_bit 7 v OR ucast (b AND 0x7F)) # ns"]) simp
  next
    case False
    with 2 show ?thesis by (simp add: Let_def)
  qed
qed (auto intro: exI [of _ "[]"])

lemma DecodeOID_shape:
  "DecodeOID data = Inr s \<Longrightarrow>
   s = [] \<or> (\<exists>a n ns. a \<in> {''0'', ''1'', ''2''} \<and> 0 \<le> n \<and> s = join_sep (a # int_str n # map int_str ns) ''.'')"
proof (cases data)
  case (Cons b rest)
  assume s: "DecodeOID data = Inr s"
  obtain a n where an: "a \<in> {''0'', ''1'', ''2''}" "0 \<le> n" and
    parts: "(if int (unat b) < 40 then [''0'', int_str (int (unat b))]
      else if int (unat b) < 80 then [''1'', int_str (int (unat b) - 40)]
      else [''2'', int_str (int (unat b) - 80)]) = [a, int_str n]"
    by (cases "int (unat b) < 40"; cases "int (unat b) < 80") auto
  obtain v ps where loop: "oid_loop rest 0 [a, int_str n] = (v, ps)" by fastforce
  from oid_loop_parts [OF loop] obtain ns where "ps = a # int_str n # map int_str ns" by auto
  with s Cons loop parts have "s = join_sep (a # int_str n # map int_str ns) ''.''"
    unfolding DecodeOID_def by (auto simp: Let_def split: if_splits)
  with an show ?thesis by blast
qed (simp add: DecodeOID_def)

lemma int_str_last_digit: "is_digit (last (int_str n))"
  using nat_str_digits [of "nat n"] nat_str_digits [of "nat (- n)"]
  by (auto simp: int_str_def list_all_iff)

lemma solid_digit: "is_digit c \<Longrightarrow> solid c"
  by (rule solid_oid_char) (simp add: oid_char_def)

lemma last_join_arcs: "is_digit (last (join_sep (a # int_str n # map int_str ns) ''.''))"
proof (cases ns rule: rev_cases)
  case Nil
  then show ?thesis by (simp add: last_append int_str_last_digit)
next
  case (snoc ms m)
  then show ?thesis by (simp add: last_append int_str_last_digit)
qed

lemma Normalize_digit_ends: "is_digit c \<Longrightarrow> is_digit (last (c # t)) \<Longrightarrow> Normalize (c # t) = c # t"
proof -
  assume c: "is_digit c" and l: "is_digit (last (c # t))"
  have "trim_space (c # t) = c # t"
    by (rule trim_space_solid) (use c l solid_digit in simp_all)
  moreover have "c \<noteq> CHR ''.''" using c by (auto simp: is_digit_def)
  ultimately show ?thesis by (simp add: Normalize_def trim_prefix_def)
qed

text \<open>Decoded identifiers are already in normal form.\<close>

lemma Normalize_arcs:
  assumes "a \<in> {''0'', ''1'', ''2''}"
  shows "Normalize (join_sep (a # int_str n # map int_str ns) ''.'') =
    join_sep (a # int_str n # map int_str ns) ''.''"
proof -
  define c where "c = hd a"
  have c: "a = [c]" "is_digit c" using assms by (auto simp: c_def is_digit_def)
  define t where "t = concat (map (\<lambda>q. ''.'' @ q) (int_str n # map int_str ns))"
  have s: "join_sep (a # int_str n # map int_str ns) ''.'' = c # t"
    unfolding t_def join_sep.simps by (subst c(1)) simp
  show ?thesis unfolding s
    using c(2) last_join_arcs [of a n ns] unfolding s by (rule Normalize_digit_ends)
qed

lemma Normalize_DecodeOID: "DecodeOID data = Inr s \<Longrightarrow> Normalize s = s"
  by (drule DecodeOID_shape) (elim disjE exE conjE; simp add: Normalize_arcs del: join_sep.simps)

section \<open>Properties\<close>

text \<open>
  C24. The reader accepts exactly the definite-length encodings with at most four length octets: it
  returns an element and moves behind it precisely when the unread bytes start with an encoding
  of that element.
\<close>

lemma ReadTLV_grammar:
  "ReadTLV r = (Inr t, r') \<longleftrightarrow>
     (\<exists>e rest. unread r = e @ rest \<and> tlv_enc t e \<and> r' = advance (length e) r)"
  by (rule ReadTLV_iff)

text \<open>
  Signed integers are decoded as two's complement: the result has the value of the bytes
  modulo a power of 256 and lies in the range of that many bits.
\<close>

lemma DecodeSigned_twos_complement:
  "DecodeSignedBigInt data mod 2 ^ (8 * length data) = DecodeUnsignedBigInt data mod 2 ^ (8 * length data) \<and>
   (data = [] \<or> - (2 ^ (8 * length data - 1)) \<le> DecodeSignedBigInt data \<and>
     DecodeSignedBigInt data < 2 ^ (8 * length data - 1))"
  using DecodeSigned_congruent [of data] DecodeSigned_range [of data] by auto

text \<open>
  An identifier whose arcs do not fit a 64-bit integer is decoded without an error to another
  identifier: 1.3.(2 to the 64 plus 5) and 1.3.5 give the same text.
\<close>

lemma DecodeOID_arc_overflow:
  "DecodeOID [0x2b, 0x82, 0x80, 0x80, 0x80, 0x80, 0x80, 0x80, 0x80, 0x80, 0x05] = Inr ''1.3.5'' \<and>
   DecodeOID [0x2b, 0x05] = Inr ''1.3.5''"
  by (simp add: run_simps)

text \<open>
  A first subidentifier of more than one byte is not put together: the encoding 88 37 of
  2.999 is decoded to 2.56.55; and a truncated last arc is dropped without an error.
\<close>

lemma DecodeOID_first_subidentifier:
  "DecodeOID [0x88, 0x37] = Inr ''2.56.55'' \<and> DecodeOID [0x2b, 0x06, 0x80] = Inr ''1.3.6''"
  by (simp add: run_simps)

end
