(* ===== verification/Snmp_Parser.thy ===== *)
theory Snmp_Parser
  imports Ber
begin

text \<open>
  \<open>internal/snmp/parser.go\<close>: the relay's own decoder of SNMPv1 and SNMPv2c trap messages, from
  the datagram to a trap event with its lookup fields. The theorems give the grammar of the messages
  it accepts, what the event holds, that it never panics, and what the field map binds.
\<close>

section \<open>Constants and helpers\<close>

definition snmpTrapOID :: string where
  "snmpTrapOID = ''1.3.6.1.6.3.1.1.4.1.0''"

definition sysUpTimeOID :: string where
  "sysUpTimeOID = ''1.3.6.1.2.1.1.3.0''"

definition genericTrapNames :: "int \<rightharpoonup> string" where
  "genericTrapNames =
     [0 \<mapsto> ''coldStart'', 1 \<mapsto> ''warmStart'', 2 \<mapsto> ''linkDown'', 3 \<mapsto> ''linkUp'',
      4 \<mapsto> ''authenticationFailure'', 5 \<mapsto> ''egpNeighborLoss'', 6 \<mapsto> ''enterpriseSpecific'']"

text \<open>\<open>big.Int.Int64\<close>: the low 64 bits.\<close>

definition big_int64 :: "int \<Rightarrow> int" where
  "big_int64 n = sint (word_of_int n :: go_int)"

fun firstNonEmpty :: "string list \<Rightarrow> string" where
  "firstNonEmpty [] = []"
| "firstNonEmpty (v # vs) = (if v \<noteq> [] then v else firstNonEmpty vs)"

text \<open>The loop that fills \<open>RawVarBindMap\<close>: a later varbind of the same OID wins.\<close>

definition raw_varbind_map :: "varbind list \<Rightarrow> (string \<rightharpoonup> string)" where
  "raw_varbind_map vbs = foldl (\<lambda>m vb. m(vb_oid vb \<mapsto> vb_value vb)) Map.empty vbs"

section \<open>Varbinds\<close>

definition is_universal :: "tlv \<Rightarrow> byte \<Rightarrow> bool" where
  "is_universal t n \<longleftrightarrow> DecodeTagClass (tlv_tag t) = ''universal'' \<and> DecodeTagNumber (tlv_tag t) = n"

text \<open>The body of the loop of \<open>decodeVarBinds\<close>, after the item has been read.\<close>

definition decode_item :: "tlv \<Rightarrow> varbind res" where
  "decode_item item =
     (if tlv_tag item \<noteq> 0x30 then Inl (ParseError ''expected varbind item sequence'')
      else with_tlv (new_reader (tlv_value item)) (\<lambda>oid_tlv item_reader.
        if \<not> is_universal oid_tlv 0x06 then Inl (ParseError ''expected OID in varbind'')
        else rbind (DecodeOID (tlv_value oid_tlv)) (\<lambda>oid.
          with_tlv item_reader (\<lambda>value_tlv _.
            rbind (DecodeValue value_tlv) (\<lambda>(type_name, value).
              Inr \<lparr>vb_oid = Normalize oid, vb_type_name = type_name, vb_value = value\<rparr>)))))"

text \<open>\<open>for !listReader.EOF()\<close>: each round consumes at least two bytes.\<close>

function decode_items :: "reader \<Rightarrow> varbind list \<Rightarrow> varbind list res" where
  "decode_items r acc =
     (if at_eof r then Inr acc
      else case ReadTLV r of
          (Inl e, _) \<Rightarrow> Inl e
        | (Inr item, r') \<Rightarrow> rbind (decode_item item) (\<lambda>vb. decode_items r' (acc @ [vb])))"
  by pat_completeness auto
termination
  by (relation "measure (\<lambda>(r, acc). length (rd_data r) - rd_pos r)")
     (auto simp: at_eof_def dest!: ReadTLV_Inr [OF sym])

declare decode_items.simps [simp del]

definition decodeVarBinds :: "reader \<Rightarrow> varbind list res" where
  "decodeVarBinds r =
     with_tlv r (\<lambda>sequence _.
       if tlv_tag sequence \<noteq> 0x30 then Inl (ParseError ''expected varbind sequence'')
       else decode_items (new_reader (tlv_value sequence)) [])"

section \<open>The two PDUs\<close>

text \<open>What \<open>parseV1\<close> stores in the event once everything has been read.\<close>

definition v1_event ::
    "trap_event \<Rightarrow> string \<Rightarrow> string \<Rightarrow> int \<Rightarrow> int \<Rightarrow> int \<Rightarrow> varbind list \<Rightarrow> trap_event" where
  "v1_event event enterprise agent generic specific uptime varbinds =
     event\<lparr>
       ev_enterprise_oid := enterprise,
       ev_agent_address := agent,
       ev_generic_trap := int_str generic,
       ev_generic_trap_name :=
         (case genericTrapNames generic of Some n \<Rightarrow> n | None \<Rightarrow> int_str generic),
       ev_specific_trap := int_str specific,
       ev_uptime := int_str uptime,
       ev_varbinds := varbinds,
       ev_raw_varbind_map := raw_varbind_map varbinds,
       ev_trap_oid := ''v1:'' @ enterprise @ '':'' @ int_str generic @ '':'' @ int_str specific\<rparr>"

definition parseV1 :: "trap_event \<Rightarrow> bytes \<Rightarrow> trap_event res" where
  "parseV1 event body =
     with_tlv (new_reader body) (\<lambda>enterprise_tlv r1.
     rbind (DecodeOID (tlv_value enterprise_tlv)) (\<lambda>enterprise.
     with_tlv r1 (\<lambda>agent_tlv r2.
     rbind (DecodeValue agent_tlv) (\<lambda>(_, agent).
     with_tlv r2 (\<lambda>generic_tlv r3.
     with_tlv r3 (\<lambda>specific_tlv r4.
     with_tlv r4 (\<lambda>uptime_tlv r5.
       let generic = big_int64 (DecodeSignedBigInt (tlv_value generic_tlv));
           specific = big_int64 (DecodeSignedBigInt (tlv_value specific_tlv))
       in rbind (decodeVarBinds r5) (\<lambda>varbinds.
         Inr (v1_event event enterprise agent generic specific
           (DecodeSignedBigInt (tlv_value uptime_tlv)) varbinds)))))))))"

text \<open>The errors of \<open>strconv.ParseInt\<close> are discarded: the value is clamped to 64 bits.\<close>

definition parse_int_value :: "tlv \<Rightarrow> int" where
  "parse_int_value t = snd (parse_int (int_str (DecodeSignedBigInt (tlv_value t))))"

definition v2_event :: "trap_event \<Rightarrow> int \<Rightarrow> int \<Rightarrow> int \<Rightarrow> varbind list \<Rightarrow> trap_event" where
  "v2_event event request status err_index varbinds =
     (let raw = raw_varbind_map varbinds in
      event\<lparr>
        ev_request_id := request,
        ev_error_status := status,
        ev_error_index := err_index,
        ev_varbinds := varbinds,
        ev_raw_varbind_map := raw,
        ev_trap_oid := Normalize (firstNonEmpty
          [str_get raw snmpTrapOID, str_get raw (''.'' @ snmpTrapOID)]),
        ev_uptime := Normalize (firstNonEmpty
          [str_get raw sysUpTimeOID, str_get raw (''.'' @ sysUpTimeOID)])\<rparr>)"

definition parseV2 :: "trap_event \<Rightarrow> bytes \<Rightarrow> trap_event res" where
  "parseV2 event body =
     with_tlv (new_reader body) (\<lambda>request_tlv r1.
     with_tlv r1 (\<lambda>error_status_tlv r2.
     with_tlv r2 (\<lambda>error_index_tlv r3.
     rbind (decodeVarBinds r3) (\<lambda>varbinds.
       Inr (v2_event event (parse_int_value request_tlv) (parse_int_value error_status_tlv)
         (parse_int_value error_index_tlv) varbinds)))))"

section \<open>Lookup fields\<close>

definition lookupAlias :: "(string \<rightharpoonup> string) option \<Rightarrow> string \<Rightarrow> string option" where
  "lookupAlias aliases oid =
     (let (alias, ok) = Lookup aliases oid in
      if \<not> ok \<or> alias = [] then None else Some alias)"

definition set_unless_empty :: "string \<Rightarrow> string \<Rightarrow> (string \<rightharpoonup> string) \<Rightarrow> (string \<rightharpoonup> string)" where
  "set_unless_empty k v m = (if v \<noteq> [] then m(k \<mapsto> v) else m)"

text \<open>The fields one varbind adds: its OID, and its alias in both spellings.\<close>

definition add_varbind_fields ::
    "(string \<rightharpoonup> string) option \<Rightarrow> (string \<rightharpoonup> string) \<Rightarrow> varbind \<Rightarrow> (string \<rightharpoonup> string)" where
  "add_varbind_fields aliases m vb =
     (let oid_name = Normalize (vb_oid vb); m1 = m(''varbind.'' @ oid_name \<mapsto> vb_value vb) in
      case lookupAlias aliases oid_name of
        None \<Rightarrow> m1
      | Some alias \<Rightarrow> m1(alias \<mapsto> vb_value vb, ''fields.'' @ alias \<mapsto> vb_value vb))"

definition header_fields :: "trap_event \<Rightarrow> (string \<rightharpoonup> string)" where
  "header_fields e =
     [''source_ip'' \<mapsto> ev_source_ip e,
      ''source_port'' \<mapsto> int_str (ev_source_port e),
      ''version'' \<mapsto> int_str (ev_version e),
      ''community'' \<mapsto> ev_community e,
      ''pdu_type'' \<mapsto> ev_pdu_type e]"

definition set_if :: "bool \<Rightarrow> string \<Rightarrow> string \<Rightarrow> (string \<rightharpoonup> string) \<Rightarrow> (string \<rightharpoonup> string)" where
  "set_if b k v m = (if b then m(k \<mapsto> v) else m)"

definition event_fields :: "trap_event \<Rightarrow> (string \<rightharpoonup> string)" where
  "event_fields e =
     set_if (ev_trap_oid e \<noteq> []) ''trap_oid'' (Normalize (ev_trap_oid e))
     (set_if (ev_error_index e \<noteq> 0) ''error_index'' (int_str (ev_error_index e))
     (set_if (ev_error_status e \<noteq> 0) ''error_status'' (int_str (ev_error_status e))
     (set_if (ev_request_id e \<noteq> 0) ''request_id'' (int_str (ev_request_id e))
     (set_unless_empty ''uptime'' (ev_uptime e)
     (set_unless_empty ''specific_trap'' (ev_specific_trap e)
     (set_unless_empty ''generic_trap_name'' (ev_generic_trap_name e)
     (set_unless_empty ''generic_trap'' (ev_generic_trap e)
     (set_unless_empty ''agent_address'' (ev_agent_address e)
     (set_unless_empty ''enterprise_oid'' (ev_enterprise_oid e)
     (header_fields e))))))))))"

definition buildFields :: "trap_event \<Rightarrow> (string \<rightharpoonup> string) option \<Rightarrow> trap_event" where
  "buildFields e aliases =
     e\<lparr>ev_fields := Some (foldl (add_varbind_fields aliases) (event_fields e) (ev_varbinds e))\<rparr>"

section \<open>The message\<close>

text \<open>\<open>now\<close> is the reading of \<open>time.Now().UTC()\<close> for this packet.\<close>

definition new_event :: "int \<Rightarrow> bytes \<Rightarrow> string \<Rightarrow> int \<Rightarrow> int \<Rightarrow> tlv \<Rightarrow> tlv \<Rightarrow> trap_event" where
  "new_event now data source_ip source_port version community_tlv pdu_tlv =
     zero_event\<lparr>
       ev_received_at := now, ev_source_ip := source_ip, ev_source_port := source_port,
       ev_raw_bytes := data, ev_version := version,
       ev_community := str_of_bytes (tlv_value community_tlv),
       ev_pdu_type := ''0x'' @ hex_byte (tlv_tag pdu_tlv),
       ev_raw_varbind_map := Map.empty, ev_fields := Some Map.empty\<rparr>"

definition parse_pdu :: "trap_event \<Rightarrow> tlv \<Rightarrow> trap_event res" where
  "parse_pdu event pdu_tlv =
     (if tlv_tag pdu_tlv = 0xA4 then parseV1 event (tlv_value pdu_tlv)
      else if tlv_tag pdu_tlv = 0xA7 then parseV2 event (tlv_value pdu_tlv)
      else Inl (ParseError (''unsupported PDU tag 0x'' @ hex_byte (tlv_tag pdu_tlv))))"

definition ParseTrap ::
    "int \<Rightarrow> bytes \<Rightarrow> string \<Rightarrow> int \<Rightarrow> (string \<rightharpoonup> string) option \<Rightarrow> trap_event res" where
  "ParseTrap now data source_ip source_port aliases =
     with_tlv (new_reader data) (\<lambda>outer _.
     if tlv_tag outer \<noteq> 0x30 then Inl (ParseError ''SNMP message must be a SEQUENCE'')
     else with_tlv (new_reader (tlv_value outer)) (\<lambda>version_tlv r1.
     if \<not> is_universal version_tlv 0x02 then Inl (ParseError ''missing SNMP version'')
     else case parse_int (int_str (DecodeSignedBigInt (tlv_value version_tlv))) of
       (Some e, _) \<Rightarrow> Inl e
     | (None, version) \<Rightarrow>
     with_tlv r1 (\<lambda>community_tlv r2.
     if \<not> is_universal community_tlv 0x04 then Inl (ParseError ''missing SNMP community'')
     else with_tlv r2 (\<lambda>pdu_tlv _.
     rbind (parse_pdu (new_event now data source_ip source_port version community_tlv pdu_tlv) pdu_tlv)
       (\<lambda>event. Inr (buildFields event aliases))))))"

lemmas parser_run [run_simps] =
  ParseTrap_def parse_pdu_def new_event_def zero_event_def parseV1_def parseV2_def v1_event_def v2_event_def parse_int_value_def
  decodeVarBinds_def decode_items.simps decode_item_def is_universal_def raw_varbind_map_def
  buildFields_def event_fields_def header_fields_def set_if_def set_unless_empty_def
  add_varbind_fields_def lookupAlias_def snmpTrapOID_def sysUpTimeOID_def big_int64_def
  genericTrapNames_def str_get_def

section \<open>The grammar of varbind lists\<close>

text \<open>\<open>tlv_prefix ts bs\<close>: the bytes start with encodings of the elements \<open>ts\<close>.\<close>

definition tlv_prefix :: "tlv list \<Rightarrow> bytes \<Rightarrow> bool" where
  "tlv_prefix ts bs \<longleftrightarrow> (\<exists>es rest. bs = concat es @ rest \<and> list_all2 tlv_enc ts es)"

lemma tlv_prefix_nil [simp]: "tlv_prefix [] bs"
  by (auto simp: tlv_prefix_def intro: exI [of _ "[]"])

lemma tlv_prefix_Cons: "tlv_prefix (t # ts) bs \<longleftrightarrow> (\<exists>e rest. bs = e @ rest \<and> tlv_enc t e \<and> tlv_prefix ts rest)"
proof
  assume "tlv_prefix (t # ts) bs"
  then obtain e es rest where "bs = e @ concat es @ rest" "tlv_enc t e" "list_all2 tlv_enc ts es"
    by (auto simp: tlv_prefix_def list_all2_Cons1)
  then show "\<exists>e rest. bs = e @ rest \<and> tlv_enc t e \<and> tlv_prefix ts rest"
    unfolding tlv_prefix_def by blast
next
  assume "\<exists>e rest. bs = e @ rest \<and> tlv_enc t e \<and> tlv_prefix ts rest"
  then obtain e es rest where "bs = concat (e # es) @ rest" "list_all2 tlv_enc (t # ts) (e # es)"
    by (auto simp: tlv_prefix_def)
  then show "tlv_prefix (t # ts) bs"
    unfolding tlv_prefix_def by blast
qed

definition accepts :: "'a res \<Rightarrow> bool" where
  "accepts m \<longleftrightarrow> (\<exists>x. m = Inr x)"

lemma accepts_simps [simp]: "accepts (Inr x)" "\<not> accepts (Inl e)"
  by (simp_all add: accepts_def)

lemma accepts_rbind: "accepts (rbind m f) \<longleftrightarrow> (\<exists>x. m = Inr x \<and> accepts (f x))"
  by (auto simp: accepts_def rbind_Inr_iff)

lemma accepts_rbindI: "(\<And>x. accepts (f x) \<longleftrightarrow> Q) \<Longrightarrow> accepts (rbind m f) \<longleftrightarrow> accepts m \<and> Q"
  by (cases m) auto

lemma accepts_guardI: "accepts m \<longleftrightarrow> Q \<Longrightarrow> accepts (if b then Inl e else m) \<longleftrightarrow> \<not> b \<and> Q"
  by simp

text \<open>
  A continuation whose acceptance depends on the element and the bytes behind it only: the
  element then comes from the front of the unread bytes.
\<close>

definition next_tlv :: "(tlv \<Rightarrow> bytes \<Rightarrow> bool) \<Rightarrow> bytes \<Rightarrow> bool" where
  "next_tlv P bs \<longleftrightarrow> (\<exists>t e rest. bs = e @ rest \<and> tlv_enc t e \<and> P t rest)"

lemma with_tlv_accepts:
  assumes "\<And>t r'. accepts (k t r') \<longleftrightarrow> P t (unread r')"
  shows "accepts (with_tlv r k) \<longleftrightarrow> next_tlv P (unread r)"
proof
  assume "accepts (with_tlv r k)"
  then obtain t r' where t: "ReadTLV r = (Inr t, r')" "accepts (k t r')"
    by (auto simp: accepts_def with_tlv_Inr_iff)
  then obtain e rest where e: "unread r = e @ rest" "tlv_enc t e" "r' = advance (length e) r"
    by (auto simp: ReadTLV_iff)
  with t(2) assms unread_advance [OF e(1)] show "next_tlv P (unread r)"
    by (auto simp: next_tlv_def)
next
  assume "next_tlv P (unread r)"
  then obtain t e rest where e: "unread r = e @ rest" "tlv_enc t e" "P t rest"
    by (auto simp: next_tlv_def)
  from with_tlv_step [OF e(1,2), of k] e(3) assms show "accepts (with_tlv r k)" by auto
qed

text \<open>A chain of elements read one after the other is one prefix of the bytes.\<close>

lemma next_tlv_last: "next_tlv (\<lambda>t _. P t) bs \<longleftrightarrow> (\<exists>ts. tlv_prefix ts bs \<and> (\<exists>t. ts = [t] \<and> P t))"
proof -
  have "(\<exists>ts. tlv_prefix ts bs \<and> (\<exists>t. ts = [t] \<and> P t)) \<longleftrightarrow> (\<exists>t. tlv_prefix [t] bs \<and> P t)"
    by blast
  then show ?thesis by (simp add: next_tlv_def tlv_prefix_Cons) blast
qed

lemma next_tlv_chain:
  assumes "\<And>rest. R rest \<longleftrightarrow> (\<exists>ts. tlv_prefix ts rest \<and> Q ts)"
  shows "next_tlv (\<lambda>t rest. P t \<and> R rest) bs \<longleftrightarrow>
    (\<exists>ts. tlv_prefix ts bs \<and> (\<exists>t us. ts = t # us \<and> P t \<and> Q us))" (is "?L \<longleftrightarrow> ?R")
proof
  assume ?L
  then obtain t e us where "bs = e @ us" "tlv_enc t e" "P t" "R us" by (auto simp: next_tlv_def)
  moreover from this assms obtain ts where "tlv_prefix ts us" "Q ts" by blast
  ultimately show ?R by (intro exI [of _ "t # ts"]) (auto simp: tlv_prefix_Cons)
next
  assume ?R
  then obtain t us e rest where "P t" "Q us" "bs = e @ rest" "tlv_enc t e" "tlv_prefix us rest"
    by (auto simp: tlv_prefix_Cons)
  with assms show ?L unfolding next_tlv_def by blast
qed

lemmas next_tlv_chain_any = next_tlv_chain [where P = "\<lambda>_. True", simplified]

text \<open>\<open>varbind_enc vb e\<close>: \<open>e\<close> is one item of a varbind list and \<open>vb\<close> what it means.\<close>

definition varbind_enc :: "varbind \<Rightarrow> bytes \<Rightarrow> bool" where
  "varbind_enc vb e \<longleftrightarrow>
     (\<exists>item oid_tlv value_tlv oid.
        tlv_enc item e \<and> tlv_tag item = 0x30 \<and> tlv_prefix [oid_tlv, value_tlv] (tlv_value item) \<and>
        is_universal oid_tlv 0x06 \<and> DecodeOID (tlv_value oid_tlv) = Inr oid \<and> vb_oid vb = Normalize oid \<and>
        DecodeValue value_tlv = Inr (vb_type_name vb, vb_value vb))"

lemma decode_item_iff:
  "decode_item item = Inr vb \<longleftrightarrow>
     tlv_tag item = 0x30 \<and>
     (\<exists>oid_tlv value_tlv oid. tlv_prefix [oid_tlv, value_tlv] (tlv_value item) \<and>
        is_universal oid_tlv 0x06 \<and> DecodeOID (tlv_value oid_tlv) = Inr oid \<and> vb_oid vb = Normalize oid \<and>
        DecodeValue value_tlv = Inr (vb_type_name vb, vb_value vb))" (is "_ \<longleftrightarrow> ?R")
proof
  assume "decode_item item = Inr vb"
  then obtain t1 r1 t2 r2 oid where t: "ReadTLV (new_reader (tlv_value item)) = (Inr t1, r1)"
    "ReadTLV r1 = (Inr t2, r2)" "DecodeOID (tlv_value t1) = Inr oid" "tlv_tag item = 0x30"
    "is_universal t1 0x06" "vb_oid vb = Normalize oid" "DecodeValue t2 = Inr (vb_type_name vb, vb_value vb)"
    by (auto simp: decode_item_def with_tlv_Inr_iff rbind_Inr_iff split: if_splits)
  from t(1,2) have "tlv_prefix [t1, t2] (tlv_value item)"
    using unread_advance [of "new_reader (tlv_value item)"]
    by (simp add: ReadTLV_iff tlv_prefix_Cons) metis
  with t(3-) show ?R by blast
next
  assume R: ?R
  then obtain t1 t2 oid e1 e2 rest where t: "tlv_value item = e1 @ e2 @ rest" "tlv_enc t1 e1" "tlv_enc t2 e2"
    "is_universal t1 0x06" "DecodeOID (tlv_value t1) = Inr oid" "vb_oid vb = Normalize oid"
    "DecodeValue t2 = Inr (vb_type_name vb, vb_value vb)" "tlv_tag item = 0x30"
    by (auto simp: tlv_prefix_Cons)
  let ?r0 = "new_reader (tlv_value item)"
  have r1: "ReadTLV ?r0 = (Inr t1, advance (length e1) ?r0)" "unread (advance (length e1) ?r0) = e2 @ rest"
    using t(1,2) unread_advance [of ?r0 e1] by (auto simp: ReadTLV_iff)
  then have "ReadTLV (advance (length e1) ?r0) = (Inr t2, advance (length e2) (advance (length e1) ?r0))"
    using t(3) by (auto simp: ReadTLV_iff)
  with t r1 show "decode_item item = Inr vb" by (simp add: decode_item_def with_tlv_def)
qed

lemma varbind_enc_item: "varbind_enc vb e \<longleftrightarrow> (\<exists>item. tlv_enc item e \<and> decode_item item = Inr vb)"
  unfolding varbind_enc_def decode_item_iff by blast

lemma decode_items_iff:
  "decode_items r acc = Inr vbs \<longleftrightarrow>
     (\<exists>es vbs'. unread r = concat es \<and> list_all2 varbind_enc vbs' es \<and> vbs = acc @ vbs')"
proof (induction r acc rule: decode_items.induct)
  case (1 r acc)
  show ?case
  proof (cases "at_eof r")
    case True
    have "vbs' = []" if "[] = concat es" "list_all2 varbind_enc vbs' es" for es vbs'
      using that by (cases vbs') (auto simp: list_all2_Cons1 varbind_enc_item dest: tlv_enc_length)
    with True show ?thesis
      by (auto simp: decode_items.simps [of r] at_eof_unread intro!: exI [of _ "[]"])
  next
    case False
    show ?thesis
    proof
      assume "decode_items r acc = Inr vbs"
      with False obtain item r' vb where i: "ReadTLV r = (Inr item, r')" "decode_item item = Inr vb"
        "decode_items r' (acc @ [vb]) = Inr vbs"
        by (auto simp: decode_items.simps [of r] rbind_Inr_iff split: prod.splits sum.splits)
      from 1 [OF False i(1) [symmetric] refl] i(3) obtain es vbs' where
        s: "unread r' = concat es" "list_all2 varbind_enc vbs' es" "vbs = acc @ [vb] @ vbs'" by auto
      from i(1) obtain e where e: "unread r = e @ unread r'" "tlv_enc item e"
        by (auto simp: ReadTLV_iff dest: unread_advance)
      from e s i(2) show "\<exists>es vbs'. unread r = concat es \<and> list_all2 varbind_enc vbs' es \<and> vbs = acc @ vbs'"
        by (intro exI [of _ "e # es"] exI [of _ "vb # vbs'"]) (auto simp: varbind_enc_item)
    next
      assume "\<exists>es vbs'. unread r = concat es \<and> list_all2 varbind_enc vbs' es \<and> vbs = acc @ vbs'"
      then obtain es' ws where w: "unread r = concat es'" "list_all2 varbind_enc ws es'" "vbs = acc @ ws"
        by blast
      from False w(1) obtain e es where es: "es' = e # es" by (cases es') (auto simp: at_eof_unread)
      with w(2) obtain vb vbs' item where v: "ws = vb # vbs'" "list_all2 varbind_enc vbs' es"
        "tlv_enc item e" "decode_item item = Inr vb"
        by (auto simp: list_all2_Cons2 varbind_enc_item)
      from w es v have s: "unread r = e @ concat es" "list_all2 varbind_enc vbs' es"
        "vbs = acc @ vb # vbs'" "tlv_enc item e" "decode_item item = Inr vb" by auto
      let ?r' = "advance (length e) r"
      have r': "ReadTLV r = (Inr item, ?r')" "unread ?r' = concat es"
        using s unread_advance [OF s(1)] by (auto simp: ReadTLV_iff)
      from 1 [OF False r'(1) [symmetric] refl] r'(2) s(2,3)
      have "decode_items ?r' (acc @ [vb]) = Inr vbs" by auto
      with False r'(1) s(5) show "decode_items r acc = Inr vbs"
        by (simp add: decode_items.simps [of r])
    qed
  qed
qed

definition varbind_list :: "tlv \<Rightarrow> varbind list \<Rightarrow> bool" where
  "varbind_list t vbs \<longleftrightarrow>
     tlv_tag t = 0x30 \<and> (\<exists>es. tlv_value t = concat es \<and> list_all2 varbind_enc vbs es)"

lemma decodeVarBinds_accepts:
  "accepts (decodeVarBinds r) \<longleftrightarrow> next_tlv (\<lambda>t _. \<exists>vbs. varbind_list t vbs) (unread r)"
  unfolding decodeVarBinds_def
  by (rule with_tlv_accepts) (auto simp: accepts_def decode_items_iff varbind_list_def)

lemma decodeVarBinds_Inr:
  assumes "decodeVarBinds r = Inr vbs"
  shows "\<exists>t e rest. unread r = e @ rest \<and> tlv_enc t e \<and> varbind_list t vbs"
  using assms
  by (auto simp: decodeVarBinds_def with_tlv_Inr_iff ReadTLV_iff decode_items_iff varbind_list_def split: if_splits)

text \<open>Every varbind takes at least six bytes: two headers inside the header of its item.\<close>

lemma varbind_enc_length: "varbind_enc vb e \<Longrightarrow> 6 \<le> length e"
proof -
  assume "varbind_enc vb e"
  then obtain item t1 t2 where "tlv_enc item e" "tlv_prefix [t1, t2] (tlv_value item)"
    by (auto simp: varbind_enc_def)
  moreover from this(2) obtain e1 e2 rest where
    "tlv_value item = e1 @ e2 @ rest" "tlv_enc t1 e1" "tlv_enc t2 e2" by (auto simp: tlv_prefix_Cons)
  ultimately show ?thesis
    using tlv_enc_length [of item e] tlv_enc_length [of t1 e1] tlv_enc_length [of t2 e2] by simp
qed

lemma varbind_list_length: "varbind_list t vbs \<Longrightarrow> 6 * length vbs \<le> length (tlv_value t)"
proof -
  assume "varbind_list t vbs"
  then obtain es where es: "tlv_value t = concat es" "list_all2 varbind_enc vbs es"
    by (auto simp: varbind_list_def)
  from es(2) have "6 * length vbs \<le> length (concat es)"
    by (induction rule: list_all2_induct) (auto dest: varbind_enc_length)
  with es(1) show ?thesis by simp
qed

lemma varbind_list_normal: "varbind_list t vbs \<Longrightarrow> vb \<in> set vbs \<Longrightarrow> Normalize (vb_oid vb) = vb_oid vb"
proof -
  assume "varbind_list t vbs" "vb \<in> set vbs"
  then obtain e where "varbind_enc vb e"
    by (auto simp: varbind_list_def list_all2_conv_all_nth in_set_conv_nth)
  then show ?thesis by (auto simp: varbind_enc_def Normalize_DecodeOID)
qed

lemma ReadTLV_shrinks: "ReadTLV r = (Inr t, r') \<Longrightarrow> length (tlv_value t) + 2 + length (unread r') \<le> length (unread r)"
  by (auto simp: ReadTLV_iff unread_advance dest!: tlv_enc_length)

section \<open>The grammar of messages\<close>

definition v1_body :: "bytes \<Rightarrow> bool" where
  "v1_body body \<longleftrightarrow>
     (\<exists>enterprise agent generic specific uptime vars vbs.
        tlv_prefix [enterprise, agent, generic, specific, uptime, vars] body \<and>
        accepts (DecodeOID (tlv_value enterprise)) \<and> accepts (DecodeValue agent) \<and> varbind_list vars vbs)"

definition v2_body :: "bytes \<Rightarrow> bool" where
  "v2_body body \<longleftrightarrow>
     (\<exists>request status index vars vbs. tlv_prefix [request, status, index, vars] body \<and> varbind_list vars vbs)"

text \<open>
  A trap message: a sequence of a version integer of 64 bits, a community string and a PDU whose
  tag tells the two kinds apart. What follows these elements is not looked at.
\<close>

definition trap_message :: "bytes \<Rightarrow> bool" where
  "trap_message data \<longleftrightarrow>
     (\<exists>outer version community pdu.
        tlv_prefix [outer] data \<and> tlv_tag outer = 0x30 \<and>
        tlv_prefix [version, community, pdu] (tlv_value outer) \<and>
        is_universal version 0x02 \<and> in_int64 (DecodeSignedBigInt (tlv_value version)) \<and>
        is_universal community 0x04 \<and>
        (tlv_tag pdu = 0xA4 \<and> v1_body (tlv_value pdu) \<or> tlv_tag pdu = 0xA7 \<and> v2_body (tlv_value pdu)))"

lemma parseV2_accepts: "accepts (parseV2 event body) \<longleftrightarrow> v2_body body"
proof -
  have "accepts (parseV2 event body) \<longleftrightarrow>
    next_tlv (\<lambda>_. next_tlv (\<lambda>_. next_tlv (\<lambda>_.
      next_tlv (\<lambda>t _. \<exists>vbs. varbind_list t vbs)))) (unread (new_reader body))"
    unfolding parseV2_def Let_def
    by (intro with_tlv_accepts) (simp add: accepts_rbindI decodeVarBinds_accepts)
  also have "\<dots> \<longleftrightarrow> v2_body body"
    unfolding unread_new v2_body_def
    by (subst next_tlv_chain_any, rule next_tlv_chain_any, rule next_tlv_chain_any, rule next_tlv_last)
       (rule iffI; elim exE conjE; hypsubst?; intro exI conjI; (assumption | rule refl)+)
  finally show ?thesis .
qed

lemma parseV1_accepts: "accepts (parseV1 event body) \<longleftrightarrow> v1_body body"
proof -
  have "accepts (parseV1 event body) \<longleftrightarrow>
    next_tlv (\<lambda>t1 bs. accepts (DecodeOID (tlv_value t1)) \<and>
      next_tlv (\<lambda>t2 bs. accepts (DecodeValue t2) \<and>
       next_tlv (\<lambda>_. next_tlv (\<lambda>_. next_tlv (\<lambda>_.
        next_tlv (\<lambda>t _. \<exists>vbs. varbind_list t vbs)))) bs) bs) (unread (new_reader body))"
    unfolding parseV1_def Let_def split_beta
    by (intro with_tlv_accepts accepts_rbindI) (simp add: accepts_rbindI decodeVarBinds_accepts)
  also have "\<dots> \<longleftrightarrow> v1_body body"
    unfolding unread_new v1_body_def
    by (subst next_tlv_chain, rule next_tlv_chain, rule next_tlv_chain_any, rule next_tlv_chain_any,
        rule next_tlv_chain_any, rule next_tlv_last)
       (rule iffI; elim exE conjE; hypsubst?; intro exI conjI; (assumption | rule refl)+)
  finally show ?thesis .
qed

lemma parse_pdu_accepts:
  "accepts (parse_pdu event pdu) \<longleftrightarrow>
     tlv_tag pdu = 0xA4 \<and> v1_body (tlv_value pdu) \<or> tlv_tag pdu = 0xA7 \<and> v2_body (tlv_value pdu)"
  by (simp add: parse_pdu_def parseV1_accepts parseV2_accepts)

lemma version_accepts:
  "(\<And>v. accepts (f v) \<longleftrightarrow> Q) \<Longrightarrow>
   accepts (case parse_int (int_str n) of (Some e, _) \<Rightarrow> Inl e | (None, v) \<Rightarrow> f v) \<longleftrightarrow> in_int64 n \<and> Q"
  by (simp add: parse_int_int_str)

definition pdu_body :: "tlv \<Rightarrow> bool" where
  "pdu_body pdu \<longleftrightarrow> tlv_tag pdu = 0xA4 \<and> v1_body (tlv_value pdu) \<or> tlv_tag pdu = 0xA7 \<and> v2_body (tlv_value pdu)"

lemma accepts_rbind_Inr: "accepts (rbind m (\<lambda>x. Inr (f x))) \<longleftrightarrow> accepts m"
  by (cases m) auto

definition message_body :: "bytes \<Rightarrow> bool" where
  "message_body bs \<longleftrightarrow>
     next_tlv (\<lambda>ver bs. (\<not> \<not> is_universal ver 0x02 \<and> in_int64 (DecodeSignedBigInt (tlv_value ver))) \<and>
       next_tlv (\<lambda>comm bs. \<not> \<not> is_universal comm 0x04 \<and> next_tlv (\<lambda>pdu _. pdu_body pdu) bs) bs) bs"

lemma message_body_iff:
  "message_body bs \<longleftrightarrow> (\<exists>version community pdu. tlv_prefix [version, community, pdu] bs \<and>
     is_universal version 0x02 \<and> in_int64 (DecodeSignedBigInt (tlv_value version)) \<and>
     is_universal community 0x04 \<and> pdu_body pdu)"
  unfolding message_body_def not_not
  by (subst next_tlv_chain, rule next_tlv_chain, rule next_tlv_last)
     (rule iffI; elim exE conjE; hypsubst?; intro exI conjI; (assumption | rule refl)+)

lemma ParseTrap_accepts: "accepts (ParseTrap now data ip port aliases) \<longleftrightarrow> trap_message data"
proof -
  have "accepts (ParseTrap now data ip port aliases) \<longleftrightarrow>
    next_tlv (\<lambda>outer _. \<not> tlv_tag outer \<noteq> 0x30 \<and> message_body (unread (new_reader (tlv_value outer))))
      (unread (new_reader data))"
    unfolding ParseTrap_def conj_assoc message_body_def
    by (intro with_tlv_accepts accepts_guardI version_accepts)
       (simp add: accepts_rbind_Inr pdu_body_def parse_pdu_accepts)
  also have "\<dots> \<longleftrightarrow> trap_message data"
    unfolding next_tlv_last message_body_iff trap_message_def pdu_body_def unread_new by blast
  finally show ?thesis .
qed

section \<open>The parsed event\<close>

lemma leaf_no_panic [no_panic_intros]:
  "no_panic (DecodeOID data)" "no_panic (DecodeValue t)"
  by (auto simp: no_panic_def split: sum.splits)

lemma no_panic_if [no_panic_intros]: "(\<not> b \<Longrightarrow> no_panic m) \<Longrightarrow> \<not> is_panic e \<Longrightarrow> no_panic (if b then Inl e else m)"
  by simp

lemma no_panic_pair [no_panic_intros]: "(\<And>x y. p = (x, y) \<Longrightarrow> no_panic (f x y)) \<Longrightarrow> no_panic (case p of (x, y) \<Rightarrow> f x y)"
  by (cases p) simp

lemma decode_item_no_panic [no_panic_intros]: "no_panic (decode_item item)"
  unfolding decode_item_def by (intro no_panic_intros) simp_all

lemma decode_items_no_panic: "no_panic (decode_items r acc)"
proof (induction r acc rule: decode_items.induct)
  case (1 r acc)
  then show ?case
    using decode_item_no_panic
    by (subst decode_items.simps)
       (auto intro!: no_panic_intros split: prod.splits sum.splits)
qed

lemma decodeVarBinds_no_panic [no_panic_intros]: "no_panic (decodeVarBinds r)"
  unfolding decodeVarBinds_def by (intro no_panic_intros decode_items_no_panic) simp

lemma parseV1_no_panic: "no_panic (parseV1 event body)"
  unfolding parseV1_def Let_def by (intro no_panic_intros) simp_all

lemma parseV2_no_panic: "no_panic (parseV2 event body)"
  unfolding parseV2_def Let_def by (intro no_panic_intros) simp_all

lemma parse_pdu_no_panic [no_panic_intros]: "no_panic (parse_pdu event pdu)"
  by (simp add: parse_pdu_def parseV1_no_panic parseV2_no_panic)

lemma version_no_panic [no_panic_intros]:
  "(\<And>v. no_panic (f v)) \<Longrightarrow>
   no_panic (case parse_int (int_str n) of (Some e, _) \<Rightarrow> Inl e | (None, v) \<Rightarrow> f v)"
  by (simp add: parse_int_int_str)

lemma ParseTrap_safe: "no_panic (ParseTrap now data ip port aliases)"
  unfolding ParseTrap_def by (intro no_panic_intros) simp_all

text \<open>\<open>same_origin e e'\<close>: the fields of the datagram itself, which the PDU parsers leave alone.\<close>

definition same_origin :: "trap_event \<Rightarrow> trap_event \<Rightarrow> bool" where
  "same_origin e e' \<longleftrightarrow>
     ev_received_at e' = ev_received_at e \<and> ev_raw_bytes e' = ev_raw_bytes e \<and>
     ev_source_ip e' = ev_source_ip e \<and> ev_source_port e' = ev_source_port e \<and>
     ev_version e' = ev_version e \<and> ev_community e' = ev_community e \<and>
     ev_pdu_type e' = ev_pdu_type e \<and> ev_alerts_logged e' = ev_alerts_logged e"

lemma parseV1_Inr:
  assumes "parseV1 e body = Inr e'"
  obtains r vbs enterprise agent generic specific uptime where
    "length (unread r) \<le> length body" "decodeVarBinds r = Inr vbs"
    "e' = v1_event e enterprise agent generic specific uptime vbs" "in_int64 generic" "in_int64 specific"
proof -
  from assms obtain t1 r1 ent t2 r2 p t3 r3 t4 r4 t5 r5 vbs where
    reads: "ReadTLV (new_reader body) = (Inr t1, r1)" "ReadTLV r1 = (Inr t2, r2)" "ReadTLV r2 = (Inr t3, r3)"
      "ReadTLV r3 = (Inr t4, r4)" "ReadTLV r4 = (Inr t5, r5)" and vbs: "decodeVarBinds r5 = Inr vbs"
    and e': "e' = v1_event e ent (snd p) (big_int64 (DecodeSignedBigInt (tlv_value t3)))
      (big_int64 (DecodeSignedBigInt (tlv_value t4))) (DecodeSignedBigInt (tlv_value t5)) vbs"
    unfolding parseV1_def Let_def split_beta with_tlv_Inr_iff rbind_Inr_iff sum.inject by auto
  have "length (unread r5) \<le> length body" using reads [THEN ReadTLV_shrinks] by simp
  moreover have "in_int64 (big_int64 n)" for n
    using sint_range_size [of "word_of_int n :: go_int"]
    by (simp add: big_int64_def in_int64_def min_int64_def max_int64_def word_size)
  ultimately show thesis using vbs e' that by blast
qed

lemma parseV2_Inr:
  assumes "parseV2 e body = Inr e'"
  obtains r vbs request status err_index where
    "length (unread r) \<le> length body" "decodeVarBinds r = Inr vbs" "e' = v2_event e request status err_index vbs"
proof -
  from assms obtain t1 r1 t2 r2 t3 r3 vbs where
    reads: "ReadTLV (new_reader body) = (Inr t1, r1)" "ReadTLV r1 = (Inr t2, r2)" "ReadTLV r2 = (Inr t3, r3)"
    and vbs: "decodeVarBinds r3 = Inr vbs"
    and e': "e' = v2_event e (parse_int_value t1) (parse_int_value t2) (parse_int_value t3) vbs"
    unfolding parseV2_def with_tlv_Inr_iff rbind_Inr_iff sum.inject by auto
  have "length (unread r3) \<le> length body" using reads [THEN ReadTLV_shrinks] by simp
  with vbs e' that show thesis by blast
qed

text \<open>Both PDUs keep the fields of the datagram itself and store their varbinds twice.\<close>

lemma parse_pdu_Inr:
  assumes "parse_pdu e pdu = Inr e'"
  obtains r vbs where "same_origin e e'" "length (unread r) \<le> length (tlv_value pdu)"
    "decodeVarBinds r = Inr vbs" "ev_varbinds e' = vbs" "ev_raw_varbind_map e' = raw_varbind_map vbs"
  using assms
  by (auto simp: parse_pdu_def split: if_splits elim!: parseV1_Inr parseV2_Inr)
     (simp_all add: v1_event_def v2_event_def Let_def same_origin_def)

lemma ParseTrap_Inr:
  assumes "ParseTrap now data ip port aliases = Inr e"
  obtains version community pdu e0 where
    "parse_pdu (new_event now data ip port version community pdu) pdu = Inr e0"
    "e = buildFields e0 aliases" "length (tlv_value pdu) + 8 \<le> length data"
    "is_universal community 0x04" "in_int64 version"
proof -
  from assms obtain outer r1 ver r2 comm r3 pdu r4 e0 where
    reads: "ReadTLV (new_reader data) = (Inr outer, r1)" "ReadTLV (new_reader (tlv_value outer)) = (Inr ver, r2)"
    "ReadTLV r2 = (Inr comm, r3)" "ReadTLV r3 = (Inr pdu, r4)"
    and e0: "parse_pdu (new_event now data ip port (DecodeSignedBigInt (tlv_value ver)) comm pdu) pdu = Inr e0"
      "e = buildFields e0 aliases" "is_universal comm 0x04" "in_int64 (DecodeSignedBigInt (tlv_value ver))"
    by (auto simp: ParseTrap_def with_tlv_Inr_iff rbind_Inr_iff parse_int_int_str split: if_splits)
  show thesis
    using reads [THEN ReadTLV_shrinks] by (intro that [OF e0(1,2) _ e0(3,4)]) simp
qed

text \<open>
  What an accepted datagram becomes: the event keeps the datagram byte for byte, its source and
  its time, has not been announced, has a field map, and holds no more varbinds than fit.
\<close>

definition event_of_datagram :: "int \<Rightarrow> bytes \<Rightarrow> string \<Rightarrow> int \<Rightarrow> trap_event \<Rightarrow> bool" where
  "event_of_datagram now data ip port e \<longleftrightarrow>
     ev_raw_bytes e = data \<and> ev_source_ip e = ip \<and> ev_source_port e = port \<and> ev_received_at e = now \<and>
     \<not> ev_alerts_logged e \<and> ev_fields e \<noteq> None \<and> 6 * length (ev_varbinds e) + 10 \<le> length data \<and>
     ev_raw_varbind_map e = raw_varbind_map (ev_varbinds e) \<and>
     (\<forall>vb \<in> set (ev_varbinds e). Normalize (vb_oid vb) = vb_oid vb)"

lemma ParseTrap_datagram:
  assumes "ParseTrap now data ip port aliases = Inr e"
  shows "event_of_datagram now data ip port e"
proof -
  from assms obtain version community pdu e0 where
    p: "parse_pdu (new_event now data ip port version community pdu) pdu = Inr e0" and
    e: "e = buildFields e0 aliases" and len: "length (tlv_value pdu) + 8 \<le> length data"
    by (rule ParseTrap_Inr)
  from p obtain r vbs where o: "same_origin (new_event now data ip port version community pdu) e0"
    and r: "length (unread r) \<le> length (tlv_value pdu)" "decodeVarBinds r = Inr vbs"
    and v: "ev_varbinds e0 = vbs" "ev_raw_varbind_map e0 = raw_varbind_map vbs"
    by (rule parse_pdu_Inr)
  from decodeVarBinds_Inr [OF r(2)] obtain t b rest where
    t: "unread r = b @ rest" "tlv_enc t b" "varbind_list t vbs" by blast
  from t r(1) len tlv_enc_length [OF t(2)] varbind_list_length [OF t(3)]
  have "6 * length vbs + 10 \<le> length data" by simp
  with e o v varbind_list_normal [OF t(3)] show ?thesis
    by (simp add: event_of_datagram_def same_origin_def buildFields_def new_event_def zero_event_def)
qed

section \<open>Lookup maps\<close>

text \<open>The last varbind of an OID.\<close>

definition last_value :: "varbind list \<Rightarrow> string \<Rightarrow> string option" where
  "last_value vbs k = map_option vb_value (find (\<lambda>vb. vb_oid vb = k) (rev vbs))"

lemma last_value_nil [simp]: "last_value [] k = None"
  by (simp add: last_value_def)

lemma last_value_snoc [simp]:
  "last_value (vbs @ [vb]) k = (if vb_oid vb = k then Some (vb_value vb) else last_value vbs k)"
  by (simp add: last_value_def)

lemma raw_varbind_map_last: "raw_varbind_map vbs k = last_value vbs k"
proof (induction vbs rule: rev_induct)
  case (snoc vb vbs)
  then show ?case by (simp add: raw_varbind_map_def)
qed (simp add: raw_varbind_map_def)

text \<open>Decoded OIDs never start with a dot, so the dotted lookups of \<open>parseV2\<close> find nothing.\<close>

lemma DecodeOID_no_dot: "DecodeOID data = Inr s \<Longrightarrow> s \<noteq> CHR ''.'' # t"
  by (drule DecodeOID_shape) (elim disjE exE conjE; force)

lemma varbind_list_no_dot: "varbind_list t vbs \<Longrightarrow> vb \<in> set vbs \<Longrightarrow> vb_oid vb \<noteq> CHR ''.'' # k"
proof -
  assume "varbind_list t vbs" "vb \<in> set vbs"
  then obtain e where "varbind_enc vb e"
    by (auto simp: varbind_list_def list_all2_conv_all_nth in_set_conv_nth)
  then show ?thesis by (auto simp: varbind_enc_def Normalize_DecodeOID dest: DecodeOID_no_dot)
qed

lemma last_value_None: "\<forall>vb \<in> set vbs. vb_oid vb \<noteq> k \<Longrightarrow> last_value vbs k = None"
  by (auto simp: last_value_def find_None_iff)

lemma v2_lookup:
  assumes "varbind_list t vbs"
  shows "firstNonEmpty [str_get (raw_varbind_map vbs) k, str_get (raw_varbind_map vbs) (''.'' @ k)] =
    (case last_value vbs k of None \<Rightarrow> [] | Some v \<Rightarrow> v)"
proof -
  have "last_value vbs (CHR ''.'' # k) = None"
    using varbind_list_no_dot [OF assms] by (intro last_value_None) simp
  then show ?thesis by (simp add: str_get_def raw_varbind_map_last split: option.splits)
qed

text \<open>
  The trap OID of a message: in a v2 message the value of its last \<open>snmpTrapOID.0\<close> varbind in
  normal form (empty without one), in a v1 message \<open>v1:enterprise:generic:specific\<close>.
\<close>

lemma ParseTrap_oid_cases:
  assumes "ParseTrap now data ip port aliases = Inr e"
  shows "ev_pdu_type e = ''0xa7'' \<and>
           ev_trap_oid e = Normalize (case last_value (ev_varbinds e) snmpTrapOID of None \<Rightarrow> [] | Some v \<Rightarrow> v) \<or>
         ev_pdu_type e = ''0xa4'' \<and>
           ev_trap_oid e = ''v1:'' @ ev_enterprise_oid e @ '':'' @ ev_generic_trap e @ '':'' @ ev_specific_trap e"
proof -
  from assms obtain version community pdu e0 where
    p: "parse_pdu (new_event now data ip port version community pdu) pdu = Inr e0" and
    e: "e = buildFields e0 aliases" by (rule ParseTrap_Inr)
  let ?e = "new_event now data ip port version community pdu"
  have hex: "tlv_tag pdu = 0xA4 \<Longrightarrow> ev_pdu_type ?e = ''0xa4''" "tlv_tag pdu = 0xA7 \<Longrightarrow> ev_pdu_type ?e = ''0xa7''"
    by (simp_all add: new_event_def run_simps)
  from p consider (v1) "tlv_tag pdu = 0xA4" "parseV1 ?e (tlv_value pdu) = Inr e0"
    | (v2) "tlv_tag pdu = 0xA7" "parseV2 ?e (tlv_value pdu) = Inr e0"
    by (auto simp: parse_pdu_def split: if_splits)
  then show ?thesis
  proof cases
    case v1
    from v1(2) show ?thesis
      by (rule parseV1_Inr) (use hex(1) [OF v1(1)] in \<open>simp add: e buildFields_def v1_event_def\<close>)
  next
    case v2
    from v2(2) obtain r vbs request status err_index where
      r: "decodeVarBinds r = Inr vbs" "e0 = v2_event ?e request status err_index vbs" by (rule parseV2_Inr)
    from decodeVarBinds_Inr [OF r(1)] obtain t where "varbind_list t vbs" by blast
    from v2_lookup [OF this] r(2) hex(2) [OF v2(1)] show ?thesis
      by (simp add: e buildFields_def v2_event_def Let_def)
  qed
qed

text \<open>
  The field map binds \<open>varbind.<oid>\<close> to the last value of that OID, whatever the order of the
  varbinds, as long as no configured alias is itself spelled \<open>varbind.\<dots>\<close>.
\<close>

definition aliases_avoid :: "string \<Rightarrow> (string \<rightharpoonup> string) option \<Rightarrow> bool" where
  "aliases_avoid p aliases \<longleftrightarrow>
     (\<forall>f k a. aliases = Some f \<longrightarrow> f k = Some a \<longrightarrow> \<not> has_prefix a p)"

lemma lookupAlias_range: "lookupAlias aliases oid = Some a \<Longrightarrow> \<exists>f k. aliases = Some f \<and> f k = Some a"
  by (auto simp: lookupAlias_def Lookup_def Let_def split: option.splits if_splits)

lemma add_varbind_fields_oid:
  assumes "aliases_avoid ''varbind.'' aliases" "Normalize (vb_oid vb) = vb_oid vb"
  shows "add_varbind_fields aliases m vb (''varbind.'' @ k) =
    (if vb_oid vb = k then Some (vb_value vb) else m (''varbind.'' @ k))"
proof -
  have "a \<noteq> ''varbind.'' @ k" if "lookupAlias aliases oid = Some a" for a oid
    using assms(1) lookupAlias_range [OF that] has_prefix_append unfolding aliases_avoid_def by blast
  with assms(2) show ?thesis
    by (auto simp: add_varbind_fields_def Let_def split: option.splits)
qed

lemma set_other: "j \<noteq> k \<Longrightarrow> set_if b k v m j = m j" "j \<noteq> k \<Longrightarrow> set_unless_empty k v m j = m j"
  by (simp_all add: set_if_def set_unless_empty_def)

lemma event_fields_no_varbind: "event_fields e (''varbind.'' @ k) = None"
  by (simp add: event_fields_def set_other header_fields_def)

lemma foldl_last_value:
  assumes "\<And>vb m. Normalize (vb_oid vb) = vb_oid vb \<Longrightarrow>
      f m vb key = (if vb_oid vb = k then Some (vb_value vb) else m key)"
  shows "\<forall>vb \<in> set vbs. Normalize (vb_oid vb) = vb_oid vb \<Longrightarrow>
    foldl f m vbs key = (case last_value vbs k of None \<Rightarrow> m key | Some v \<Rightarrow> Some v)"
proof (induction vbs rule: rev_induct)
  case (snoc vb vbs)
  have "foldl f m (vbs @ [vb]) key = f (foldl f m vbs) vb key" by simp
  also have "\<dots> = (if vb_oid vb = k then Some (vb_value vb) else foldl f m vbs key)"
    using snoc.prems by (intro assms) simp
  also have "\<dots> = (case last_value (vbs @ [vb]) k of None \<Rightarrow> m key | Some v \<Rightarrow> Some v)"
  proof (cases "vb_oid vb = k")
    case False
    with snoc.IH snoc.prems show ?thesis by (simp only: last_value_snoc if_False) simp
  qed (simp add: last_value_snoc)
  finally show ?case .
qed (simp only: foldl.simps last_value_nil option.case)

lemma ParseTrap_varbind_field:
  assumes "ParseTrap now data ip port aliases = Inr e" "aliases_avoid ''varbind.'' aliases"
  shows "map_get (ev_fields e) (''varbind.'' @ k) = last_value (ev_varbinds e) k"
proof -
  from assms(1) obtain version community pdu e0 where e: "e = buildFields e0 aliases"
    by (rule ParseTrap_Inr)
  moreover have "\<forall>vb \<in> set (ev_varbinds e). Normalize (vb_oid vb) = vb_oid vb"
    using ParseTrap_datagram [OF assms(1)] by (simp add: event_of_datagram_def)
  ultimately show ?thesis
    using foldl_last_value [where f = "add_varbind_fields aliases" and key = "''varbind.'' @ k" and k = k
        and vbs = "ev_varbinds e0" and m = "event_fields e0", OF add_varbind_fields_oid [OF assms(2)]]
    by (simp only: buildFields_def event_fields_no_varbind) (simp split: option.splits)
qed

section \<open>Properties\<close>

text \<open>A linkDown-style notification: request 9, no uptime, trap OID 1.3.6.1.4.1.7.\<close>

definition sample_trap :: bytes where
  "sample_trap = [0x30,0x2a, 2,1,1, 4,2,0x70,0x75, 0xA7,0x21, 2,1,9, 2,1,0, 2,1,0, 0x30,0x16, 0x30,0x14,
     6,10,0x2b,6,1,6,3,1,1,4,1,0, 6,6,0x2b,6,1,4,1,7]"

definition sample_parsed :: trap_event where
  "sample_parsed = zero_event\<lparr>
     ev_received_at := 5, ev_source_ip := ''10.0.0.1'', ev_source_port := 162, ev_raw_bytes := sample_trap,
     ev_version := 1, ev_community := ''pu'', ev_pdu_type := ''0xa7'', ev_request_id := 9,
     ev_trap_oid := ''1.3.6.1.4.1.7'',
     ev_varbinds := [\<lparr>vb_oid = ''1.3.6.1.6.3.1.1.4.1.0'', vb_type_name = ''OBJECT IDENTIFIER'',
       vb_value = ''1.3.6.1.4.1.7''\<rparr>],
     ev_raw_varbind_map := [''1.3.6.1.6.3.1.1.4.1.0'' \<mapsto> ''1.3.6.1.4.1.7''],
     ev_fields := Some [''source_ip'' \<mapsto> ''10.0.0.1'', ''source_port'' \<mapsto> ''162'', ''version'' \<mapsto> ''1'',
       ''community'' \<mapsto> ''pu'', ''pdu_type'' \<mapsto> ''0xa7'', ''request_id'' \<mapsto> ''9'',
       ''trap_oid'' \<mapsto> ''1.3.6.1.4.1.7'', ''varbind.1.3.6.1.6.3.1.1.4.1.0'' \<mapsto> ''1.3.6.1.4.1.7'']\<rparr>"

lemma ParseTrap_sample: "ParseTrap 5 sample_trap ''10.0.0.1'' 162 None = Inr sample_parsed"
  by (simp add: sample_trap_def sample_parsed_def run_simps cong: run_congs)

text \<open>
  C7. The parser accepts exactly the messages of the grammar: a sequence of a 64-bit version, a
  community and a PDU with tag A4 (enterprise, agent, generic, specific, uptime, varbinds) or A7
  (request id, status, index, varbinds), every element in definite-length encoding.
\<close>

lemma ParseTrap_grammar: "accepts (ParseTrap now data ip port aliases) \<longleftrightarrow> trap_message data"
  by (rule ParseTrap_accepts)

text \<open>C25. No datagram makes the parser panic: every index and slice stays inside its data.\<close>

lemma ParseTrap_no_panic: "no_panic (ParseTrap now data ip port aliases)"
  by (rule ParseTrap_safe)

text \<open>
  C40. An accepted datagram becomes an event that keeps the datagram byte for byte, its source and
  its time, has not been announced, and holds at most one varbind for every six bytes; the raw
  varbind map agrees with the varbind list and the OIDs are in normal form.
\<close>

lemma ParseTrap_event:
  assumes "ParseTrap now data ip port aliases = Inr e"
  shows "event_of_datagram now data ip port e"
  using assms by (rule ParseTrap_datagram)

lemma ParseTrap_event_witness: "event_of_datagram 5 sample_trap ''10.0.0.1'' 162 sample_parsed"
  by (rule ParseTrap_event [OF ParseTrap_sample])

text \<open>
  The trap OID of a message: for a v2 message the value of its last \<open>snmpTrapOID.0\<close> varbind in
  normal form (empty without one), for a v1 message \<open>v1:enterprise:generic:specific\<close>.
\<close>

lemma ParseTrap_trap_oid:
  assumes "ParseTrap now data ip port aliases = Inr e"
  shows "ev_pdu_type e = ''0xa7'' \<and>
           ev_trap_oid e = Normalize (case last_value (ev_varbinds e) snmpTrapOID of None \<Rightarrow> [] | Some v \<Rightarrow> v) \<or>
         ev_pdu_type e = ''0xa4'' \<and>
           ev_trap_oid e = ''v1:'' @ ev_enterprise_oid e @ '':'' @ ev_generic_trap e @ '':'' @ ev_specific_trap e"
  using assms by (rule ParseTrap_oid_cases)

lemma ParseTrap_trap_oid_witness:
  "ev_trap_oid sample_parsed =
     Normalize (case last_value (ev_varbinds sample_parsed) snmpTrapOID of None \<Rightarrow> [] | Some v \<Rightarrow> v)"
proof -
  have "ev_pdu_type sample_parsed = ''0xa7''" by (simp add: sample_parsed_def)
  with ParseTrap_trap_oid [OF ParseTrap_sample] show ?thesis by simp
qed

text \<open>
  A configured alias may take the name of a built-in field and replace its value: with the
  alias \<open>source_ip\<close> for the trap OID varbind, the field \<open>source_ip\<close> no longer holds the address
  the datagram came from.
\<close>

lemma alias_shadows_builtin:
  "ParseTrap 5 sample_trap ''10.0.0.1'' 162 (Some [''1.3.6.1.6.3.1.1.4.1.0'' \<mapsto> ''source_ip'']) =
     Inr (sample_parsed\<lparr>ev_fields := Some ((the (ev_fields sample_parsed))
       (''source_ip'' \<mapsto> ''1.3.6.1.4.1.7'', ''fields.source_ip'' \<mapsto> ''1.3.6.1.4.1.7''))\<rparr>)"
  by (simp add: sample_trap_def sample_parsed_def run_simps cong: run_congs)

end
