(* ===== verification/Perf_Codec.thy ===== *)
theory Perf_Codec
  imports Snmp_Parser
begin

text \<open>
  The encoders of \<open>cmd/snmptrap-relay-perf/main.go\<close>, which builds the datagrams the load generator sends.
  They are the inverse of the relay's own decoders: lengths, elements, integers and object
  identifiers are read back as they were, and a whole trap message is parsed to the event it stands
  for. Integers are 64-bit words, shifted arithmetically as Go shifts signed integers.
\<close>

section \<open>Lengths and elements\<close>

text \<open>\<open>encodeLength\<close> is called with the length of a slice only, a natural number.\<close>

function len_octets :: "nat \<Rightarrow> bytes \<Rightarrow> bytes" where
  "len_octets n tmp = (if 0 < n then len_octets (n div 256) (word_of_nat (n mod 256) # tmp) else tmp)"
  by pat_completeness auto
termination
  by (relation "measure fst") auto

declare len_octets.simps [simp del]

definition encodeLength :: "nat \<Rightarrow> bytes" where
  "encodeLength n =
     (if n < 0x80 then [word_of_nat n]
      else let tmp = len_octets n [] in (0x80 OR word_of_nat (length tmp)) # tmp)"

definition tlv_bytes :: "byte \<Rightarrow> bytes \<Rightarrow> bytes" where
  "tlv_bytes tag v = tag # encodeLength (length v) @ v"

definition seq_bytes :: "bytes list \<Rightarrow> bytes" where
  "seq_bytes parts = tlv_bytes 0x30 (concat parts)"

section \<open>Integers\<close>

function int_octets :: "go_int \<Rightarrow> bytes \<Rightarrow> bytes" where
  "int_octets n buf =
     (if n \<noteq> 0 \<and> n \<noteq> -1 then int_octets (signed_drop_bit 8 n) (ucast (n AND 0xFF) # buf) else buf)"
  by pat_completeness auto

lemma sint_shift: "sint (signed_drop_bit k (n :: go_int)) = sint n div 2 ^ k"
  by (simp add: sint_signed_drop_bit_eq drop_bit_eq_div)

lemma div256_smaller: "(i :: int) \<noteq> 0 \<Longrightarrow> i \<noteq> -1 \<Longrightarrow> nat \<bar>i div 256\<bar> < nat \<bar>i\<bar>"
proof (cases "0 \<le> i")
  case False
  assume "i \<noteq> -1"
  have "i = 256 * (i div 256) + i mod 256" "i mod 256 < 256" by simp_all
  with False \<open>i \<noteq> -1\<close> have "i div 256 < 0" "i < i div 256" by linarith+
  then show ?thesis using False by (simp add: abs_if)
next
  case True
  assume "i \<noteq> 0"
  with True show ?thesis by (simp add: int_div_less_self)
qed

lemma int_octets_smaller: "(n :: go_int) \<noteq> 0 \<and> n \<noteq> -1 \<Longrightarrow> nat \<bar>sint (signed_drop_bit 8 n)\<bar> < nat \<bar>sint n\<bar>"
proof -
  assume "n \<noteq> 0 \<and> n \<noteq> -1"
  then have "sint n \<noteq> 0" "sint n \<noteq> -1"
    by (metis signed_0 signed_word_eqI, metis signed_minus_1 signed_word_eqI)
  then show ?thesis using div256_smaller by (simp add: sint_shift)
qed

termination int_octets
proof (relation "measure (\<lambda>(n, buf). nat \<bar>sint n\<bar>)")
  fix n :: go_int and buf :: bytes
  assume "n \<noteq> 0 \<and> n \<noteq> -1"
  from int_octets_smaller [OF this]
  show "((signed_drop_bit 8 n, ucast (n AND 0xFF) # buf), n, buf) \<in> measure (\<lambda>(n, buf). nat \<bar>sint n\<bar>)"
    by (simp only: in_measure split_conv)
qed simp

declare int_octets.simps [simp del]

definition encodeIntegerBytes :: "go_int \<Rightarrow> bytes res" where
  "encodeIntegerBytes n =
     (if n = 0 then Inr [0]
      else let negative = sint n < 0; buf = int_octets n [] in
        rbind (if negative
               then rbind (index buf 0) (\<lambda>b. Inr (if b AND 0x80 = 0 then 0xFF # buf else buf))
               else Inr buf) (\<lambda>buf.
        if \<not> negative
        then rbind (index buf 0) (\<lambda>b. Inr (if b AND 0x80 \<noteq> 0 then 0x00 # buf else buf))
        else Inr buf))"

section \<open>Object identifiers\<close>

function base128_digits :: "go_int \<Rightarrow> bytes \<Rightarrow> bytes" where
  "base128_digits n tmp =
     (if 0 < sint n then base128_digits (signed_drop_bit 7 n) (ucast (n AND 0x7F) # tmp) else tmp)"
  by pat_completeness auto
termination
  by (relation "measure (\<lambda>(n, tmp). nat (sint n))") (auto simp: sint_shift)

declare base128_digits.simps [simp del]

text \<open>The continuation bit is set on all bytes but the last.\<close>

definition encodeBase128 :: "go_int \<Rightarrow> bytes" where
  "encodeBase128 n =
     (if n = 0 then [0]
      else let tmp = base128_digits n [] in
        map (\<lambda>b. b OR 0x80) (take (length tmp - 1) tmp) @ drop (length tmp - 1) tmp)"

text \<open>The code point of a piece that \<open>range\<close> takes from a string, U+FFFD for an invalid byte.\<close>

definition rune_value :: "string \<Rightarrow> int" where
  "rune_value r =
     (case map of_char r of
        [a] \<Rightarrow> if a < 128 then a else 0xFFFD
      | [a, b] \<Rightarrow> (a - 192) * 64 + (b - 128)
      | [a, b, c] \<Rightarrow> (a - 224) * 4096 + (b - 128) * 64 + (c - 128)
      | [a, b, c, d] \<Rightarrow> (a - 240) * 262144 + (b - 128) * 4096 + (c - 128) * 64 + (d - 128)
      | _ \<Rightarrow> 0xFFFD)"

definition mustAtoi :: "string \<Rightarrow> go_int" where
  "mustAtoi s = foldl (\<lambda>n ch. n * 10 + word_of_int (rune_value ch - 48)) 0 (runes s)"

definition encodeOID :: "string \<Rightarrow> bytes res" where
  "encodeOID oid =
     (case split_on CHR ''.'' oid of
        p0 # p1 # ps \<Rightarrow>
          Inr (ucast (mustAtoi p0 * 40 + mustAtoi p1) # concat (map (\<lambda>p. encodeBase128 (mustAtoi p)) ps))
      | _ \<Rightarrow> Inl (BerError ''OID needs at least two nodes''))"

definition encOID :: "string \<Rightarrow> bytes res" where
  "encOID oid =
     (case encodeOID oid of
        Inl e \<Rightarrow> Inl (Panic ''OID needs at least two nodes'')
      | Inr encoded \<Rightarrow> Inr (tlv_bytes 0x06 encoded))"

section \<open>Messages\<close>

record var_bind =
  pv_oid :: string
  pv_value :: bytes

definition encodeVarBind :: "string \<Rightarrow> bytes \<Rightarrow> bytes res" where
  "encodeVarBind oid v = rbind (encOID oid) (\<lambda>encoded. Inr (seq_bytes [encoded, v]))"

definition buildV2Trap :: "string \<Rightarrow> var_bind list \<Rightarrow> bytes res" where
  "buildV2Trap community binds =
     rbind (mapM (\<lambda>vb. encodeVarBind (pv_oid vb) (pv_value vb)) binds) (\<lambda>vb_seq.
     rbind (encodeIntegerBytes 1) (\<lambda>request_id.
     rbind (encodeIntegerBytes 0) (\<lambda>error_status.
     rbind (encodeIntegerBytes 0) (\<lambda>error_index.
     rbind (encodeIntegerBytes 1) (\<lambda>version.
       let pdu_body = tlv_bytes 0x02 request_id @ tlv_bytes 0x02 error_status @ tlv_bytes 0x02 error_index @
             seq_bytes vb_seq;
           pdu = tlv_bytes 0xA7 pdu_body
       in Inr (seq_bytes [tlv_bytes 0x02 version, tlv_bytes 0x04 (bytes_of_str community), pdu]))))))"

definition deviceIDOID :: string where
  "deviceIDOID = ''1.3.6.1.4.1.9999.1.1''"

definition ifIndexOID :: string where
  "ifIndexOID = ''1.3.6.1.4.1.9999.1.2''"

definition buildTrapPayload :: "string \<Rightarrow> string \<Rightarrow> go_int \<Rightarrow> go_int \<Rightarrow> bytes res" where
  "buildTrapPayload trapOID deviceID if_index uptime =
     rbind (encodeIntegerBytes uptime) (\<lambda>uptime_bytes.
     rbind (encOID trapOID) (\<lambda>trap_value.
     rbind (encodeIntegerBytes if_index) (\<lambda>index_bytes.
     buildV2Trap ''public''
       [\<lparr>pv_oid = ''1.3.6.1.2.1.1.3.0'', pv_value = tlv_bytes 0x43 uptime_bytes\<rparr>,
        \<lparr>pv_oid = ''1.3.6.1.6.3.1.1.4.1.0'', pv_value = trap_value\<rparr>,
        \<lparr>pv_oid = deviceIDOID, pv_value = tlv_bytes 0x04 (bytes_of_str deviceID)\<rparr>,
        \<lparr>pv_oid = ifIndexOID, pv_value = tlv_bytes 0x02 index_bytes\<rparr>])))"

lemmas codec_run [run_simps] =
  encodeLength_def len_octets.simps tlv_bytes_def seq_bytes_def encodeIntegerBytes_def int_octets.simps
  base128_digits.simps encodeBase128_def rune_value_def mustAtoi_def encodeOID_def encOID_def encodeVarBind_def
  buildV2Trap_def deviceIDOID_def ifIndexOID_def buildTrapPayload_def

section \<open>Elements are read back\<close>

lemma len_octets_acc: "len_octets n tmp = len_octets n [] @ tmp"
proof (induction n arbitrary: tmp rule: less_induct)
  case (less n)
  show ?case
  proof (cases "0 < n")
    case True
    then have "n div 256 < n" by simp
    from less.IH [OF this, of "word_of_nat (n mod 256) # tmp"] less.IH [OF this, of "[word_of_nat (n mod 256)]"]
    show ?thesis by (subst (1 2) len_octets.simps) (simp add: True)
  qed (simp add: len_octets.simps)
qed

lemma len_octets_pos: "0 < n \<Longrightarrow> len_octets n [] = len_octets (n div 256) [] @ [word_of_nat (n mod 256)]"
  using len_octets_acc [of "n div 256" "[word_of_nat (n mod 256)]"] by (simp add: len_octets.simps [of n])

lemma be_val_len_octets: "be_val (len_octets n []) = n"
proof (induction n rule: less_induct)
  case (less n)
  show ?case
  proof (cases "0 < n")
    case True
    with less [of "n div 256"] show ?thesis by (simp add: len_octets_pos unat_of_nat)
  qed (simp add: len_octets.simps)
qed

lemma len_octets_length: "n < 256 ^ k \<Longrightarrow> length (len_octets n []) \<le> k"
proof (induction k arbitrary: n)
  case (Suc k)
  show ?case
  proof (cases "0 < n")
    case True
    from Suc.prems have "n div 256 < 256 ^ k" by (simp add: less_mult_imp_div_less mult.commute)
    from Suc.IH [OF this] True show ?thesis by (simp add: len_octets_pos)
  qed (simp add: len_octets.simps)
qed (simp add: len_octets.simps)

lemma small_length_octet: "k \<le> 4 \<Longrightarrow> 0x80 \<le> (0x80 OR word_of_nat k :: byte) \<and> unat ((0x80 OR word_of_nat k :: byte) AND 0x7F) = k"
proof -
  assume "k \<le> 4"
  then have "k = 0 \<or> k = 1 \<or> k = 2 \<or> k = 3 \<or> k = 4" by auto
  then show ?thesis by (elim disjE) simp_all
qed

lemma encodeLength_header: "n < 2 ^ 32 \<Longrightarrow> len_header (encodeLength n) n"
proof (cases "n < 0x80")
  case True
  then have "unat (word_of_nat n :: byte) = n" by (simp add: unat_of_nat)
  with True show ?thesis by (simp add: encodeLength_def len_header_def word_less_nat_alt)
next
  case False
  assume "n < 2 ^ 32"
  then have "length (len_octets n []) \<le> 4" by (intro len_octets_length) simp
  moreover have "1 \<le> length (len_octets n [])" using False by (simp add: len_octets_pos)
  ultimately show ?thesis
    using False small_length_octet [of "length (len_octets n [])"]
    by (simp add: encodeLength_def len_header_def be_val_len_octets Let_def)
qed

definition elem :: "byte \<Rightarrow> bytes \<Rightarrow> tlv" where
  "elem tag v = \<lparr>tlv_tag = tag, tlv_length = int (length v), tlv_value = v\<rparr>"

lemma elem_simps [simp]: "tlv_tag (elem tag v) = tag" "tlv_value (elem tag v) = v" "tlv_length (elem tag v) = int (length v)"
  by (simp_all add: elem_def)

lemma tlv_bytes_enc: "length v < 2 ^ 32 \<Longrightarrow> tlv_enc (elem tag v) (tlv_bytes tag v)"
  by (auto simp: tlv_enc_def tlv_bytes_def encodeLength_header)

lemma tlv_bytes_length: "length v < 2 ^ 32 \<Longrightarrow> length (tlv_bytes tag v) \<le> 6 + length v"
proof -
  assume "length v < 2 ^ 32"
  then have "length (len_octets (length v) []) \<le> 4" by (intro len_octets_length) simp
  then show ?thesis by (simp add: tlv_bytes_def encodeLength_def Let_def)
qed

section \<open>Integers are read back\<close>

lemma int_octets_more:
  "n \<noteq> 0 \<and> n \<noteq> -1 \<Longrightarrow> int_octets n buf = int_octets (signed_drop_bit 8 n) (ucast (n AND 0xFF) # buf)"
  by (subst int_octets.simps) (rule if_P)

lemma int_octets_end: "\<not> (n \<noteq> 0 \<and> n \<noteq> -1) \<Longrightarrow> int_octets n buf = buf"
  by (subst int_octets.simps) (rule if_not_P)

lemma int_octets_acc: "int_octets n buf = int_octets n [] @ buf"
proof (induction "nat \<bar>sint n\<bar>" arbitrary: n buf rule: less_induct)
  case less
  show ?case
  proof (cases "n \<noteq> 0 \<and> n \<noteq> -1")
    case True
    note smaller = int_octets_smaller [OF True]
    show ?thesis
      unfolding int_octets_more [OF True] less [OF smaller, of "ucast (n AND 0xFF) # buf"]
        less [OF smaller, of "[ucast (n AND 0xFF)]"] by simp
  next
    case False
    show ?thesis by (simp only: int_octets_end [OF False] append_Nil)
  qed
qed

lemma int_octets_step:
  "n \<noteq> 0 \<Longrightarrow> n \<noteq> -1 \<Longrightarrow> int_octets n [] = int_octets (signed_drop_bit 8 n) [] @ [ucast (n AND 0xFF)]"
  using int_octets_acc [of "signed_drop_bit 8 n" "[ucast (n AND 0xFF)]"] int_octets_more [of n "[]"] by simp

lemma low_byte: "uint (ucast ((n :: go_int) AND 0xFF) :: byte) = sint n mod 256"
proof -
  have m: "(0xFF :: go_int) = mask 8" by (simp add: mask_eq_exp_minus_1)
  have "ucast (n AND 0xFF) = (ucast n :: byte)"
    unfolding m by (rule bit_word_eqI) (auto simp: bit_simps)
  then have "uint (ucast (n AND 0xFF) :: byte) = take_bit 8 (uint n)"
    by (simp add: unsigned_ucast_eq)
  also have "\<dots> = take_bit 8 (sint n)"
    by (simp add: sint_uint take_bit_signed_take_bit)
  finally show ?thesis by (simp add: take_bit_eq_mod)
qed

text \<open>The octets are the two's complement digits, without the sign octet.\<close>

lemma int_octets_val:
  "sint n = int (be_val (int_octets n [])) - (if sint n < 0 then 256 ^ length (int_octets n []) else 0)"
proof (induction "nat \<bar>sint n\<bar>" arbitrary: n rule: less_induct)
  case less
  show ?case
  proof (cases "n \<noteq> 0 \<and> n \<noteq> -1")
    case True
    let ?m = "signed_drop_bit 8 n"
    from less [OF int_octets_smaller [OF True]]
    have "sint ?m = int (be_val (int_octets ?m [])) - (if sint ?m < 0 then 256 ^ length (int_octets ?m []) else 0)" .
    then have m: "sint n div 256 = int (be_val (int_octets ?m [])) - (if sint n < 0 then 256 ^ length (int_octets ?m []) else 0)"
      by (simp add: sint_shift pos_imp_zdiv_neg_iff)
    have "sint n = 256 * (sint n div 256) + sint n mod 256" by simp
    also have "\<dots> = 256 * int (be_val (int_octets ?m [])) + sint n mod 256 -
        (if sint n < 0 then 256 * 256 ^ length (int_octets ?m []) else 0)"
      by (simp add: m)
    also have "\<dots> = int (be_val (int_octets n [])) - (if sint n < 0 then 256 ^ length (int_octets n []) else 0)"
      using True by (simp add: int_octets_step low_byte)
    finally show ?thesis .
  next
    case False
    then have "n = 0 \<or> n = -1" by auto
    then show ?thesis by (auto simp: int_octets_end)
  qed
qed

text \<open>What the encoder gives, and that it gives something for every integer but -1.\<close>

lemma encodeIntegerBytes_signed:
  "encodeIntegerBytes n = Inr bs \<Longrightarrow> bs \<noteq> [] \<and> DecodeSignedBigInt bs = sint n"
proof -
  assume e: "encodeIntegerBytes n = Inr bs"
  let ?v = "int_octets n []"
  show ?thesis
  proof (cases "n = 0")
    case True
    with e show ?thesis by (auto simp: encodeIntegerBytes_def DecodeSignedBigInt_def be_val_Cons)
  next
    case False
    with e obtain b v where v: "?v = b # v"
      by (cases ?v) (auto simp: encodeIntegerBytes_def Let_def index_def split: if_splits)
    note val = int_octets_val [of n]
    have p: "(2 :: int) ^ (8 + 8 * k) = 256 * 256 ^ k" "(2 :: int) ^ (16 + 8 * k) = 65536 * 256 ^ k" for k
      by (simp_all add: power_mult power_add)
    show ?thesis
    proof (cases "sint n < 0")
      case True
      with e False v have "bs = (if b AND 0x80 = 0 then 0xFF # ?v else ?v)"
        by (auto simp: encodeIntegerBytes_def Let_def)
      with True val v show ?thesis
        by (simp add: DecodeSignedBigInt_def p mult.commute [of _ 8] be_val_Cons [of "0xFF"])
    next
      case False2: False
      with e False v have "bs = (if b AND 0x80 \<noteq> 0 then 0x00 # ?v else ?v)"
        by (auto simp: encodeIntegerBytes_def Let_def)
      with False2 val v show ?thesis
        by (simp add: DecodeSignedBigInt_def be_val_Cons [of "0x00"])
    qed
  qed
qed

lemma encodeIntegerBytes_unsigned:
  "encodeIntegerBytes n = Inr bs \<Longrightarrow> 0 \<le> sint n \<Longrightarrow> DecodeUnsignedBigInt bs = sint n"
proof -
  assume e: "encodeIntegerBytes n = Inr bs" and n: "0 \<le> sint n"
  have "int (be_val bs) = int (be_val (int_octets n []))" if "n \<noteq> 0"
    using e n that
    by (auto simp: encodeIntegerBytes_def Let_def rbind_Inr_iff be_val_Cons [of "0x00"] split: if_splits)
  with e n int_octets_val [of n] show ?thesis
    by (cases "n = 0") (auto simp: DecodeUnsignedBigInt_def encodeIntegerBytes_def be_val_Cons)
qed

lemma encodeIntegerBytes_total: "n \<noteq> -1 \<Longrightarrow> \<exists>bs. encodeIntegerBytes n = Inr bs"
  by (cases "n = 0") (auto simp: encodeIntegerBytes_def Let_def int_octets_step)

lemma encodeIntegerBytes_minus_one: "encodeIntegerBytes (-1) = Inl (Panic ''index out of range'')"
  by (simp add: encodeIntegerBytes_def int_octets.simps index_def)

section \<open>Object identifiers are read back\<close>

lemma base128_digits_more:
  "0 < sint n \<Longrightarrow> base128_digits n tmp = base128_digits (signed_drop_bit 7 n) (ucast (n AND 0x7F) # tmp)"
  by (subst base128_digits.simps) (rule if_P)

lemma base128_digits_end: "\<not> 0 < sint n \<Longrightarrow> base128_digits n tmp = tmp"
  by (subst base128_digits.simps) (rule if_not_P)

lemma base128_digits_acc: "base128_digits n tmp = base128_digits n [] @ tmp"
proof (induction "nat (sint n)" arbitrary: n tmp rule: less_induct)
  case less
  show ?case
  proof (cases "0 < sint n")
    case True
    then have smaller: "nat (sint (signed_drop_bit 7 n)) < nat (sint n)" by (simp add: sint_shift)
    show ?thesis
      unfolding base128_digits_more [OF True] less [OF smaller, of "ucast (n AND 0x7F) # tmp"]
        less [OF smaller, of "[ucast (n AND 0x7F)]"] by simp
  next
    case False
    show ?thesis by (simp only: base128_digits_end [OF False] append_Nil)
  qed
qed

lemma base128_digits_step:
  "0 < sint n \<Longrightarrow> base128_digits n [] = base128_digits (signed_drop_bit 7 n) [] @ [ucast (n AND 0x7F)]"
  using base128_digits_acc [of "signed_drop_bit 7 n" "[ucast (n AND 0x7F)]"] base128_digits_more [of n "[]"] by simp

lemma base128_digits_length: "sint n < 128 ^ k \<Longrightarrow> length (base128_digits n []) \<le> k"
proof (induction k arbitrary: n)
  case (Suc k)
  show ?case
  proof (cases "0 < sint n")
    case True
    have "128 * (sint n div 128) \<le> sint n" by simp
    with Suc.prems have "sint (signed_drop_bit 7 n) < 128 ^ k" by (simp add: sint_shift)
    from Suc.IH [OF this] True show ?thesis by (simp add: base128_digits_step)
  qed (simp add: base128_digits_end)
qed (simp add: base128_digits_end)

text \<open>The loop of the decoder puts the seven-bit groups together again.\<close>

lemma join_groups:
  "push_bit 7 (signed_drop_bit 7 n) OR ucast ((ucast (n AND 0x7F) :: byte) AND 0x7F) = (n :: go_int)"
  "push_bit 7 (signed_drop_bit 7 n) OR ucast ((ucast (n AND 0x7F) OR 0x80 :: byte) AND 0x7F) = (n :: go_int)"
  "(ucast ((n :: go_int) AND 0x7F) :: byte) AND 0x80 = 0" "(b OR 0x80 :: byte) AND 0x80 \<noteq> 0"
proof -
  have m: "(0x7F :: go_int) = mask 7" "(0x7F :: byte) = mask 7"
    by (simp_all add: mask_eq_exp_minus_1)
  show j: "push_bit 7 (signed_drop_bit 7 n) OR ucast ((ucast (n AND 0x7F) :: byte) AND 0x7F) = n"
    unfolding m by (rule bit_word_eqI) (auto simp: bit_simps, (rule ccontr, simp)+)
  have "(x OR 0x80) AND 0x7F = x AND 0x7F" for x :: byte
    by (simp add: bit.conj_disj_distrib2)
  with j show "push_bit 7 (signed_drop_bit 7 n) OR ucast ((ucast (n AND 0x7F) OR 0x80 :: byte) AND 0x7F) = n"
    by (simp only:)
  have "(ucast (n AND 0x7F) :: byte) = ucast (n AND 0x7F) AND 0x7F"
    unfolding m by (rule bit_word_eqI) (auto simp: bit_simps)
  then have "(ucast (n AND 0x7F) :: byte) AND 0x80 = (ucast (n AND 0x7F) AND 0x7F) AND 0x80"
    by (rule arg_cong)
  then show "(ucast (n AND 0x7F) :: byte) AND 0x80 = 0"
    by (simp only: and.assoc) simp
  have "bit (0x80 :: byte) 7" by simp
  then have "bit ((b OR 0x80 :: byte) AND 0x80) 7" by (simp only: bit_and_iff bit_or_iff simp_thms)
  then show "(b OR 0x80 :: byte) AND 0x80 \<noteq> 0" by (metis bit_0_eq bot_apply bot_bool_def)
qed

lemma oid_loop_group:
  "oid_loop ((ucast (n AND 0x7F) OR 0x80) # rest) (signed_drop_bit 7 n) parts = oid_loop rest n parts"
  "oid_loop (ucast (n AND 0x7F) # rest) (signed_drop_bit 7 n) parts = oid_loop rest 0 (parts @ [int_str (sint n)])"
  using join_groups(1-3) [of n] join_groups(4) [of "ucast (n AND 0x7F)"] by (simp_all only: oid_loop.simps Let_def if_True if_False refl)

lemma oid_loop_digits:
  "0 \<le> sint n \<Longrightarrow> oid_loop (map (\<lambda>b. b OR 0x80) (base128_digits n []) @ rest) 0 parts = oid_loop rest n parts"
proof (induction "nat (sint n)" arbitrary: n rest rule: less_induct)
  case less
  show ?case
  proof (cases "0 < sint n")
    case True
    then have smaller: "nat (sint (signed_drop_bit 7 n)) < nat (sint n)" "0 \<le> sint (signed_drop_bit 7 n)"
      by (simp_all add: sint_shift)
    from less(1) [OF smaller] True show ?thesis by (simp add: base128_digits_step oid_loop_group del: oid_loop.simps)
  next
    case False
    with less.prems have "sint n = 0" by simp
    then have "n = 0" by (metis signed_0 signed_word_eqI)
    then show ?thesis by (simp add: base128_digits_end)
  qed
qed

lemma oid_loop_encodeBase128:
  "0 \<le> sint n \<Longrightarrow> oid_loop (encodeBase128 n @ rest) 0 parts = oid_loop rest 0 (parts @ [int_str (sint n)])"
proof (cases "n = 0")
  case True
  then show ?thesis by (simp add: encodeBase128_def)
next
  case False
  assume "0 \<le> sint n"
  moreover have "sint n \<noteq> 0" using False by (metis signed_0 signed_word_eqI)
  ultimately have pos: "0 < sint n" by simp
  then have "encodeBase128 n = map (\<lambda>b. b OR 0x80) (base128_digits (signed_drop_bit 7 n) []) @ [ucast (n AND 0x7F)]"
    using False by (simp add: encodeBase128_def base128_digits_step)
  moreover have "0 \<le> sint (signed_drop_bit 7 n)" using pos by (simp add: sint_shift)
  ultimately show ?thesis by (simp add: oid_loop_digits oid_loop_group del: oid_loop.simps)
qed

lemma encodeBase128_length: "length (encodeBase128 n) \<le> 9"
proof (cases "n = 0")
  case False
  have "sint n < 2 ^ 63" using sint_range_size [of n] by (simp add: word_size)
  then have "length (base128_digits n []) \<le> 9" by (intro base128_digits_length) simp
  with False show ?thesis by (simp add: encodeBase128_def Let_def)
qed (simp add: encodeBase128_def)

text \<open>The text of an identifier and the arcs whose encoding has one byte for the first two.\<close>

definition oid_text :: "nat list \<Rightarrow> string" where
  "oid_text arcs = join_sep (map nat_str arcs) ''.''"

definition encodable :: "nat list \<Rightarrow> bool" where
  "encodable arcs \<longleftrightarrow>
     (\<exists>a b ns. arcs = a # b # ns \<and> (a < 2 \<and> b < 40 \<or> a = 2 \<and> b < 176) \<and> (\<forall>n \<in> set ns. n < 2 ^ 63))"

lemma runes_ascii: "list_all is_ascii s \<Longrightarrow> runes s = map (\<lambda>c. [c]) s"
proof (induction s)
  case (Cons c s)
  then have "rune_width_str (c # s) = 1" by (simp add: rune_width_str_def str_codes_def is_ascii_def)
  with Cons show ?case by (simp add: runes.simps [of "c # s"])
qed (simp add: runes.simps)

lemma digit_ascii: "is_digit c \<Longrightarrow> is_ascii c"
  by (simp add: is_digit_def is_ascii_def)

lemma mustAtoi_digits: "list_all is_digit s \<Longrightarrow> mustAtoi s = word_of_nat (digits_val s)"
proof -
  have "foldl (\<lambda>n ch. n * 10 + word_of_int (rune_value ch - 48)) 0 (map (\<lambda>c. [c]) s) = (word_of_nat (digits_val s) :: go_int)"
    if "list_all is_digit s" for s
    using that
  proof (induction s rule: rev_induct)
    case (snoc c s)
    then have c: "48 \<le> (of_char c :: nat)" "(of_char c :: nat) < 128" by (simp_all add: is_digit_def)
    then have "int (of_char c) < 128" "int (digit_val c) = int (of_char c) - 48"
      by (simp_all add: digit_val_def of_nat_diff)
    then have "rune_value [c] - 48 = int (digit_val c)" by (simp add: rune_value_def of_nat_of_char)
    with snoc show ?case by (simp add: algebra_simps)
  qed simp
  moreover assume "list_all is_digit s"
  moreover from this have "list_all is_ascii s" by (auto simp: list_all_iff digit_ascii)
  ultimately show ?thesis by (simp add: mustAtoi_def runes_ascii)
qed

lemma mustAtoi_nat_str: "mustAtoi (nat_str n) = word_of_nat n"
  by (simp add: mustAtoi_digits nat_str_digits)

lemma split_oid_text: "arcs \<noteq> [] \<Longrightarrow> split_on CHR ''.'' (oid_text arcs) = map nat_str arcs"
proof -
  have "CHR ''.'' \<notin> set (nat_str n)" for n
    using nat_str_digits [of n] by (auto simp: list_all_iff is_digit_def)
  then show "arcs \<noteq> [] \<Longrightarrow> ?thesis" unfolding oid_text_def by (intro split_on_join) auto
qed

lemma sint_of_nat: "n < 2 ^ 63 \<Longrightarrow> sint (word_of_nat n :: go_int) = int n"
  using sint_in_range [of "int n"] by (simp add: in_int64_def min_int64_def max_int64_def)

lemma int_str_nat: "int_str (int n) = nat_str n"
  by (simp add: int_str_def)

lemma oid_loop_arcs:
  "\<forall>n \<in> set ns. n < 2 ^ 63 \<Longrightarrow>
   oid_loop (concat (map (\<lambda>n. encodeBase128 (word_of_nat n)) ns)) 0 parts = (0, parts @ map nat_str ns)"
proof (induction ns arbitrary: parts)
  case (Cons n ns)
  then have "sint (word_of_nat n :: go_int) = int n" by (simp add: sint_of_nat)
  with Cons show ?case by (simp add: oid_loop_encodeBase128 int_str_nat)
qed simp

definition oid_octets :: "nat list \<Rightarrow> bytes" where
  "oid_octets arcs =
     word_of_nat (40 * arcs ! 0 + arcs ! 1) # concat (map (\<lambda>n. encodeBase128 (word_of_nat n)) (drop 2 arcs))"

lemma small_nat_words: "m < 256 \<Longrightarrow> unat (word_of_nat m :: byte) = m"
  "m < 256 \<Longrightarrow> ucast (word_of_nat m :: go_int) = (word_of_nat m :: byte)"
  by (simp_all add: unat_of_nat unsigned_of_nat take_bit_nat_eq_self)

lemma encodeOID_text: "encodable arcs \<Longrightarrow> encodeOID (oid_text arcs) = Inr (oid_octets arcs)"
proof -
  assume "encodable arcs"
  then obtain a b ns where arcs: "arcs = a # b # ns" and ab: "40 * a + b < 256" by (auto simp: encodable_def)
  have "(word_of_nat a * 40 + word_of_nat b :: go_int) = word_of_nat (40 * a + b)" by simp
  then have "ucast (word_of_nat a * 40 + word_of_nat b :: go_int) = (word_of_nat (40 * a + b) :: byte)"
    using small_nat_words(2) [OF ab] by (simp only:)
  then show ?thesis
    by (simp add: encodeOID_def split_oid_text arcs mustAtoi_nat_str oid_octets_def o_def)
qed

lemma DecodeOID_octets: "encodable arcs \<Longrightarrow> DecodeOID (oid_octets arcs) = Inr (oid_text arcs)"
proof -
  assume "encodable arcs"
  then obtain a b ns where arcs: "arcs = a # b # ns" and ab: "a < 2 \<and> b < 40 \<or> a = 2 \<and> b < 176"
    and ns: "\<forall>n \<in> set ns. n < 2 ^ 63" by (auto simp: encodable_def)
  then have "40 * a + b < 256" by auto
  then have u: "int (unat (word_of_nat (40 * a + b) :: byte)) = int (40 * a + b)" by (simp only: small_nat_words)
  have "a = 0 \<or> a = 1 \<or> a = 2" using ab by auto
  then have parts: "(if int (40 * a + b) < 40 then [''0'', int_str (int (40 * a + b))]
      else if int (40 * a + b) < 80 then [''1'', int_str (int (40 * a + b) - 40)]
      else [''2'', int_str (int (40 * a + b) - 80)]) = [nat_str a, nat_str b]"
    using ab by (elim disjE) (auto simp: int_str_nat nat_str.simps [of 0] nat_str.simps [of "Suc 0"] nat_str.simps [of 2] digit_literals)
  show ?thesis
    unfolding DecodeOID_def oid_octets_def arcs
    by (simp only: list.case u Let_def parts nth_Cons_0 One_nat_def nth_Cons_Suc numeral_2_eq_2 drop_Suc_Cons drop_0 oid_loop_arcs [OF ns])
       (simp add: oid_text_def)
qed

lemma oid_octets_length: "length (oid_octets arcs) \<le> 1 + 9 * length arcs"
proof -
  have "length (concat (map (\<lambda>n. encodeBase128 (word_of_nat n)) ns)) \<le> 9 * length ns" for ns
  proof (induction ns)
    case (Cons n ns)
    then show ?case using encodeBase128_length [of "word_of_nat n"] by simp
  qed simp
  from this [of "drop 2 arcs"] show ?thesis by (simp add: oid_octets_def)
qed

section \<open>Messages are read back\<close>

lemma int_octets_length: "- (256 ^ k) \<le> sint n \<Longrightarrow> sint n < 256 ^ k \<Longrightarrow> length (int_octets n []) \<le> k"
proof (induction k arbitrary: n)
  case 0
  then have "sint n = 0 \<or> sint n = -1" by auto
  then have "n = 0 \<or> n = -1" by (metis signed_0 signed_minus_1 signed_word_eqI)
  then show ?case by (auto simp: int_octets_end)
next
  case (Suc k)
  show ?case
  proof (cases "n \<noteq> 0 \<and> n \<noteq> -1")
    case True
    have "sint n = 256 * (sint n div 256) + sint n mod 256" "0 \<le> sint n mod 256" "sint n mod 256 < 256" by simp_all
    then have "- (256 ^ k) \<le> sint n div 256" "sint n div 256 < 256 ^ k"
      using Suc.prems unfolding power_Suc by linarith+
    then have "length (int_octets (signed_drop_bit 8 n) []) \<le> k" by (intro Suc.IH) (simp_all add: sint_shift)
    with True show ?thesis by (simp add: int_octets_step)
  next
    case False
    then show ?thesis by (simp only: int_octets_end [OF False]) simp
  qed
qed

lemma encodeIntegerBytes_length: "encodeIntegerBytes n = Inr bs \<Longrightarrow> length bs \<le> 9"
proof -
  have "- (2 ^ 63) \<le> sint n" "sint n < 2 ^ 63"
    using sint_range_size [of n] by (simp_all add: word_size)
  then have "length (int_octets n []) \<le> 8" by (intro int_octets_length) simp_all
  then show "encodeIntegerBytes n = Inr bs \<Longrightarrow> ?thesis"
    by (auto simp: encodeIntegerBytes_def Let_def rbind_Inr_iff split: if_splits)
qed

lemma encodeVarBind_enc:
  assumes "encodable arcs" "DecodeValue (elem tag v) = Inr (ty, txt)" "9 * length arcs + length v < 2 ^ 31"
  shows "\<exists>e. encodeVarBind (oid_text arcs) (tlv_bytes tag v) = Inr e \<and>
    varbind_enc \<lparr>vb_oid = oid_text arcs, vb_type_name = ty, vb_value = txt\<rparr> e \<and>
    length e \<le> 19 + 9 * length arcs + length v"
proof -
  let ?o = "oid_octets arcs"
  let ?e = "seq_bytes [tlv_bytes 0x06 ?o, tlv_bytes tag v]"
  have o: "length ?o < 2 ^ 32" "length v < 2 ^ 32" using oid_octets_length [of arcs] assms(3) by simp_all
  have body: "length (tlv_bytes 0x06 ?o) + length (tlv_bytes tag v) \<le> 13 + 9 * length arcs + length v"
    using tlv_bytes_length [OF o(1), of "0x06"] tlv_bytes_length [OF o(2), of tag] oid_octets_length [of arcs] by simp
  with assms(3) have small: "length (concat [tlv_bytes 0x06 ?o, tlv_bytes tag v]) < 2 ^ 32" by simp
  have "tlv_prefix [elem 0x06 ?o, elem tag v] (concat [tlv_bytes 0x06 ?o, tlv_bytes tag v])"
    unfolding tlv_prefix_def
    by (rule exI [of _ "[tlv_bytes 0x06 ?o, tlv_bytes tag v]"]) (simp add: tlv_bytes_enc [OF o(1)] tlv_bytes_enc [OF o(2)])
  moreover have "is_universal (elem 0x06 ?o) 0x06"
    by (simp add: is_universal_def DecodeTagClass_def DecodeTagNumber_def)
  ultimately have "varbind_enc \<lparr>vb_oid = oid_text arcs, vb_type_name = ty, vb_value = txt\<rparr> ?e"
    unfolding varbind_enc_def seq_bytes_def
    using tlv_bytes_enc [OF small, of "0x30"] DecodeOID_octets [OF assms(1)] assms(2)
    by (intro exI [of _ "elem 0x30 (concat [tlv_bytes 0x06 ?o, tlv_bytes tag v])"] exI [of _ "elem 0x06 ?o"]
        exI [of _ "elem tag v"] exI [of _ "oid_text arcs"]) (simp add: Normalize_DecodeOID del: concat.simps)
  moreover have "length ?e \<le> 19 + 9 * length arcs + length v"
    using tlv_bytes_length [OF small, of "0x30"] body by (simp add: seq_bytes_def)
  ultimately show ?thesis
    using encodeOID_text [OF assms(1)] by (simp add: encodeVarBind_def encOID_def)
qed

text \<open>Reading an element that was written.\<close>

lemma with_tlv_written:
  assumes "unread r = tlv_bytes tag v @ rest" "length v < 2 ^ 32" "\<And>r'. unread r' = rest \<Longrightarrow> k (elem tag v) r' = R"
  shows "with_tlv r k = R"
  using with_tlv_step [OF assms(1) tlv_bytes_enc [OF assms(2)], of k] assms(3) by auto

lemma decodeVarBinds_written:
  assumes "unread r = seq_bytes es @ rest" "length (concat es) < 2 ^ 32" "list_all2 varbind_enc vbs es"
  shows "decodeVarBinds r = Inr vbs"
  unfolding decodeVarBinds_def
proof (rule with_tlv_written)
  show "unread r = tlv_bytes 0x30 (concat es) @ rest" using assms(1) by (simp add: seq_bytes_def)
  fix r'
  have "decode_items (new_reader (concat es)) [] = Inr vbs"
    using assms(3) by (auto simp: decode_items_iff)
  then show "(if tlv_tag (elem 0x30 (concat es)) \<noteq> 0x30 then Inl (ParseError ''expected varbind sequence'')
      else decode_items (new_reader (tlv_value (elem 0x30 (concat es)))) []) = Inr vbs" by simp
qed (use assms in simp)

lemma small_integers: "encodeIntegerBytes 0 = Inr [0]" "encodeIntegerBytes 1 = Inr [1]"
proof -
  have "signed_drop_bit 8 (1 :: go_int) = 0" by (rule signed_word_eqI) (simp add: sint_shift)
  then have "int_octets 1 [] = [1]" by (subst int_octets_more) (simp_all add: int_octets_end)
  then show "encodeIntegerBytes 1 = Inr [1]" by (simp add: encodeIntegerBytes_def)
qed (simp add: encodeIntegerBytes_def)

text \<open>
  A message of the generator is the encoding of a version 1 (SNMPv2c) notification with request id 1
  and no error: the parser gives the event with its varbinds.
\<close>

definition v2_trap_event ::
    "int \<Rightarrow> bytes \<Rightarrow> string \<Rightarrow> int \<Rightarrow> (string \<rightharpoonup> string) option \<Rightarrow> string \<Rightarrow> varbind list \<Rightarrow> trap_event" where
  "v2_trap_event now data ip port aliases community vbs =
     buildFields (v2_event (new_event now data ip port 1 (elem 0x04 (bytes_of_str community)) (elem 0xA7 [])) 1 0 0 vbs) aliases"

lemma parse_int_value_written: "parse_int_value (elem 0x02 [0]) = 0" "parse_int_value (elem 0x02 [1]) = 1"
  by (simp_all add: parse_int_value_def parse_int_int_str DecodeSignedBigInt_def be_val_Cons in_int64_def
      min_int64_def max_int64_def)

lemma header_elements: "is_universal (elem 0x02 v) 0x02" "is_universal (elem 0x04 v) 0x04"
  "parse_int (int_str (DecodeSignedBigInt [1])) = (None, 1)"
  by (simp_all add: is_universal_def DecodeTagClass_def DecodeTagNumber_def parse_int_int_str DecodeSignedBigInt_def
      be_val_Cons in_int64_def min_int64_def max_int64_def)

lemma parseV2_written:
  assumes "length (concat es) < 2 ^ 32" "list_all2 varbind_enc vbs es"
  shows "parseV2 event (tlv_bytes 0x02 [1] @ tlv_bytes 0x02 [0] @ tlv_bytes 0x02 [0] @ seq_bytes es) =
    Inr (v2_event event 1 0 0 vbs)"
  unfolding parseV2_def
proof ((rule with_tlv_written, simp, simp)+)
  fix r assume "unread r = seq_bytes es"
  then have "unread r = seq_bytes es @ []" by simp
  from decodeVarBinds_written [OF this assms]
  show "rbind (decodeVarBinds r) (\<lambda>varbinds. Inr (v2_event event (parse_int_value (elem 0x02 [1]))
      (parse_int_value (elem 0x02 [0])) (parse_int_value (elem 0x02 [0])) varbinds)) = Inr (v2_event event 1 0 0 vbs)"
    by (simp add: parse_int_value_written)
qed

lemma ParseTrap_written:
  assumes pdu: "parse_pdu (new_event now data ip port 1 (elem 0x04 community) (elem tag body)) (elem tag body) = Inr e0"
    and data: "data = seq_bytes parts" "parts = [tlv_bytes 0x02 [1], tlv_bytes 0x04 community, tlv_bytes tag body]"
    and size: "length (concat parts) < 2 ^ 32" "length community < 2 ^ 32" "length body < 2 ^ 32"
  shows "ParseTrap now data ip port aliases = Inr (buildFields e0 aliases)"
  unfolding ParseTrap_def
  apply (rule with_tlv_written [where rest = "[]" and v = "concat parts" and tag = "0x30"])
    apply (simp add: data(1) seq_bytes_def)
   apply (rule size(1))
  apply (simp only: elem_simps simp_thms if_False)
  apply (rule with_tlv_written [where v = "[1]" and tag = "0x02"])
    apply (simp add: data(2))
   apply simp
  apply (simp add: header_elements)
  apply (rule with_tlv_written [where v = community and tag = "0x04"])
    apply simp
   apply (rule size(2))
  apply (simp add: header_elements)
  apply (rule with_tlv_written [where v = body and tag = tag and rest = "[]"])
    apply simp
   apply (rule size(3))
  apply (simp add: pdu)
  done

lemma one_octet_length: "length (tlv_bytes tag [b]) \<le> 7"
  using tlv_bytes_length [of "[b]" tag] by simp

lemma buildV2Trap_parsed:
  assumes es: "mapM (\<lambda>b. encodeVarBind (pv_oid b) (pv_value b)) binds = Inr es"
    and enc: "list_all2 varbind_enc vbs es" and size: "length (concat es) + length community < 2 ^ 31"
  shows "\<exists>data. buildV2Trap community binds = Inr data \<and>
    ParseTrap now data ip port aliases = Inr (v2_trap_event now data ip port aliases community vbs)"
proof -
  let ?body = "tlv_bytes 0x02 [1] @ tlv_bytes 0x02 [0] @ tlv_bytes 0x02 [0] @ seq_bytes es"
  let ?parts = "[tlv_bytes 0x02 [1], tlv_bytes 0x04 (bytes_of_str community), tlv_bytes 0xA7 ?body]"
  have built: "buildV2Trap community binds = Inr (seq_bytes ?parts)"
    by (simp add: buildV2Trap_def es small_integers Let_def)
  have s1: "length (concat es) < 2 ^ 32" "length (bytes_of_str community) < 2 ^ 32" using size by simp_all
  have "length (seq_bytes es) \<le> 6 + length (concat es)"
    unfolding seq_bytes_def by (rule tlv_bytes_length) (use s1 in simp)
  then have b: "length ?body \<le> 27 + length (concat es)"
    using one_octet_length [of "0x02" 1] one_octet_length [of "0x02" 0] unfolding length_append by linarith
  with size have s2: "length ?body < 2 ^ 32" by simp
  have "length (tlv_bytes 0x04 (bytes_of_str community)) \<le> 6 + length community"
    using tlv_bytes_length [OF s1(2), of "0x04"] by simp
  with b size one_octet_length [of "0x02" 1] tlv_bytes_length [OF s2, of "0xA7"]
  have s3: "length (concat ?parts) < 2 ^ 32" by simp
  have "new_event now data ip port 1 c (elem 0xA7 ?body) = new_event now data ip port 1 c (elem 0xA7 [])" for data c
    by (simp add: new_event_def)
  with ParseTrap_written [OF _ refl refl s3 s1(2) s2] parseV2_written [OF s1(1) enc] built show ?thesis
    by (simp add: parse_pdu_def v2_trap_event_def)
qed

section \<open>The payloads\<close>

lemma fixed_oids:
  "sysUpTimeOID = oid_text [1, 3, 6, 1, 2, 1, 1, 3, 0]" "snmpTrapOID = oid_text [1, 3, 6, 1, 6, 3, 1, 1, 4, 1, 0]"
  "deviceIDOID = oid_text [1, 3, 6, 1, 4, 1, 9999, 1, 1]" "ifIndexOID = oid_text [1, 3, 6, 1, 4, 1, 9999, 1, 2]"
  by (simp_all add: sysUpTimeOID_def snmpTrapOID_def deviceIDOID_def ifIndexOID_def oid_text_def decimal_run digit_literals)

lemma fixed_encodable:
  "encodable [1, 3, 6, 1, 2, 1, 1, 3, 0]" "encodable [1, 3, 6, 1, 6, 3, 1, 1, 4, 1, 0]"
  "encodable [1, 3, 6, 1, 4, 1, 9999, 1, 1]" "encodable [1, 3, 6, 1, 4, 1, 9999, 1, 2]"
  by (simp_all add: encodable_def)

lemma written_values:
  "encodeIntegerBytes n = Inr bs \<Longrightarrow> 0 \<le> sint n \<Longrightarrow> DecodeValue (elem 0x43 bs) = Inr (''TIMETICKS'', int_str (sint n))"
  "encodable arcs \<Longrightarrow> DecodeValue (elem 0x06 (oid_octets arcs)) = Inr (''OBJECT IDENTIFIER'', oid_text arcs)"
  "utf8_valid s \<Longrightarrow> DecodeValue (elem 0x04 (bytes_of_str s)) = Inr (''OCTET STRING'', s)"
  "encodeIntegerBytes n = Inr bs \<Longrightarrow> DecodeValue (elem 0x02 bs) = Inr (''INTEGER'', int_str (sint n))"
  by (simp_all add: DecodeValue_def DecodeTagClass_def DecodeTagNumber_def encodeIntegerBytes_unsigned
      encodeIntegerBytes_signed DecodeOID_octets)

definition payload_varbinds :: "nat list \<Rightarrow> string \<Rightarrow> go_int \<Rightarrow> go_int \<Rightarrow> varbind list" where
  "payload_varbinds arcs deviceID if_index uptime =
     [\<lparr>vb_oid = sysUpTimeOID, vb_type_name = ''TIMETICKS'', vb_value = int_str (sint uptime)\<rparr>,
      \<lparr>vb_oid = snmpTrapOID, vb_type_name = ''OBJECT IDENTIFIER'', vb_value = oid_text arcs\<rparr>,
      \<lparr>vb_oid = deviceIDOID, vb_type_name = ''OCTET STRING'', vb_value = deviceID\<rparr>,
      \<lparr>vb_oid = ifIndexOID, vb_type_name = ''INTEGER'', vb_value = int_str (sint if_index)\<rparr>]"

definition payload_event ::
    "int \<Rightarrow> bytes \<Rightarrow> string \<Rightarrow> int \<Rightarrow> (string \<rightharpoonup> string) option \<Rightarrow> nat list \<Rightarrow> string \<Rightarrow> go_int \<Rightarrow> go_int \<Rightarrow> trap_event" where
  "payload_event now data ip port aliases arcs deviceID if_index uptime =
     v2_trap_event now data ip port aliases ''public'' (payload_varbinds arcs deviceID if_index uptime)"

lemma buildTrapPayload_reads:
  assumes arcs: "encodable arcs" and device: "utf8_valid deviceID"
    and size: "9 * length arcs + length deviceID < 2 ^ 30"
    and ints: "if_index \<noteq> -1" "0 \<le> sint uptime"
  shows "\<exists>data. buildTrapPayload (oid_text arcs) deviceID if_index uptime = Inr data \<and>
    ParseTrap now data ip port aliases = Inr (payload_event now data ip port aliases arcs deviceID if_index uptime)"
proof -
  have "uptime \<noteq> -1" using ints(2) by auto
  then obtain up where up: "encodeIntegerBytes uptime = Inr up" using encodeIntegerBytes_total by blast
  obtain ix where ix: "encodeIntegerBytes if_index = Inr ix" using encodeIntegerBytes_total [OF ints(1)] by blast
  note len = encodeIntegerBytes_length [OF up] encodeIntegerBytes_length [OF ix] oid_octets_length [of arcs]
  obtain e1 where e1: "encodeVarBind sysUpTimeOID (tlv_bytes 0x43 up) = Inr e1" "length e1 \<le> 200"
    "varbind_enc \<lparr>vb_oid = sysUpTimeOID, vb_type_name = ''TIMETICKS'', vb_value = int_str (sint uptime)\<rparr> e1"
    using encodeVarBind_enc [OF fixed_encodable(1) written_values(1) [OF up ints(2)]] len by (auto simp: fixed_oids)
  obtain e2 where e2: "encodeVarBind snmpTrapOID (tlv_bytes 0x06 (oid_octets arcs)) = Inr e2"
    "length e2 \<le> 200 + 9 * length arcs"
    "varbind_enc \<lparr>vb_oid = snmpTrapOID, vb_type_name = ''OBJECT IDENTIFIER'', vb_value = oid_text arcs\<rparr> e2"
    using encodeVarBind_enc [OF fixed_encodable(2) written_values(2) [OF arcs]] len size by (auto simp: fixed_oids)
  obtain e3 where e3: "encodeVarBind deviceIDOID (tlv_bytes 0x04 (bytes_of_str deviceID)) = Inr e3"
    "length e3 \<le> 200 + length deviceID"
    "varbind_enc \<lparr>vb_oid = deviceIDOID, vb_type_name = ''OCTET STRING'', vb_value = deviceID\<rparr> e3"
    using encodeVarBind_enc [OF fixed_encodable(3) written_values(3) [OF device]] size by (auto simp: fixed_oids)
  obtain e4 where e4: "encodeVarBind ifIndexOID (tlv_bytes 0x02 ix) = Inr e4" "length e4 \<le> 200"
    "varbind_enc \<lparr>vb_oid = ifIndexOID, vb_type_name = ''INTEGER'', vb_value = int_str (sint if_index)\<rparr> e4"
    using encodeVarBind_enc [OF fixed_encodable(4) written_values(4) [OF ix]] len by (auto simp: fixed_oids)
  let ?binds = "[\<lparr>pv_oid = sysUpTimeOID, pv_value = tlv_bytes 0x43 up\<rparr>,
    \<lparr>pv_oid = snmpTrapOID, pv_value = tlv_bytes 0x06 (oid_octets arcs)\<rparr>,
    \<lparr>pv_oid = deviceIDOID, pv_value = tlv_bytes 0x04 (bytes_of_str deviceID)\<rparr>,
    \<lparr>pv_oid = ifIndexOID, pv_value = tlv_bytes 0x02 ix\<rparr>]"
  have "mapM (\<lambda>b. encodeVarBind (pv_oid b) (pv_value b)) ?binds = Inr [e1, e2, e3, e4]"
    by (simp add: e1 e2 e3 e4)
  moreover have "list_all2 varbind_enc (payload_varbinds arcs deviceID if_index uptime) [e1, e2, e3, e4]"
    by (simp add: payload_varbinds_def e1 e2 e3 e4)
  moreover have "length (concat [e1, e2, e3, e4]) + length ''public'' < 2 ^ 31"
    using e1(2) e2(2) e3(2) e4(2) size by simp
  ultimately have "\<exists>data. buildV2Trap ''public'' ?binds = Inr data \<and>
    ParseTrap now data ip port aliases = Inr (payload_event now data ip port aliases arcs deviceID if_index uptime)"
    unfolding payload_event_def by (rule buildV2Trap_parsed)
  moreover have "buildTrapPayload (oid_text arcs) deviceID if_index uptime = buildV2Trap ''public'' ?binds"
    by (simp add: buildTrapPayload_def up ix encOID_def encodeOID_text [OF arcs] sysUpTimeOID_def snmpTrapOID_def)
  ultimately show ?thesis by simp
qed

section \<open>Properties\<close>

text \<open>
  C36. Integers survive the trip: for every 64-bit integer but -1 the encoder gives bytes that the relay
  decodes to that integer; for -1 it indexes an empty slice and panics.
\<close>

lemma integer_round_trip:
  "n = -1 \<and> encodeIntegerBytes n = Inl (Panic ''index out of range'') \<or>
   (\<exists>bs. encodeIntegerBytes n = Inr bs \<and> DecodeSignedBigInt bs = sint n \<and> length bs \<le> 9)"
  using encodeIntegerBytes_total encodeIntegerBytes_signed encodeIntegerBytes_length encodeIntegerBytes_minus_one
  by (cases "n = -1") blast+

text \<open>
  Object identifiers survive the trip: the text of an identifier whose first two arcs fit one byte and
  whose other arcs fit 63 bits is encoded to bytes that the relay decodes to the same text.
\<close>

lemma oid_round_trip:
  assumes "encodable arcs"
  shows "\<exists>bs. encodeOID (oid_text arcs) = Inr bs \<and> DecodeOID bs = Inr (oid_text arcs)"
  using assms encodeOID_text DecodeOID_octets by blast

lemma oid_round_trip_witness:
  "\<exists>bs. encodeOID ''1.3.6.1.4.1.9999.1.1'' = Inr bs \<and> DecodeOID bs = Inr ''1.3.6.1.4.1.9999.1.1''"
  using oid_round_trip [OF fixed_encodable(3)] fixed_oids(3) by (simp add: deviceIDOID_def)

text \<open>The encoding of 2.999 wraps the first byte: the decoder reads another identifier.\<close>

lemma encodeOID_first_byte_wraps: "\<exists>bs. encodeOID ''2.999'' = Inr bs \<and> DecodeOID bs = Inr ''1.15''"
proof -
  have "oid_text [2, 999] = ''2.999''" by (simp add: oid_text_def decimal_run digit_literals)
  moreover have "encodeOID (oid_text [2, 999]) = Inr [ucast (word_of_nat 2 * 40 + word_of_nat 999 :: go_int)]"
    by (simp only: encodeOID_def split_oid_text list.map list.case concat.simps list.distinct simp_thms mustAtoi_nat_str)
  ultimately have "encodeOID ''2.999'' = Inr [ucast (word_of_nat 2 * 40 + word_of_nat 999 :: go_int)]"
    by (simp only:)
  then have "encodeOID ''2.999'' = Inr [55]" by simp
  then show ?thesis by (simp add: DecodeOID_def decimal_run digit_literals)
qed

lemma payload_event_fields:
  assumes "encodable arcs" "0 \<le> sint uptime"
  shows "ev_trap_oid (payload_event now data ip port aliases arcs deviceID if_index uptime) = oid_text arcs \<and>
    ev_uptime (payload_event now data ip port aliases arcs deviceID if_index uptime) = int_str (sint uptime)"
proof -
  let ?vbs = "payload_varbinds arcs deviceID if_index uptime"
  have l: "raw_varbind_map ?vbs snmpTrapOID = Some (oid_text arcs)" "raw_varbind_map ?vbs sysUpTimeOID = Some (int_str (sint uptime))"
    by (simp_all add: raw_varbind_map_def payload_varbinds_def snmpTrapOID_def sysUpTimeOID_def deviceIDOID_def ifIndexOID_def)
  have "Normalize (oid_text arcs) = oid_text arcs" by (rule Normalize_DecodeOID [OF DecodeOID_octets [OF assms(1)]])
  moreover have "Normalize (int_str (sint uptime)) = int_str (sint uptime)"
  proof -
    obtain c t where t: "int_str (sint uptime) = c # t" by (cases "int_str (sint uptime)") simp_all
    have "is_digit c" using assms(2) nat_str_digits [of "nat (sint uptime)"] t by (simp add: int_str_def)
    then show ?thesis using int_str_last_digit [of "sint uptime"] unfolding t by (rule Normalize_digit_ends)
  qed
  moreover have "oid_text arcs \<noteq> []"
    using assms(1) by (auto simp: oid_text_def encodable_def)
  ultimately show ?thesis
    by (simp add: payload_event_def v2_trap_event_def buildFields_def v2_event_def Let_def str_get_def l)
qed

text \<open>
  C21. Trap messages survive the trip: if the arcs of a trap OID are encodable (the first 0 or 1 and the second below 40,
  or the first 2 and the second below 176, the others below \<open>2 ^ 63\<close>), the device name is valid UTF-8, nine times the
  number of arcs and the length of the name add up to less than \<open>2 ^ 30\<close>, the interface index is not -1 and the
  uptime is not negative, then the datagram built from them is parsed to the SNMPv2c event with that trap OID, that
  uptime and exactly the four varbinds it was built from.
\<close>

lemma payload_round_trip:
  assumes "encodable arcs" "utf8_valid deviceID" "9 * length arcs + length deviceID < 2 ^ 30"
    and "if_index \<noteq> -1" "0 \<le> sint uptime"
  shows "\<exists>data e. buildTrapPayload (oid_text arcs) deviceID if_index uptime = Inr data \<and>
    ParseTrap now data ip port aliases = Inr e \<and> ev_raw_bytes e = data \<and> ev_version e = 1 \<and>
    ev_community e = ''public'' \<and> ev_trap_oid e = oid_text arcs \<and> ev_uptime e = int_str (sint uptime) \<and>
    ev_varbinds e = payload_varbinds arcs deviceID if_index uptime"
proof -
  obtain data where data: "buildTrapPayload (oid_text arcs) deviceID if_index uptime = Inr data"
    "ParseTrap now data ip port aliases = Inr (payload_event now data ip port aliases arcs deviceID if_index uptime)"
    using buildTrapPayload_reads [OF assms] by blast
  then show ?thesis
    using payload_event_fields [OF assms(1,5)]
    by (intro exI [of _ data] exI [of _ "payload_event now data ip port aliases arcs deviceID if_index uptime"])
       (simp add: payload_event_def v2_trap_event_def buildFields_def v2_event_def new_event_def Let_def)
qed

lemma payload_round_trip_witness:
  "\<exists>data e. buildTrapPayload ''1.3.6.1.4.1.9999.1.1'' ''device-01'' 2 100010 = Inr data \<and>
     ParseTrap 5 data ''10.0.0.1'' 162 None = Inr e \<and> ev_trap_oid e = ''1.3.6.1.4.1.9999.1.1'' \<and>
     map vb_value (ev_varbinds e) = [''100010'', ''1.3.6.1.4.1.9999.1.1'', ''device-01'', ''2'']"
proof -
  have "utf8_valid ''device-01''" by (rule utf8_valid_ascii) (simp add: is_ascii_def)
  from payload_round_trip [OF fixed_encodable(3) this, of 2 100010 5 "''10.0.0.1''" 162 None]
  obtain data e where e: "buildTrapPayload deviceIDOID ''device-01'' 2 100010 = Inr data"
    "ParseTrap 5 data ''10.0.0.1'' 162 None = Inr e" "ev_trap_oid e = deviceIDOID"
    "ev_varbinds e = payload_varbinds [1, 3, 6, 1, 4, 1, 9999, 1, 1] ''device-01'' 2 100010"
    by (auto simp: fixed_oids(3))
  have "map vb_value (ev_varbinds e) = [''100010'', deviceIDOID, ''device-01'', ''2'']"
    unfolding e(4) by (simp add: payload_varbinds_def fixed_oids(3) decimal_run digit_literals)
  with e show ?thesis unfolding deviceIDOID_def by (intro exI conjI)
qed

end
