(* ===== verification/Memory_Limit.thy ===== *)
theory Memory_Limit
  imports Relay_Model
begin

text \<open>
  \<open>internal/config/memory_limit.go\<close>: the parser of the memory limit. The product of number and unit
  is computed on 64 bits, as in Go; the lemmas show that the overflow test before it is exact.
\<close>

definition memoryLimitUnits :: "string \<rightharpoonup> int" where
  "memoryLimitUnits =
     [[] \<mapsto> 1, ''B'' \<mapsto> 1, ''KB'' \<mapsto> 1000, ''MB'' \<mapsto> 1000 * 1000, ''GB'' \<mapsto> 1000 * 1000 * 1000,
      ''TB'' \<mapsto> 1000 * 1000 * 1000 * 1000, ''KIB'' \<mapsto> 1024, ''MIB'' \<mapsto> 1024 * 1024,
      ''GIB'' \<mapsto> 1024 * 1024 * 1024, ''TIB'' \<mapsto> 1024 * 1024 * 1024 * 1024]"

text \<open>\<open>a * b\<close> on \<^verbatim>\<open>int64\<close>.\<close>

definition mul_int64 :: "int \<Rightarrow> int \<Rightarrow> int" where
  "mul_int64 a b = sint (word_of_int a * word_of_int b :: go_int)"

definition ParseMemoryLimit :: "string \<Rightarrow> int res" where
  "ParseMemoryLimit v =
     (let trimmed = trim_space v in
      if trimmed = [] then Inr 0
      else let upper = to_upper trimmed in
      if upper = ''OFF'' \<or> upper = ''NONE'' \<or> upper = ''UNLIMITED'' then Inr max_int64
      else let number_part = takeWhile is_digit trimmed; rest = dropWhile is_digit trimmed in
      if number_part = [] then Inl (Errorf ''must start with a positive integer'' [])
      else let unit_part = to_upper (trim_space rest) in
      case parse_int number_part of
        (Some e, _) \<Rightarrow> Inl (Wrapf ''invalid numeric value: %w'' [] e)
      | (None, n) \<Rightarrow>
          if n \<le> 0 then Inl (Errorf ''must be greater than 0'' [])
          else case memoryLimitUnits unit_part of
              None \<Rightarrow> Inl (Errorf ''unsupported unit %q'' [trim_space rest])
            | Some multiplier \<Rightarrow>
                if max_int64 div multiplier < n then Inl (Errorf ''value overflows int64'' [])
                else Inr (mul_int64 n multiplier))"

lemmas memory_run [run_simps] = memoryLimitUnits_def mul_int64_def ParseMemoryLimit_def

section \<open>Exactness\<close>

lemma memoryLimitUnits_pos: "memoryLimitUnits u = Some m \<Longrightarrow> 0 < m"
  by (auto simp: memoryLimitUnits_def split: if_splits)

lemma mul_int64_exact: "in_int64 (a * b) \<Longrightarrow> mul_int64 a b = a * b"
proof -
  assume "in_int64 (a * b)"
  moreover have "(word_of_int a * word_of_int b :: go_int) = word_of_int (a * b)" by simp
  ultimately show ?thesis by (simp only: mul_int64_def sint_in_range)
qed

lemma overflow_test:
  assumes "0 < m"
  shows "\<not> max_int64 div m < n \<longleftrightarrow> n * m \<le> max_int64"
proof
  assume "\<not> max_int64 div m < n"
  then have "n * m \<le> (max_int64 div m) * m" using assms by (intro mult_right_mono) simp_all
  also have "\<dots> \<le> max_int64"
    using pos_mod_sign [OF assms, of max_int64] minus_mod_eq_div_mult [of max_int64 m] by linarith
  finally show "n * m \<le> max_int64" .
next
  assume "n * m \<le> max_int64"
  then have "(n * m) div m \<le> max_int64 div m" using assms by (rule zdiv_mono1)
  then show "\<not> max_int64 div m < n" using assms by simp
qed

text \<open>The texts that print a number and one of the units, upper-case as in the table.\<close>

definition unit_texts :: "string list" where
  "unit_texts = [[], ''B'', ''KB'', ''MB'', ''GB'', ''TB'', ''KIB'', ''MIB'', ''GIB'', ''TIB'']"

lemma unit_texts_table: "u \<in> set unit_texts \<longleftrightarrow> memoryLimitUnits u \<noteq> None"
  by (auto simp: unit_texts_def memoryLimitUnits_def)

lemma unit_letters:
  assumes "u \<in> set unit_texts"
  shows "list_all solid u" "to_upper u = u" "takeWhile is_digit u = []" "dropWhile is_digit u = u" "trim_space u = u"
proof -
  show s: "list_all solid u"
    using assms by (auto simp: unit_texts_def solid_def space_runes_def)
  show "to_upper u = u" "takeWhile is_digit u = []" "dropWhile is_digit u = u"
    using assms by (auto simp: unit_texts_def upper_char_def is_digit_def)
  show "trim_space u = u" by (rule trim_space_all_solid [OF s])
qed

lemma int_str_digits: "0 \<le> n \<Longrightarrow> list_all is_digit (int_str n)"
  using nat_str_digits by (simp add: int_str_def)

lemma ParseMemoryLimit_prints:
  assumes "0 < n" "n \<le> max_int64" "memoryLimitUnits u = Some m"
  shows "ParseMemoryLimit (int_str n @ u) =
    (if n * m \<le> max_int64 then Inr (n * m) else Inl (Errorf ''value overflows int64'' []))"
proof -
  have u: "u \<in> set unit_texts" using assms(3) by (simp add: unit_texts_table)
  note ul = unit_letters [OF u]
  have m: "0 < m" using assms(3) by (rule memoryLimitUnits_pos)
  have d: "list_all is_digit (int_str n)" using assms(1) by (intro int_str_digits) simp
  obtain c s where cs: "int_str n = c # s" by (cases "int_str n") simp_all
  with d have c: "is_digit c" by simp
  have "list_all solid (int_str n)"
    using d by (auto simp: list_all_iff is_digit_def solid_def space_runes_def)
  then have trim: "trim_space (int_str n @ u) = int_str n @ u"
    using ul(1) by (intro trim_space_all_solid) simp
  have "hd (to_upper (c # t)) = c" for t
    using c by (auto simp: is_digit_def upper_char_def)
  then have "hd (to_upper (int_str n @ u)) = c" by (simp add: cs)
  then have off: "to_upper (int_str n @ u) \<noteq> ''OFF''" "to_upper (int_str n @ u) \<noteq> ''NONE''"
    "to_upper (int_str n @ u) \<noteq> ''UNLIMITED''"
    using c by (auto simp: is_digit_def)
  have tw: "takeWhile is_digit (int_str n @ u) = int_str n" "dropWhile is_digit (int_str n @ u) = u"
    using d ul(3,4) by (simp_all add: takeWhile_append dropWhile_append list_all_iff)
  have p: "parse_int (int_str n) = (None, n)"
    using assms(1,2) by (simp add: parse_int_int_str in_int64_def min_int64_def)
  have "0 < n * m" using assms(1) m by simp
  then have "n * m \<le> max_int64 \<Longrightarrow> in_int64 (n * m)"
    by (simp add: in_int64_def min_int64_def)
  then show ?thesis
    using overflow_test [OF m, of n] assms(1,3) ul(2,5)
    unfolding ParseMemoryLimit_def Let_def trim tw
    by (auto simp: off p mul_int64_exact)
qed

lemma ParseMemoryLimit_range:
  assumes "ParseMemoryLimit v = Inr x"
  shows "0 \<le> x \<and> x \<le> max_int64"
proof -
  have "x = 0 \<or> x = max_int64 \<or>
    (\<exists>n m u. 0 < n \<and> memoryLimitUnits u = Some m \<and> \<not> max_int64 div m < n \<and> x = mul_int64 n m)"
    using assms
    by (auto simp: ParseMemoryLimit_def Let_def not_le split: if_splits prod.splits option.splits)
  then show ?thesis
  proof (elim disjE exE conjE)
    fix n m u
    assume n: "0 < n" and u: "memoryLimitUnits u = Some m" and t: "\<not> max_int64 div m < n"
      and x: "x = mul_int64 n m"
    have m: "0 < m" using u by (rule memoryLimitUnits_pos)
    with t have le: "n * m \<le> max_int64" by (simp add: overflow_test)
    moreover have "0 < n * m" using n m by simp
    ultimately have "mul_int64 n m = n * m"
      by (intro mul_int64_exact) (simp add: in_int64_def min_int64_def)
    with x le \<open>0 < n * m\<close> show ?thesis by simp
  qed (simp_all add: max_int64_def)
qed

section \<open>What is accepted\<close>

text \<open>The values \<open>ParseMemoryLimit\<close> accepts, as a relation over the unbounded integers.\<close>

definition memory_limit_text :: "string \<Rightarrow> int \<Rightarrow> bool" where
  "memory_limit_text t x \<longleftrightarrow>
     t = [] \<and> x = 0 \<or>
     to_upper t \<in> {''OFF'', ''NONE'', ''UNLIMITED''} \<and> x = max_int64 \<or>
     (\<exists>num unit m. t = num @ unit \<and> num \<noteq> [] \<and> list_all is_digit num \<and>
        (unit = [] \<or> \<not> is_digit (hd unit)) \<and>
        memoryLimitUnits (to_upper (trim_space unit)) = Some m \<and>
        0 < digits_val num \<and> x = int (digits_val num) * m \<and> x \<le> max_int64)"

lemma digit_upper: "is_digit c \<Longrightarrow> to_upper (c # s) \<notin> {''OFF'', ''NONE'', ''UNLIMITED''}"
  by (auto simp: is_digit_def upper_char_def)

lemma leading_digits:
  "num \<noteq> [] \<and> list_all is_digit num \<and> (rest = [] \<or> \<not> is_digit (hd rest)) \<and> t = num @ rest \<longleftrightarrow>
   num \<noteq> [] \<and> num = takeWhile is_digit t \<and> rest = dropWhile is_digit t"
proof
  assume a: "num \<noteq> [] \<and> list_all is_digit num \<and> (rest = [] \<or> \<not> is_digit (hd rest)) \<and> t = num @ rest"
  then have "takeWhile is_digit rest = []" "dropWhile is_digit rest = rest"
    by (cases rest; simp)+
  with a show "num \<noteq> [] \<and> num = takeWhile is_digit t \<and> rest = dropWhile is_digit t"
    by (simp add: takeWhile_append dropWhile_append list_all_iff)
next
  assume "num \<noteq> [] \<and> num = takeWhile is_digit t \<and> rest = dropWhile is_digit t"
  moreover have "dropWhile is_digit t = [] \<or> \<not> is_digit (hd (dropWhile is_digit t))"
    by (meson hd_dropWhile)
  moreover have "list_all is_digit (takeWhile is_digit t)"
    by (auto simp: list_all_iff dest: set_takeWhileD)
  ultimately show "num \<noteq> [] \<and> list_all is_digit num \<and> (rest = [] \<or> \<not> is_digit (hd rest)) \<and> t = num @ rest"
    by (metis takeWhile_dropWhile_id)
qed

lemma memory_limit_number:
  assumes num: "num \<noteq> []" "num = takeWhile is_digit (trim_space v)"
    and rest: "rest = dropWhile is_digit (trim_space v)"
  shows "ParseMemoryLimit v = Inr x \<longleftrightarrow>
    (\<exists>m. memoryLimitUnits (to_upper (trim_space rest)) = Some m \<and> 0 < digits_val num \<and>
         x = int (digits_val num) * m \<and> x \<le> max_int64)"
proof -
  have digits: "list_all is_digit num" using num by (auto simp: list_all_iff dest: set_takeWhileD)
  have t: "trim_space v = num @ rest" using num rest by simp
  obtain c s where "num = c # s" "is_digit c" using num(1) digits by (cases num) auto
  with t digit_upper [of c "s @ rest"] have off: "trim_space v \<noteq> []"
    "to_upper (trim_space v) \<noteq> ''OFF''" "to_upper (trim_space v) \<noteq> ''NONE''"
    "to_upper (trim_space v) \<noteq> ''UNLIMITED''"
    by auto
  let ?n = "int (digits_val num)" and ?u = "memoryLimitUnits (to_upper (trim_space rest))"
  have n: "?n \<le> ?n * m" if "?u = Some m" for m
    using memoryLimitUnits_pos [OF that] by (simp add: mult_le_cancel_left1)
  have exact: "mul_int64 ?n m = ?n * m" if "?n * m \<le> max_int64" "?u = Some m" for m
    using memoryLimitUnits_pos [OF that(2)] that(1)
    by (intro mul_int64_exact) (simp add: in_int64_def min_int64_def order.trans [of _ 0])
  have "ParseMemoryLimit v = Inr x \<longleftrightarrow>
    ?n \<le> max_int64 \<and> 0 < ?n \<and> (\<exists>m. ?u = Some m \<and> ?n * m \<le> max_int64 \<and> x = mul_int64 ?n m)"
    unfolding ParseMemoryLimit_def Let_def num(2) [symmetric] rest [symmetric]
    using off num(1) parse_int_digits [OF num(1) digits] overflow_test [OF memoryLimitUnits_pos, of _ _ ?n]
    by (auto split: option.splits if_splits)
  also have "\<dots> \<longleftrightarrow> (\<exists>m. ?u = Some m \<and> 0 < digits_val num \<and> x = ?n * m \<and> x \<le> max_int64)"
    using n exact by (auto intro: order.trans)
  finally show ?thesis .
qed

lemma ParseMemoryLimit_accepts: "ParseMemoryLimit v = Inr x \<longleftrightarrow> memory_limit_text (trim_space v) x"
proof (cases "takeWhile is_digit (trim_space v) = []")
  case True
  have "\<not> (num \<noteq> [] \<and> list_all is_digit num \<and> trim_space v = num @ r)" for num r
    using True by (cases num) auto
  then show ?thesis
    using True by (auto simp: ParseMemoryLimit_def memory_limit_text_def Let_def)
next
  case False
  let ?num = "takeWhile is_digit (trim_space v)" and ?rest = "dropWhile is_digit (trim_space v)"
  obtain c s where "trim_space v = c # s" "is_digit c"
    using False by (cases "trim_space v") (auto split: if_splits)
  then have "trim_space v \<noteq> []" "to_upper (trim_space v) \<notin> {''OFF'', ''NONE'', ''UNLIMITED''}"
    using digit_upper [of c s] by simp_all
  then have "memory_limit_text (trim_space v) x \<longleftrightarrow>
    (\<exists>num unit m. (num \<noteq> [] \<and> num = ?num \<and> unit = ?rest) \<and>
        memoryLimitUnits (to_upper (trim_space unit)) = Some m \<and>
        0 < digits_val num \<and> x = int (digits_val num) * m \<and> x \<le> max_int64)"
    unfolding leading_digits [symmetric] memory_limit_text_def by blast
  also have "\<dots> \<longleftrightarrow> ParseMemoryLimit v = Inr x"
    unfolding memory_limit_number [OF False refl refl] using False by blast
  finally show ?thesis by simp
qed

section \<open>The property\<close>

text \<open>
  C29. \<open>ParseMemoryLimit\<close> accepts exactly the texts that, trimmed, are empty (0), one of off, none and
  unlimited in any case (the largest 64-bit integer), or a positive decimal number followed by one of
  the ten units in any case whose product, taken over the unbounded integers, fits 64 bits: the value
  is that product, never a wrapped one.
\<close>

theorem ParseMemoryLimit_exact:
  "ParseMemoryLimit v = Inr x \<longleftrightarrow> memory_limit_text (trim_space v) x"
  by (rule ParseMemoryLimit_accepts)

end
