(* ===== verification/Relay_Config.thy ===== *)
theory Relay_Config
  imports Memory_Limit
begin

text \<open>
  \<open>internal/config/config.go\<close>: loading a configuration. \<open>os.ReadFile\<close> and \<open>yaml.Unmarshal\<close> are the
  parameters \<open>read_file\<close> and \<open>unmarshal\<close>. The validator also completes the configuration (filter
  actions, TTLs and key fields of the alarms), so it returns the configuration it leaves behind.
\<close>

section \<open>Defaults\<close>

definition str_default :: "string \<Rightarrow> string \<Rightarrow> string" where
  "str_default d s = (if s = [] then d else s)"

definition int_default :: "int \<Rightarrow> int \<Rightarrow> int" where
  "int_default d n = (if n = 0 then d else n)"

definition default_server :: "server_config \<Rightarrow> server_config" where
  "default_server s =
     s\<lparr>sc_host := str_default ''0.0.0.0'' (sc_host s),
       sc_port := int_default 162 (sc_port s),
       sc_max_datagram_size := int_default 8192 (sc_max_datagram_size s),
       sc_cleanup_interval_seconds := int_default 30 (sc_cleanup_interval_seconds s),
       sc_max_dedup_entries := int_default 10000 (sc_max_dedup_entries s),
       sc_queue_size := int_default 1024 (sc_queue_size s),
       sc_worker_count := int_default 1 (sc_worker_count s),
       sc_stats_log_interval_secs := int_default 60 (sc_stats_log_interval_secs s)\<rparr>"

definition default_metrics :: "metrics_config \<Rightarrow> metrics_config" where
  "default_metrics m =
     m\<lparr>mc_host := str_default ''127.0.0.1'' (mc_host m), mc_port := int_default 9163 (mc_port m),
       mc_path := str_default ''/metrics'' (mc_path m)\<rparr>"

definition default_user :: "v3_user_config \<Rightarrow> v3_user_config" where
  "default_user u =
     u\<lparr>v3_user_name := trim_space (v3_user_name u),
       v3_auth_protocol := to_lower (trim_space (v3_auth_protocol u)),
       v3_priv_protocol := to_lower (trim_space (v3_priv_protocol u))\<rparr>"

definition applyDefaults :: "app_config \<Rightarrow> app_config" where
  "applyDefaults c =
     c\<lparr>ac_server := default_server (ac_server c),
       ac_metrics := default_metrics (ac_metrics c),
       ac_logging := (ac_logging c)\<lparr>lc_level := str_default ''INFO'' (lc_level (ac_logging c)),
                                    lc_format := str_default ''text'' (lc_format (ac_logging c))\<rparr>,
       ac_receiver := (ac_receiver c)\<lparr>rv_v3_users := map default_user (rv_v3_users (ac_receiver c))\<rparr>,
       ac_field_aliases := (case ac_field_aliases c of None \<Rightarrow> Some Map.empty | Some m \<Rightarrow> Some m),
       ac_filters := (ac_filters c)\<lparr>fl_default_action :=
         to_lower (str_default ''keep'' (fl_default_action (ac_filters c)))\<rparr>,
       ac_dedup_defaults := (ac_dedup_defaults c)\<lparr>dd_ttl_seconds :=
         int_default 300 (dd_ttl_seconds (ac_dedup_defaults c))\<rparr>\<rparr>"

section \<open>Validation\<close>

text \<open>\<open>if bad { return fmt.Errorf(format, args) }\<close>.\<close>

definition reject_if :: "bool \<Rightarrow> string \<Rightarrow> string list \<Rightarrow> unit res" where
  "reject_if bad format args = (if bad then Inl (Errorf format args) else Inr ())"

definition check_memory :: "runtime_config \<Rightarrow> unit res" where
  "check_memory r =
     (if trim_space (rc_memory_limit r) \<noteq> []
      then (case ParseMemoryLimit (rc_memory_limit r) of
              Inl e \<Rightarrow> Inl (Wrapf ''runtime.memory_limit: %w'' [] e)
            | Inr _ \<Rightarrow> Inr ())
      else Inr ())"

definition check_server :: "server_config \<Rightarrow> unit res" where
  "check_server s =
     rbind (reject_if (sc_port s < 0 \<or> 65535 < sc_port s) ''server.port must be between 0 and 65535'' []) (\<lambda>_.
     rbind (reject_if (sc_max_datagram_size s \<le> 0) ''server.max_datagram_size must be greater than 0'' []) (\<lambda>_.
     rbind (reject_if (sc_cleanup_interval_seconds s \<le> 0) ''server.cleanup_interval_seconds must be greater than 0'' []) (\<lambda>_.
     rbind (reject_if (sc_max_dedup_entries s \<le> 0) ''server.max_dedup_entries must be greater than 0'' []) (\<lambda>_.
     rbind (reject_if (sc_queue_size s \<le> 0) ''server.queue_size must be greater than 0'' []) (\<lambda>_.
     rbind (reject_if (sc_worker_count s \<le> 0) ''server.worker_count must be greater than 0'' []) (\<lambda>_.
     reject_if (sc_stats_log_interval_secs s < 0)
       ''server.stats_log_interval_seconds must be greater than or equal to 0'' []))))))"

definition check_metrics :: "metrics_config \<Rightarrow> unit res" where
  "check_metrics m =
     (if mc_enabled m
      then rbind (reject_if (mc_port m < 0 \<or> 65535 < mc_port m) ''metrics.port must be between 0 and 65535'' []) (\<lambda>_.
           reject_if (\<not> has_prefix (mc_path m) ''/'') ''metrics.path must start with /'' [])
      else Inr ())"

fun check_users :: "v3_user_config list \<Rightarrow> unit res" where
  "check_users [] = Inr ()"
| "check_users (u # us) =
     rbind (reject_if (v3_user_name u = []) ''receiver.v3_users[].user_name is required'' []) (\<lambda>_. check_users us)"

text \<open>The action of a filter rule in lower case; none means drop.\<close>

definition rule_action :: "filter_rule_config \<Rightarrow> string" where
  "rule_action r = str_default ''drop'' (to_lower (fr_action r))"

text \<open>The two loops over the filter rules: the first checks, the second fills in the actions.\<close>

fun check_filters :: "filter_rule_config list \<Rightarrow> (string \<rightharpoonup> string) \<Rightarrow> (string \<rightharpoonup> string) res" where
  "check_filters [] seen = Inr seen"
| "check_filters (r # rs) seen =
     rbind (reject_if (fr_id r = []) ''filters rule id is required'' []) (\<lambda>_.
     rbind (reject_if (seen (''filter:'' @ fr_id r) \<noteq> None) ''duplicate rule id %q'' [fr_id r]) (\<lambda>_.
     rbind (reject_if (rule_action r \<noteq> ''drop'' \<and> rule_action r \<noteq> ''keep'')
       ''filter rule %q has unsupported action %q'' [fr_id r, fr_action r]) (\<lambda>_.
     check_filters rs (seen(''filter:'' @ fr_id r \<mapsto> fr_id r)))))"

definition fill_filter :: "filter_rule_config \<Rightarrow> filter_rule_config" where
  "fill_filter r = r\<lparr>fr_action := rule_action r\<rparr>"

definition fill_alarm :: "dedup_config \<Rightarrow> alarm_rule_config \<Rightarrow> alarm_rule_config" where
  "fill_alarm d a =
     a\<lparr>al_dedup := (al_dedup a)\<lparr>
         dd_ttl_seconds := int_default (dd_ttl_seconds d) (dd_ttl_seconds (al_dedup a)),
         dd_key_fields := (if dd_key_fields (al_dedup a) = [] then dd_key_fields d
                           else dd_key_fields (al_dedup a))\<rparr>\<rparr>"

fun fill_alarms :: "dedup_config \<Rightarrow> alarm_rule_config list \<Rightarrow> (string \<rightharpoonup> string) \<Rightarrow> alarm_rule_config list res" where
  "fill_alarms d [] seen = Inr []"
| "fill_alarms d (a # as) seen =
     rbind (reject_if (al_id a = []) ''alarm rule id is required'' []) (\<lambda>_.
     rbind (reject_if (seen (''alarm:'' @ al_id a) \<noteq> None) ''duplicate rule id %q'' [al_id a]) (\<lambda>_.
     rbind (reject_if (dd_key_fields (al_dedup (fill_alarm d a)) = []) ''alarm %q requires dedup.key_fields'' [al_id a]) (\<lambda>_.
     rbind (fill_alarms d as (seen(''alarm:'' @ al_id a \<mapsto> al_id a))) (\<lambda>as'.
     Inr (fill_alarm d a # as')))))"

fun check_clears :: "alarm_rule_config list \<Rightarrow> unit res" where
  "check_clears [] = Inr ()"
| "check_clears (a # as) =
     rbind (reject_if (case dd_clear (al_dedup a) of None \<Rightarrow> False | Some c \<Rightarrow> ms_raw (dc_match c) = [])
       ''alarm %q dedup.clear.match is required'' [al_id a]) (\<lambda>_.
     rbind (reject_if (dd_hold_until_clear (al_dedup a) \<and> dd_clear (al_dedup a) = None)
       ''alarm %q requires dedup.clear when dedup.hold_until_clear is true'' [al_id a]) (\<lambda>_.
     check_clears as))"

definition validate :: "app_config \<Rightarrow> app_config res" where
  "validate c =
     rbind (check_memory (ac_runtime c)) (\<lambda>_.
     rbind (check_server (ac_server c)) (\<lambda>_.
     rbind (check_metrics (ac_metrics c)) (\<lambda>_.
     rbind (reject_if (fl_default_action (ac_filters c) \<noteq> ''keep'' \<and> fl_default_action (ac_filters c) \<noteq> ''drop'')
       ''filters.default_action must be keep or drop'' []) (\<lambda>_.
     rbind (check_users (rv_v3_users (ac_receiver c))) (\<lambda>_.
     rbind (check_filters (fl_rules (ac_filters c)) Map.empty) (\<lambda>seen.
     rbind (fill_alarms (ac_dedup_defaults c) (ac_alarms c) seen) (\<lambda>alarms.
     rbind (check_clears alarms) (\<lambda>_.
     Inr (c\<lparr>ac_filters := (ac_filters c)\<lparr>fl_rules := map fill_filter (fl_rules (ac_filters c))\<rparr>,
            ac_alarms := alarms\<rparr>)))))))))"

definition Load :: "(string \<Rightarrow> bytes res) \<Rightarrow> (bytes \<Rightarrow> app_config res) \<Rightarrow> string \<Rightarrow> app_config res" where
  "Load read_file unmarshal path =
     rbind (read_file path) (\<lambda>data.
     rbind (unmarshal data) (\<lambda>c. validate (applyDefaults c)))"

lemmas config_run [run_simps] =
  str_default_def int_default_def default_server_def default_metrics_def default_user_def applyDefaults_def
  reject_if_def check_memory_def check_server_def check_metrics_def rule_action_def fill_filter_def
  fill_alarm_def validate_def Load_def

section \<open>What is accepted\<close>

text \<open>The configuration the validator leaves behind.\<close>

definition filled :: "app_config \<Rightarrow> app_config" where
  "filled c =
     c\<lparr>ac_filters := (ac_filters c)\<lparr>fl_rules := map fill_filter (fl_rules (ac_filters c))\<rparr>,
       ac_alarms := map (fill_alarm (ac_dedup_defaults c)) (ac_alarms c)\<rparr>"

definition wf_server :: "server_config \<Rightarrow> bool" where
  "wf_server s \<longleftrightarrow>
     0 \<le> sc_port s \<and> sc_port s \<le> 65535 \<and> 0 < sc_max_datagram_size s \<and> 0 < sc_cleanup_interval_seconds s \<and>
     0 < sc_max_dedup_entries s \<and> 0 < sc_queue_size s \<and> 0 < sc_worker_count s \<and>
     0 \<le> sc_stats_log_interval_secs s"

definition wf_metrics :: "metrics_config \<Rightarrow> bool" where
  "wf_metrics m \<longleftrightarrow>
     (mc_enabled m \<longrightarrow> 0 \<le> mc_port m \<and> mc_port m \<le> 65535 \<and> has_prefix (mc_path m) ''/'')"

definition wf_filters :: "filters_config \<Rightarrow> bool" where
  "wf_filters f \<longleftrightarrow>
     fl_default_action f \<in> {''keep'', ''drop''} \<and>
     list_all (\<lambda>r. fr_id r \<noteq> [] \<and> fr_action r \<in> {''drop'', ''keep''}) (fl_rules f) \<and>
     distinct (map fr_id (fl_rules f))"

definition wf_clear :: "dedup_config \<Rightarrow> bool" where
  "wf_clear d \<longleftrightarrow>
     (\<forall>c. dd_clear d = Some c \<longrightarrow> ms_raw (dc_match c) \<noteq> []) \<and>
     (dd_hold_until_clear d \<longrightarrow> dd_clear d \<noteq> None)"

definition wf_alarms :: "alarm_rule_config list \<Rightarrow> bool" where
  "wf_alarms as \<longleftrightarrow>
     list_all (\<lambda>a. al_id a \<noteq> [] \<and> dd_key_fields (al_dedup a) \<noteq> [] \<and> wf_clear (al_dedup a)) as \<and>
     distinct (map al_id as)"

definition wf_config :: "app_config \<Rightarrow> bool" where
  "wf_config c \<longleftrightarrow>
     (\<exists>x. memory_limit_text (trim_space (rc_memory_limit (ac_runtime c))) x) \<and>
     wf_server (ac_server c) \<and> wf_metrics (ac_metrics c) \<and> wf_filters (ac_filters c) \<and>
     list_all (\<lambda>u. v3_user_name u \<noteq> []) (rv_v3_users (ac_receiver c)) \<and> wf_alarms (ac_alarms c)"

lemma reject_if_Inr [simp]: "reject_if b f args = Inr u \<longleftrightarrow> \<not> b"
  by (simp add: reject_if_def)

lemma reject_if_False [simp]: "reject_if False f args = Inr ()"
  by (simp add: reject_if_def)

lemma check_memory_Inr:
  "check_memory r = Inr u \<longleftrightarrow> (\<exists>x. memory_limit_text (trim_space (rc_memory_limit r)) x)"
proof -
  have "(\<exists>x. memory_limit_text (trim_space (rc_memory_limit r)) x) \<longleftrightarrow> (\<exists>x. ParseMemoryLimit (rc_memory_limit r) = Inr x)"
    by (simp add: ParseMemoryLimit_accepts)
  moreover have "trim_space (rc_memory_limit r) = [] \<Longrightarrow> ParseMemoryLimit (rc_memory_limit r) = Inr 0"
    by (simp add: ParseMemoryLimit_def)
  ultimately show ?thesis by (auto simp: check_memory_def split: sum.splits)
qed

lemma check_server_Inr: "check_server s = Inr u \<longleftrightarrow> wf_server s"
  by (auto simp: check_server_def wf_server_def rbind_Inr_iff)

lemma check_metrics_Inr: "check_metrics m = Inr u \<longleftrightarrow> wf_metrics m"
  by (auto simp: check_metrics_def wf_metrics_def rbind_Inr_iff)

lemma check_users_Inr: "check_users us = Inr u \<longleftrightarrow> list_all (\<lambda>u. v3_user_name u \<noteq> []) us"
  by (induction us) (auto simp: rbind_Inr_iff)

text \<open>The keys that the loops over filters and alarms mark as seen never clash.\<close>

definition seen_ids :: "string \<Rightarrow> string list \<Rightarrow> string set" where
  "seen_ids p ids = (\<lambda>i. p @ i) ` set ids"

lemma seen_step:
  "seen (p @ i) = None \<and> dom (seen(p @ i \<mapsto> v)) \<inter> seen_ids p ids = {} \<longleftrightarrow>
   i \<notin> set ids \<and> dom seen \<inter> seen_ids p (i # ids) = {}"
  by (auto simp: seen_ids_def)

lemma map_upd_add: "m(k \<mapsto> v) ++ map_of xs = m ++ map_of (xs @ [(k, v)])"
  by (simp add: fun_eq_iff map_add_def split: option.splits)

lemma check_filters_Inr:
  "check_filters rs seen = Inr seen' \<longleftrightarrow>
     list_all (\<lambda>r. fr_id r \<noteq> [] \<and> rule_action r \<in> {''drop'', ''keep''}) rs \<and>
     distinct (map fr_id rs) \<and> dom seen \<inter> seen_ids ''filter:'' (map fr_id rs) = {} \<and>
     seen' = seen ++ map_of (rev (map (\<lambda>r. (''filter:'' @ fr_id r, fr_id r)) rs))"
proof (induction rs arbitrary: seen)
  case Nil
  then show ?case by (auto simp: seen_ids_def)
next
  case (Cons r rs)
  let ?seen = "seen(''filter:'' @ fr_id r \<mapsto> fr_id r)"
  have "check_filters (r # rs) seen = Inr seen' \<longleftrightarrow>
    fr_id r \<noteq> [] \<and> seen (''filter:'' @ fr_id r) = None \<and> rule_action r \<in> {''drop'', ''keep''} \<and>
    check_filters rs ?seen = Inr seen'"
    by (simp add: rbind_Inr_iff del: append.simps)
  also have "\<dots> \<longleftrightarrow> fr_id r \<noteq> [] \<and> rule_action r \<in> {''drop'', ''keep''} \<and>
    (seen (''filter:'' @ fr_id r) = None \<and> dom ?seen \<inter> seen_ids ''filter:'' (map fr_id rs) = {}) \<and>
    list_all (\<lambda>r. fr_id r \<noteq> [] \<and> rule_action r \<in> {''drop'', ''keep''}) rs \<and> distinct (map fr_id rs) \<and>
    seen' = ?seen ++ map_of (rev (map (\<lambda>r. (''filter:'' @ fr_id r, fr_id r)) rs))"
    unfolding Cons.IH by blast
  finally show ?case
    unfolding seen_step map_upd_add
    by (simp add: conj_ac del: append.simps)
qed

lemma fill_alarms_Inr:
  "fill_alarms d as seen = Inr as' \<longleftrightarrow>
     list_all (\<lambda>a. al_id a \<noteq> [] \<and> dd_key_fields (al_dedup (fill_alarm d a)) \<noteq> []) as \<and>
     distinct (map al_id as) \<and> dom seen \<inter> seen_ids ''alarm:'' (map al_id as) = {} \<and>
     as' = map (fill_alarm d) as"
proof (induction as arbitrary: seen as')
  case Nil
  then show ?case by (auto simp: seen_ids_def)
next
  case (Cons a as)
  let ?seen = "seen(''alarm:'' @ al_id a \<mapsto> al_id a)"
  have "fill_alarms d (a # as) seen = Inr as' \<longleftrightarrow>
    al_id a \<noteq> [] \<and> seen (''alarm:'' @ al_id a) = None \<and> dd_key_fields (al_dedup (fill_alarm d a)) \<noteq> [] \<and>
    (\<exists>as''. fill_alarms d as ?seen = Inr as'' \<and> as' = fill_alarm d a # as'')"
    by (simp add: rbind_Inr_iff del: append.simps) blast
  also have "\<dots> \<longleftrightarrow> al_id a \<noteq> [] \<and> dd_key_fields (al_dedup (fill_alarm d a)) \<noteq> [] \<and>
    (seen (''alarm:'' @ al_id a) = None \<and> dom ?seen \<inter> seen_ids ''alarm:'' (map al_id as) = {}) \<and>
    list_all (\<lambda>a. al_id a \<noteq> [] \<and> dd_key_fields (al_dedup (fill_alarm d a)) \<noteq> []) as \<and>
    distinct (map al_id as) \<and> as' = fill_alarm d a # map (fill_alarm d) as"
    unfolding Cons.IH by blast
  finally show ?case
    unfolding seen_step by (simp add: conj_ac del: append.simps)
qed

lemma check_clears_Inr: "check_clears as = Inr u \<longleftrightarrow> list_all (\<lambda>a. wf_clear (al_dedup a)) as"
  by (induction as) (auto simp: rbind_Inr_iff wf_clear_def split: option.splits)

lemma filter_keys_not_alarm:
  "dom (map_of (rev (map (\<lambda>r. (''filter:'' @ fr_id r, fr_id r)) rs))) \<inter> seen_ids ''alarm:'' ids = {}"
  by (auto simp: dom_map_of_conv_image_fst seen_ids_def)

lemma fill_alarm_simps [simp]:
  "al_id (fill_alarm d a) = al_id a"
  "wf_clear (al_dedup (fill_alarm d a)) \<longleftrightarrow> wf_clear (al_dedup a)"
  by (simp_all add: fill_alarm_def wf_clear_def)

lemma fill_filter_simps [simp]:
  "fr_id (fill_filter r) = fr_id r" "fr_action (fill_filter r) = rule_action r"
  "fr_match (fill_filter r) = fr_match r"
  by (simp_all add: fill_filter_def)

lemma wf_filters_fill:
  "wf_filters (f\<lparr>fl_rules := map fill_filter (fl_rules f)\<rparr>) \<longleftrightarrow>
     fl_default_action f \<in> {''keep'', ''drop''} \<and>
     list_all (\<lambda>r. fr_id r \<noteq> [] \<and> rule_action r \<in> {''drop'', ''keep''}) (fl_rules f) \<and>
     distinct (map fr_id (fl_rules f))"
  by (simp add: wf_filters_def list.pred_map o_def)

lemma wf_alarms_fill:
  "wf_alarms (map (fill_alarm d) as) \<longleftrightarrow>
     list_all (\<lambda>a. al_id a \<noteq> [] \<and> dd_key_fields (al_dedup (fill_alarm d a)) \<noteq> []) as \<and>
     distinct (map al_id as) \<and> list_all (\<lambda>a. wf_clear (al_dedup a)) as"
  by (auto simp: wf_alarms_def list.pred_map list_all_iff o_def)

lemma validate_accepts: "validate c = Inr c' \<longleftrightarrow> c' = filled c \<and> wf_config c'"
proof -
  let ?seen = "map_of (rev (map (\<lambda>r. (''filter:'' @ fr_id r, fr_id r)) (fl_rules (ac_filters c))))"
  have "validate c = Inr c' \<longleftrightarrow>
      (\<exists>x. memory_limit_text (trim_space (rc_memory_limit (ac_runtime c))) x) \<and> wf_server (ac_server c) \<and>
      wf_metrics (ac_metrics c) \<and> list_all (\<lambda>u. v3_user_name u \<noteq> []) (rv_v3_users (ac_receiver c)) \<and>
      wf_filters ((ac_filters c)\<lparr>fl_rules := map fill_filter (fl_rules (ac_filters c))\<rparr>) \<and>
      wf_alarms (map (fill_alarm (ac_dedup_defaults c)) (ac_alarms c)) \<and> filled c = c'"
    using filter_keys_not_alarm
    by (auto simp: validate_def rbind_Inr_iff check_memory_Inr check_server_Inr check_metrics_Inr
        check_users_Inr check_filters_Inr fill_alarms_Inr check_clears_Inr wf_filters_fill wf_alarms_fill
        filled_def list_all_iff)
  also have "\<dots> \<longleftrightarrow> c' = filled c \<and> wf_config c'"
    by (auto simp: wf_config_def filled_def)
  finally show ?thesis .
qed

lemma Load_accepts:
  "Load read_file unmarshal path = Inr c' \<longleftrightarrow>
     (\<exists>data c. read_file path = Inr data \<and> unmarshal data = Inr c \<and> c' = filled (applyDefaults c)) \<and>
     wf_config c'"
  by (auto simp: Load_def rbind_Inr_iff validate_accepts)

section \<open>A loaded configuration is complete\<close>

lemma fill_filter_wf: "fr_action r \<in> {''drop'', ''keep''} \<Longrightarrow> fill_filter r = r"
  by (auto simp: fill_filter_def rule_action_def str_default_def lower_char_def)

lemma fill_alarm_idem [simp]: "fill_alarm d (fill_alarm d a) = fill_alarm d a"
  by (simp add: fill_alarm_def int_default_def)

lemma filled_simps [simp]:
  "ac_alarms (filled c) = map (fill_alarm (ac_dedup_defaults c)) (ac_alarms c)"
  "ac_dedup_defaults (filled c) = ac_dedup_defaults c"
  "ac_server (filled c) = ac_server c"
  "fl_rules (ac_filters (filled c)) = map fill_filter (fl_rules (ac_filters c))"
  by (simp_all add: filled_def)

lemma filled_idem: "wf_config (filled c) \<Longrightarrow> filled (filled c) = filled c"
proof -
  assume "wf_config (filled c)"
  then have "list_all (\<lambda>r. fr_action r \<in> {''drop'', ''keep''}) (fl_rules (ac_filters (filled c)))"
    by (auto simp: wf_config_def wf_filters_def list_all_iff)
  then have "map fill_filter (fl_rules (ac_filters (filled c))) = fl_rules (ac_filters (filled c))"
    by (intro map_idI fill_filter_wf) (simp only: list_all_iff)
  then show ?thesis by (simp add: filled_def o_def)
qed

lemma Load_complete:
  assumes "Load read_file unmarshal path = Inr c"
  shows "validate c = Inr c" "sc_stats_log_interval_secs (ac_server c) \<noteq> 0"
    "\<forall>a \<in> set (ac_alarms c). dd_ttl_seconds (al_dedup a) \<noteq> 0"
proof -
  from assms obtain c0 where c: "c = filled (applyDefaults c0)" and wf: "wf_config c"
    by (auto simp: Load_accepts)
  then show "validate c = Inr c"
    by (simp add: validate_accepts filled_idem)
  show "sc_stats_log_interval_secs (ac_server c) \<noteq> 0"
    by (simp add: c applyDefaults_def default_server_def int_default_def)
  show "\<forall>a \<in> set (ac_alarms c). dd_ttl_seconds (al_dedup a) \<noteq> 0"
    by (simp add: c fill_alarm_def applyDefaults_def int_default_def)
qed

section \<open>Properties\<close>

text \<open>
  C14. \<open>Load\<close> succeeds exactly when the file can be read and decoded and the configuration, with the
  defaults and the filled-in alarms, is well formed, and it then returns that configuration: a memory
  limit that parses, a port of 16 bits, positive sizes and counts, unique non-empty rule and alarm ids,
  actions that are drop or keep, alarms with key fields, a clear rule with a match for every alarm
  that holds until cleared.
\<close>

theorem Load_well_formed:
  "Load read_file unmarshal path = Inr c' \<longleftrightarrow>
     (\<exists>data c. read_file path = Inr data \<and> unmarshal data = Inr c \<and> c' = filled (applyDefaults c)) \<and>
     wf_config c'"
  by (rule Load_accepts)

definition blank_dedup :: dedup_config where
  "blank_dedup = \<lparr>dd_ttl_seconds = 0, dd_key_fields = [], dd_hold_until_clear = False, dd_clear = None\<rparr>"

text \<open>The zero value of the configuration, and one with a filter and an alarm as a file would give them.\<close>

definition blank_config :: app_config where
  "blank_config =
     \<lparr>ac_server = \<lparr>sc_host = [], sc_port = 0, sc_max_datagram_size = 0, sc_cleanup_interval_seconds = 0,
        sc_max_dedup_entries = 0, sc_queue_size = 0, sc_worker_count = 0, sc_stats_log_interval_secs = 0\<rparr>,
      ac_runtime = \<lparr>rc_memory_limit = []\<rparr>,
      ac_metrics = \<lparr>mc_enabled = False, mc_host = [], mc_port = 0, mc_path = []\<rparr>,
      ac_logging = \<lparr>lc_level = [], lc_format = [], lc_file = [], lc_alerts_file = []\<rparr>,
      ac_receiver = \<lparr>rv_v3_users = []\<rparr>, ac_field_aliases = None, ac_forwarders = [],
      ac_filters = \<lparr>fl_default_action = [], fl_rules = []\<rparr>, ac_dedup_defaults = blank_dedup, ac_alarms = []\<rparr>"

definition file_config :: app_config where
  "file_config = blank_config\<lparr>
     ac_runtime := \<lparr>rc_memory_limit = ''1KiB''\<rparr>,
     ac_filters := \<lparr>fl_default_action = [], fl_rules = [\<lparr>fr_id = ''f'', fr_action = ''KEEP'', fr_match = \<lparr>ms_raw = []\<rparr>\<rparr>]\<rparr>,
     ac_alarms := [\<lparr>al_id = ''a'', al_match = \<lparr>ms_raw = []\<rparr>, al_dedup = blank_dedup\<lparr>dd_key_fields := [''source_ip'']\<rparr>\<rparr>]\<rparr>"

lemmas config_sample_defs = blank_dedup_def blank_config_def file_config_def

text \<open>
  C30. A loaded configuration is complete: validating it again changes nothing, every alarm has a TTL
  other than 0 (a 0 in the file is replaced by the default TTL), and the interval of the statistics
  log is positive, so the value 0 of the file cannot switch that log off.
\<close>

theorem Load_completes:
  assumes "Load read_file unmarshal path = Inr c"
  shows "validate c = Inr c \<and> 0 < sc_stats_log_interval_secs (ac_server c) \<and>
    (\<forall>a \<in> set (ac_alarms c). dd_ttl_seconds (al_dedup a) \<noteq> 0)"
proof -
  have "0 \<le> sc_stats_log_interval_secs (ac_server c)"
    using assms by (auto simp: Load_accepts wf_config_def wf_server_def)
  with Load_complete [OF assms] show ?thesis by simp
qed

lemma sample_memory: "check_memory \<lparr>rc_memory_limit = ''1KiB''\<rparr> = Inr ()"
proof -
  have t: "trim_space ''1KiB'' = ''1KiB''" "trim_space ''KiB'' = ''KiB''"
    by (rule trim_space_all_solid, simp add: solid_def space_runes_def)+
  show ?thesis by (simp add: check_memory_def ParseMemoryLimit_def t run_simps cong: if_cong option.case_cong)
qed

lemma file_config_loads:
  "Load (\<lambda>_. Inr []) (\<lambda>_. Inr file_config) ''relay.yaml'' = Inr (filled (applyDefaults file_config))"
proof -
  have "check_memory (ac_runtime (applyDefaults file_config)) = Inr ()"
    using sample_memory by (simp add: applyDefaults_def file_config_def)
  moreover have "check_server (ac_server (applyDefaults file_config)) = Inr ()"
    by (simp add: config_sample_defs run_simps)
  moreover have "rv_v3_users (ac_receiver (applyDefaults file_config)) = []" "check_metrics (ac_metrics (applyDefaults file_config)) = Inr ()"
    by (simp_all add: config_sample_defs run_simps)
  moreover have "ac_filters (applyDefaults file_config) = \<lparr>fl_default_action = ''keep'', fl_rules = fl_rules (ac_filters file_config)\<rparr>"
    by (simp add: config_sample_defs run_simps)
  moreover have "check_filters (fl_rules (ac_filters file_config)) Map.empty = Inr [''filter:f'' \<mapsto> ''f'']"
    by (simp add: config_sample_defs run_simps)
  moreover have "fill_alarms (ac_dedup_defaults (applyDefaults file_config)) (ac_alarms (applyDefaults file_config))
      [''filter:f'' \<mapsto> ''f''] = Inr (ac_alarms (filled (applyDefaults file_config)))"
    by (simp add: config_sample_defs filled_def run_simps)
  moreover have "check_clears (ac_alarms (filled (applyDefaults file_config))) = Inr ()"
    by (simp add: config_sample_defs filled_def run_simps)
  ultimately show ?thesis by (simp add: Load_def validate_def filled_def)
qed

lemma Load_completes_witness:
  "validate (filled (applyDefaults file_config)) = Inr (filled (applyDefaults file_config))"
  using Load_completes [OF file_config_loads] by simp

end
