(* ===== verification/Os_World.thy ===== *)
theory Os_World
  imports Go_Text
begin

text \<open>
  The part of the operating system and of the \<open>net\<close> and \<open>os\<close> packages that the relay uses: opening
  sockets and files, closing them and writing datagrams. A call may fail whenever the environment
  decides so: the oracles of \<open>os_env\<close> see the number of calls made before. Handles are never
  reused, and a \<open>Close\<close> releases its handle whatever it returns, as documented for \<open>os.File\<close>,
  \<open>net.UDPConn\<close> and \<open>net.Listener\<close>. Only numeric addresses and host names differ in how
  they resolve, so resolution is an oracle too.
\<close>

section \<open>Addresses\<close>

record udp_addr =
  ua_ip :: bytes
  ua_port :: int
  ua_zone :: string

text \<open>\<open>net.JoinHostPort\<close>.\<close>

definition JoinHostPort :: "string \<Rightarrow> string \<Rightarrow> string" where
  "JoinHostPort host port =
     (if CHR '':'' \<in> set host then ''['' @ host @ '']:'' @ port else host @ '':'' @ port)"

text \<open>\<open>ip.To4() != nil\<close> and \<open>ip.To16() != nil\<close>.\<close>

definition is_To4 :: "bytes \<Rightarrow> bool" where
  "is_To4 ip \<longleftrightarrow> length ip = 4 \<or> length ip = 16 \<and> v4_mapped ip"

definition is_To16 :: "bytes \<Rightarrow> bool" where
  "is_To16 ip \<longleftrightarrow> length ip = 4 \<or> length ip = 16"

section \<open>Calls\<close>

datatype request =
    ListenUDP string "udp_addr option"
  | ListenTCP string
  | OpenAppend string

type_synonym handle = nat

record os_env =
  oe_open :: "nat \<Rightarrow> request \<Rightarrow> err option"
  oe_close :: "nat \<Rightarrow> handle \<Rightarrow> err option"
  oe_write :: "nat \<Rightarrow> handle \<Rightarrow> udp_addr \<Rightarrow> bytes \<Rightarrow> err option"
  oe_resolve :: "string \<Rightarrow> string \<Rightarrow> udp_addr res"
  oe_text :: "err \<Rightarrow> string"           \<comment> \<open>the text of \<open>err.Error()\<close>\<close>

text \<open>
  The number of calls so far, the open handles, and the datagrams written with their results. A
  handle is the number of the call that opened it.
\<close>

record os =
  os_calls :: nat
  os_open :: "handle list"
  os_written :: "(handle \<times> udp_addr \<times> bytes \<times> err option) list"

definition sys_open :: "os_env \<Rightarrow> request \<Rightarrow> os \<Rightarrow> handle res \<times> os" where
  "sys_open E req w =
     (let w1 = w\<lparr>os_calls := Suc (os_calls w)\<rparr> in
      case oe_open E (os_calls w) req of
        Some e \<Rightarrow> (Inl e, w1)
      | None \<Rightarrow> (Inr (os_calls w), w1\<lparr>os_open := os_calls w # os_open w\<rparr>))"

definition closed_err :: err where
  "closed_err = EnvError ''use of closed network connection''"

definition sys_close :: "os_env \<Rightarrow> handle \<Rightarrow> os \<Rightarrow> err option \<times> os" where
  "sys_close E h w =
     (let w1 = w\<lparr>os_calls := Suc (os_calls w), os_open := removeAll h (os_open w)\<rparr> in
      (if h \<in> set (os_open w) then oe_close E (os_calls w) h else Some closed_err, w1))"

definition sys_write :: "os_env \<Rightarrow> handle \<Rightarrow> udp_addr \<Rightarrow> bytes \<Rightarrow> os \<Rightarrow> err option \<times> os" where
  "sys_write E h addr payload w =
     (let r = (if h \<in> set (os_open w) then oe_write E (os_calls w) h addr payload else Some closed_err) in
      (r, w\<lparr>os_calls := Suc (os_calls w), os_written := os_written w @ [(h, addr, payload, r)]\<rparr>))"

text \<open>\<open>if h != nil { _ = h.Close() }\<close>.\<close>

definition close_opt :: "os_env \<Rightarrow> handle option \<Rightarrow> os \<Rightarrow> os" where
  "close_opt E h w = (case h of None \<Rightarrow> w | Some k \<Rightarrow> snd (sys_close E k w))"

section \<open>The handles\<close>

text \<open>Handles are older than the calls to come, so a new one is fresh.\<close>

definition os_inv :: "os \<Rightarrow> bool" where
  "os_inv w \<longleftrightarrow> distinct (os_open w) \<and> (\<forall>h \<in> set (os_open w). h < os_calls w)"

text \<open>
  \<open>opened w H w'\<close>: from \<open>w\<close> to \<open>w'\<close> exactly the handles of \<open>H\<close> have been opened and are still open, all of
  them new; no handle of \<open>w\<close> was closed.
\<close>

definition opened :: "os \<Rightarrow> handle set \<Rightarrow> os \<Rightarrow> bool" where
  "opened w H w' \<longleftrightarrow>
     os_inv w' \<and> set (os_open w') = set (os_open w) \<union> H \<and> set (os_open w) \<inter> H = {} \<and>
     (\<forall>h \<in> H. os_calls w \<le> h) \<and> os_calls w \<le> os_calls w'"

lemma openedD:
  assumes "opened w H w'"
  shows "os_inv w'" "set (os_open w') = set (os_open w) \<union> H" "set (os_open w) \<inter> H = {}"
    "h \<in> H \<Longrightarrow> os_calls w \<le> h" "os_calls w \<le> os_calls w'"
  using assms by (auto simp: opened_def)

lemma opened_refl: "os_inv w \<Longrightarrow> opened w {} w"
  by (simp add: opened_def)

lemma opened_trans: "opened w H w' \<Longrightarrow> opened w' K w'' \<Longrightarrow> opened w (H \<union> K) w''"
  by (auto simp: opened_def)

lemma opened_open:
  "os_inv w \<Longrightarrow> sys_open E req w = (r, w') \<Longrightarrow> opened w (case r of Inl _ \<Rightarrow> {} | Inr h \<Rightarrow> {h}) w'"
  by (auto simp: opened_def sys_open_def os_inv_def Let_def less_Suc_eq split: option.splits)

text \<open>
  What opens something: a result and the handles that come with it. Every constructor of the program
  keeps this contract, so their openings add up.
\<close>

locale opener =
  fixes acquire :: "os \<Rightarrow> 'a res \<times> os"
    and handles :: "'a res \<Rightarrow> handle set"
  assumes acquires: "acquire w = (r, w') \<Longrightarrow> os_inv w \<Longrightarrow> opened w (handles r) w'"
begin

lemma acquires_more: "acquire w = (r, w') \<Longrightarrow> opened w0 H w \<Longrightarrow> opened w0 (H \<union> handles r) w'"
  using opened_trans [OF _ acquires] openedD(1) by blast

lemma acquires_nothing: "acquire w = (r, w') \<Longrightarrow> os_inv w \<Longrightarrow> handles r = {} \<Longrightarrow> set (os_open w') = set (os_open w)"
  using openedD(2) [OF acquires] by simp

end

definition handle_of :: "handle res \<Rightarrow> handle set" where
  "handle_of r = (case r of Inl _ \<Rightarrow> {} | Inr h \<Rightarrow> {h})"

interpretation device: opener "sys_open E req" handle_of for E req
  by unfold_locales (simp add: opened_open handle_of_def)

lemma sys_close_open:
  "set (os_open (snd (sys_close E h w))) = set (os_open w) - {h}"
  by (simp add: sys_close_def Let_def)

lemma sys_close_inv: "os_inv w \<Longrightarrow> os_inv (snd (sys_close E h w))"
  by (auto simp: sys_close_def os_inv_def Let_def distinct_removeAll less_Suc_eq)

text \<open>Whatever closes \<open>K\<close>, all of it new, undoes that part of the opening.\<close>

lemma opened_closed:
  assumes "opened w H w'" "K \<subseteq> H" "set (os_open w'') = set (os_open w') - K" "os_inv w''" "os_calls w' \<le> os_calls w''"
  shows "opened w (H - K) w''"
  using assms by (auto simp: opened_def)

lemma sys_write_open [simp]: "os_open (snd (sys_write E h a b w)) = os_open w"
  by (simp add: sys_write_def Let_def)

lemma sys_write_inv: "os_inv w \<Longrightarrow> os_inv (snd (sys_write E h a b w))"
  by (auto simp: sys_write_def os_inv_def Let_def less_Suc_eq)

lemma sys_calls [simp]:
  "os_calls (snd (sys_open E req w)) = Suc (os_calls w)" "os_calls (snd (sys_close E h w)) = Suc (os_calls w)"
  "os_calls (snd (sys_write E h a b w)) = Suc (os_calls w)"
  by (simp_all add: sys_open_def sys_close_def sys_write_def Let_def split: option.splits)

lemma close_opt_simps [simp]:
  "set (os_open (close_opt E h w)) = set (os_open w) - set_option h"
  "os_inv w \<Longrightarrow> os_inv (close_opt E h w)"
  "os_calls w \<le> os_calls (close_opt E h w)"
  by (auto simp: close_opt_def sys_close_open sys_close_inv split: option.splits)

lemmas os_run [run_simps] =
  JoinHostPort_def is_To4_def is_To16_def sys_open_def closed_err_def sys_close_def sys_write_def close_opt_def

end
