(* ===== verification/Udp_Forward.thy ===== *)
theory Udp_Forward
  imports Os_World Relay_Model
begin

text \<open>
  \<open>internal/forward/udp.go\<close>: the forwarder keeps one socket per enabled target, in the order of the
  configuration. Its operations thread the state of the operating system.
\<close>

section \<open>Opening\<close>

text \<open>A target's connection is a pointer, \<open>None\<close> when nil.\<close>

record target =
  tg_config :: forwarder_config
  tg_addr :: udp_addr
  tg_conn :: "handle option"

definition resolve :: "os_env \<Rightarrow> string \<Rightarrow> int \<Rightarrow> udp_addr res" where
  "resolve E host port = oe_resolve E ''udp'' (JoinHostPort host (int_str port))"

definition udpNetwork :: "udp_addr option \<Rightarrow> string" where
  "udpNetwork addr =
     (case addr of
        None \<Rightarrow> ''udp4''
      | Some a \<Rightarrow> if \<not> is_To4 (ua_ip a) \<and> is_To16 (ua_ip a) then ''udp6'' else ''udp4'')"

definition newTargetConn :: "os_env \<Rightarrow> string \<Rightarrow> udp_addr \<Rightarrow> os \<Rightarrow> handle res \<times> os" where
  "newTargetConn E source_host target_addr w =
     (let network = udpNetwork (Some target_addr) in
      if source_host = [] then sys_open E (ListenUDP network None) w
      else case oe_resolve E network (JoinHostPort source_host ''0'') of
          Inl e \<Rightarrow> (Inl e, w)
        | Inr local_addr \<Rightarrow> sys_open E (ListenUDP network (Some local_addr)) w)"

text \<open>\<open>joinErrors\<close>: no error, the only one, or a new one with the texts separated by semicolons.\<close>

definition joinErrors :: "os_env \<Rightarrow> err list \<Rightarrow> err option" where
  "joinErrors E errs =
     (case errs of
        [] \<Rightarrow> None
      | [e] \<Rightarrow> Some e
      | e # es \<Rightarrow> Some (Errorf ''%s'' [foldl (\<lambda>msg e'. msg @ ''; '' @ oe_text E e') (oe_text E e) es]))"

fun close_targets :: "os_env \<Rightarrow> target list \<Rightarrow> os \<Rightarrow> err list \<times> os" where
  "close_targets E [] w = ([], w)"
| "close_targets E (t # ts) w =
     (case tg_conn t of
        None \<Rightarrow> close_targets E ts w
      | Some h \<Rightarrow>
          let (r, w1) = sys_close E h w; (errs, w2) = close_targets E ts w1
          in (case r of None \<Rightarrow> errs | Some e \<Rightarrow> e # errs, w2))"

definition Close_forwarder :: "os_env \<Rightarrow> target list \<Rightarrow> os \<Rightarrow> err option \<times> os" where
  "Close_forwarder E ts w = (let (errs, w1) = close_targets E ts w in (joinErrors E errs, w1))"

text \<open>The loop of \<open>NewUDP\<close>, with the targets opened so far: an error closes them.\<close>

fun open_targets :: "os_env \<Rightarrow> forwarder_config list \<Rightarrow> target list \<Rightarrow> os \<Rightarrow> target list res \<times> os" where
  "open_targets E [] ts w = (Inr ts, w)"
| "open_targets E (item # items) ts w =
     (if \<not> fc_enabled item then open_targets E items ts w
      else case resolve E (fc_host item) (fc_port item) of
          Inl e \<Rightarrow> (Inl (Wrapf ''forwarder %q: %w'' [fc_name item] e), snd (Close_forwarder E ts w))
        | Inr addr \<Rightarrow>
            let (c, w1) = newTargetConn E (fc_source_host item) addr w in
            (case c of
               Inl e \<Rightarrow> (Inl (Wrapf ''forwarder %q: %w'' [fc_name item] e), snd (Close_forwarder E ts w1))
             | Inr h \<Rightarrow> open_targets E items (ts @ [\<lparr>tg_config = item, tg_addr = addr, tg_conn = Some h\<rparr>]) w1))"

definition NewUDP :: "os_env \<Rightarrow> forwarder_config list \<Rightarrow> os \<Rightarrow> target list res \<times> os" where
  "NewUDP E cfg w = open_targets E cfg [] w"

text \<open>\<open>Targets\<close> copies the list.\<close>

definition Targets :: "target list \<Rightarrow> target list" where
  "Targets ts = ts"

section \<open>Sending\<close>

text \<open>\<open>WriteToUDP\<close> on a nil connection is an error of the library.\<close>

definition write_target :: "os_env \<Rightarrow> bytes \<Rightarrow> target \<Rightarrow> os \<Rightarrow> err option \<times> os" where
  "write_target E payload t w =
     (case tg_conn t of
        None \<Rightarrow> (Some (EnvError ''invalid argument''), w)
      | Some h \<Rightarrow> sys_write E h (tg_addr t) payload w)"

fun send_targets :: "os_env \<Rightarrow> bytes \<Rightarrow> target list \<Rightarrow> os \<Rightarrow> err list \<times> os" where
  "send_targets E payload [] w = ([], w)"
| "send_targets E payload (t # ts) w =
     (let (r, w1) = write_target E payload t w; (errs, w2) = send_targets E payload ts w1
      in (case r of None \<Rightarrow> errs | Some e \<Rightarrow> Wrapf ''%s: %w'' [fc_name (tg_config t)] e # errs, w2))"

definition Send :: "os_env \<Rightarrow> target list \<Rightarrow> bytes \<Rightarrow> os \<Rightarrow> err option \<times> os" where
  "Send E ts payload w =
     (let (errs, w1) = send_targets E payload ts w in (if errs \<noteq> [] then joinErrors E errs else None, w1))"

lemmas forward_run [run_simps] =
  resolve_def udpNetwork_def newTargetConn_def joinErrors_def Close_forwarder_def NewUDP_def write_target_def Send_def

section \<open>No socket is lost\<close>

text \<open>The sockets of a list of targets.\<close>

definition conns :: "target list \<Rightarrow> handle set" where
  "conns ts = (\<Union>t \<in> set ts. set_option (tg_conn t))"

lemma conns_simps [simp]:
  "conns [] = {}" "conns (t # ts) = set_option (tg_conn t) \<union> conns ts" "conns (ts @ us) = conns ts \<union> conns us"
  by (auto simp: conns_def)

lemma close_targets_open [simp]:
  "set (os_open (snd (close_targets E ts w))) = set (os_open w) - conns ts"
  by (induction ts arbitrary: w) (auto simp: split_beta sys_close_open split: option.splits)

lemma close_targets_inv: "os_inv w \<Longrightarrow> os_inv (snd (close_targets E ts w))"
  by (induction ts arbitrary: w) (auto simp: split_beta sys_close_inv split: option.splits)

lemma Close_forwarder_open [simp]:
  "set (os_open (snd (Close_forwarder E ts w))) = set (os_open w) - conns ts"
  by (simp add: Close_forwarder_def split_beta)

lemma close_targets_calls: "os_calls w \<le> os_calls (snd (close_targets E ts w))"
proof (induction ts arbitrary: w)
  case (Cons t ts)
  show ?case
  proof (cases "tg_conn t")
    case (Some h)
    with Cons [of "snd (sys_close E h w)"] show ?thesis by (simp add: split_beta)
  qed (use Cons in simp)
qed simp

lemma Close_forwarder_inv [simp]:
  "os_inv w \<Longrightarrow> os_inv (snd (Close_forwarder E ts w))" "os_calls w \<le> os_calls (snd (Close_forwarder E ts w))"
  by (simp_all add: Close_forwarder_def split_beta close_targets_inv close_targets_calls)

lemma newTargetConn_opened:
  assumes "newTargetConn E src addr w = (r, w')" "os_inv w"
  shows "opened w (case r of Inl _ \<Rightarrow> {} | Inr h \<Rightarrow> {h}) w'"
proof (cases "\<exists>req. sys_open E req w = (r, w')")
  case True
  with assms(2) show ?thesis by (auto intro: opened_open)
next
  case False
  with assms(1) obtain e where "r = Inl e" "w' = w"
    by (auto simp: newTargetConn_def Let_def split: if_splits sum.splits)
  with assms(2) show ?thesis by (simp add: opened_refl)
qed

text \<open>The sockets of a successful construction; a failed one leaves none.\<close>

definition target_handles :: "target list res \<Rightarrow> handle set" where
  "target_handles r = (case r of Inl _ \<Rightarrow> {} | Inr ts \<Rightarrow> conns ts)"

lemma open_targets_opened:
  assumes "open_targets E items ts w = (r, w')" "opened w0 (conns ts) w"
  shows "opened w0 (target_handles r) w'"
  using assms
proof (induction items arbitrary: ts w)
  case (Cons item items)
  have abort: "opened w0 {} (snd (Close_forwarder E ts w1))" if "opened w0 (conns ts) w1" for w1
    using opened_closed [OF that subset_refl, of "snd (Close_forwarder E ts w1)"] openedD(1) [OF that] by simp
  show ?case
  proof (cases "fc_enabled item")
    case False
    with Cons show ?thesis by simp
  next
    case enabled: True
    show ?thesis
    proof (cases "resolve E (fc_host item) (fc_port item)")
      case (Inl e)
      with enabled Cons.prems abort show ?thesis by (auto simp: target_handles_def)
    next
      case (Inr addr)
      obtain c w1 where c: "newTargetConn E (fc_source_host item) addr w = (c, w1)" by fastforce
      have w1: "opened w0 (conns ts \<union> (case c of Inl _ \<Rightarrow> {} | Inr h \<Rightarrow> {h})) w1"
        using newTargetConn_opened [OF c openedD(1) [OF Cons.prems(2)]] Cons.prems(2) by (rule opened_trans [rotated])
      show ?thesis
      proof (cases c)
        case (Inl e)
        with w1 abort [of w1] enabled Inr c Cons.prems(1) show ?thesis by (auto simp: target_handles_def)
      next
        case (Inr h)
        with w1 enabled \<open>resolve E _ _ = _\<close> c Cons.prems(1) show ?thesis by (intro Cons.IH) auto
      qed
    qed
  qed
qed (auto simp: target_handles_def)

lemma NewUDP_opened: "NewUDP E cfg w = (r, w') \<Longrightarrow> os_inv w \<Longrightarrow> opened w (target_handles r) w'"
  using open_targets_opened [of E cfg "[]" w r w' w] opened_refl [of w] by (simp add: NewUDP_def)

text \<open>The targets are those of the enabled configurations, in order, each with a connection.\<close>

lemma open_targets_configs:
  "open_targets E items ts w = (Inr us, w') \<Longrightarrow>
   map tg_config us = map tg_config ts @ filter fc_enabled items \<and>
   ((\<forall>t \<in> set ts. tg_conn t \<noteq> None) \<longrightarrow> (\<forall>t \<in> set us. tg_conn t \<noteq> None))"
proof (induction items arbitrary: ts w)
  case (Cons item items)
  show ?case
  proof (cases "fc_enabled item")
    case False
    with Cons show ?thesis by simp
  next
    case True
    with Cons.prems obtain addr h w1 where
      "open_targets E items (ts @ [\<lparr>tg_config = item, tg_addr = addr, tg_conn = Some h\<rparr>]) w1 = (Inr us, w')"
      by (auto simp: split_beta split: sum.splits)
    from Cons.IH [OF this] True show ?thesis by auto
  qed
qed simp

text \<open>A new connection is none of those opened before.\<close>

lemma open_targets_distinct:
  "open_targets E items ts w = (Inr us, w') \<Longrightarrow> os_inv w \<Longrightarrow> conns ts \<subseteq> set (os_open w) \<Longrightarrow>
   distinct (map tg_conn ts) \<Longrightarrow> distinct (map tg_conn us)"
proof (induction items arbitrary: ts w)
  case (Cons item items)
  show ?case
  proof (cases "fc_enabled item")
    case False
    with Cons show ?thesis by simp
  next
    case True
    with Cons.prems(1) obtain addr h w1 where
      c: "newTargetConn E (fc_source_host item) addr w = (Inr h, w1)" and
      rest: "open_targets E items (ts @ [\<lparr>tg_config = item, tg_addr = addr, tg_conn = Some h\<rparr>]) w1 = (Inr us, w')"
      by (auto simp: Let_def split: sum.splits prod.splits)
    from newTargetConn_opened [OF c Cons.prems(2)] have w1: "opened w {h} w1" by simp
    have "h \<notin> conns ts" using openedD(3) [OF w1] Cons.prems(3) by blast
    then have "Some h \<notin> set (map tg_conn ts)" by (auto simp: conns_def)
    with Cons.IH [OF rest openedD(1) [OF w1]] openedD(2) [OF w1] Cons.prems(3,4) show ?thesis by auto
  qed
qed simp

section \<open>Every target is tried\<close>

text \<open>What one target contributes to a send: its write and its result.\<close>

fun written_by :: "os_env \<Rightarrow> bytes \<Rightarrow> target list \<Rightarrow> nat \<Rightarrow> handle list \<Rightarrow> (handle \<times> udp_addr \<times> bytes \<times> err option) list" where
  "written_by E payload [] n hs = []"
| "written_by E payload (t # ts) n hs =
     (case tg_conn t of
        None \<Rightarrow> written_by E payload ts n hs
      | Some h \<Rightarrow> (h, tg_addr t, payload,
          if h \<in> set hs then oe_write E n h (tg_addr t) payload else Some closed_err) # written_by E payload ts (Suc n) hs)"

lemma send_targets_writes:
  "os_written (snd (send_targets E payload ts w)) = os_written w @ written_by E payload ts (os_calls w) (os_open w)"
  by (induction ts arbitrary: w) (auto simp: split_beta write_target_def sys_write_def Let_def split: option.splits)

lemma send_targets_open [simp]: "os_open (snd (send_targets E payload ts w)) = os_open w"
  by (induction ts arbitrary: w) (auto simp: split_beta write_target_def split: option.splits)

lemma send_targets_errs:
  "\<forall>t \<in> set ts. tg_conn t \<noteq> None \<Longrightarrow>
   length (fst (send_targets E payload ts w)) =
     length (filter (\<lambda>(_, _, _, r). r \<noteq> None) (written_by E payload ts (os_calls w) (os_open w)))"
  by (induction ts arbitrary: w) (auto simp: split_beta write_target_def sys_write_def Let_def split: option.splits)

lemma joinErrors_None [simp]: "joinErrors E errs = None \<longleftrightarrow> errs = []"
  by (simp add: joinErrors_def split: list.splits)

lemma Send_writes:
  assumes "Send E ts payload w = (r, w')" "\<forall>t \<in> set ts. tg_conn t \<noteq> None"
  obtains ws where "os_written w' = os_written w @ ws" "map (\<lambda>(h, a, b, _). (Some h, a, b)) ws = map (\<lambda>t. (tg_conn t, tg_addr t, payload)) ts"
    "r = None \<longleftrightarrow> (\<forall>(h, a, b, x) \<in> set ws. x = None)" "os_open w' = os_open w"
proof
  let ?ws = "written_by E payload ts (os_calls w) (os_open w)"
  show "os_written w' = os_written w @ ?ws" "os_open w' = os_open w"
    using assms(1) send_targets_writes [of E payload ts w] send_targets_open [of E payload ts w]
    by (auto simp: Send_def split_beta)
  have "map (\<lambda>(h, a, b, _). (Some h, a, b)) (written_by E payload ts n hs) = map (\<lambda>t. (tg_conn t, tg_addr t, payload)) ts" for n hs
    using assms(2) by (induction ts arbitrary: n) auto
  then show "map (\<lambda>(h, a, b, _). (Some h, a, b)) ?ws = map (\<lambda>t. (tg_conn t, tg_addr t, payload)) ts" .
  have "r = joinErrors E (fst (send_targets E payload ts w))"
    using assms(1) by (simp add: Send_def split_beta joinErrors_def split: if_splits)
  then have "r = None \<longleftrightarrow> length (fst (send_targets E payload ts w)) = 0" by simp
  also have "\<dots> \<longleftrightarrow> (\<forall>(h, a, b, x) \<in> set ?ws. x = None)"
    unfolding send_targets_errs [OF assms(2)] by (auto simp: filter_empty_conv)
  finally show "r = None \<longleftrightarrow> (\<forall>(h, a, b, x) \<in> set ?ws. x = None)" .
qed

interpretation udp: opener "NewUDP E cfg" target_handles for E cfg
  by unfold_locales (rule NewUDP_opened)

section \<open>Properties\<close>

text \<open>
  C32. \<open>NewUDP\<close> either opens one socket for every enabled forwarder, in the order of the configuration,
  no two targets sharing one and each a new one, or returns an error with every socket it had opened
  closed again.
\<close>

theorem NewUDP_all_or_nothing:
  assumes "os_inv w"
  shows "case NewUDP E cfg w of
      (Inl e, w') \<Rightarrow> set (os_open w') = set (os_open w)
    | (Inr ts, w') \<Rightarrow> map tg_config ts = filter fc_enabled cfg \<and> (\<forall>t \<in> set ts. tg_conn t \<noteq> None) \<and>
        distinct (map tg_conn ts) \<and>
        set (os_open w') = set (os_open w) \<union> conns ts \<and> set (os_open w) \<inter> conns ts = {}"
proof -
  obtain r w' where n: "NewUDP E cfg w = (r, w')" by fastforce
  then show ?thesis
    using openedD(2,3) [OF NewUDP_opened [OF n assms]] open_targets_configs [of E cfg "[]" w _ w']
      open_targets_distinct [of E cfg "[]" w _ w'] assms
    by (cases r) (auto simp: NewUDP_def target_handles_def)
qed

definition sample_os_env :: os_env where
  "sample_os_env =
     \<lparr>oe_open = (\<lambda>n req. if n = 1 then Some (EnvError ''address in use'') else None), oe_close = (\<lambda>_ _. None),
      oe_write = (\<lambda>n h a b. if n = 2 then Some (EnvError ''refused'') else None),
      oe_resolve = (\<lambda>_ _. Inr \<lparr>ua_ip = [10, 0, 0, 1], ua_port = 162, ua_zone = []\<rparr>), oe_text = (\<lambda>_. [])\<rparr>"

definition sample_forwarder :: "string \<Rightarrow> forwarder_config" where
  "sample_forwarder name = \<lparr>fc_name = name, fc_host = ''h'', fc_port = 162, fc_enabled = True, fc_source_host = []\<rparr>"

definition empty_os :: os where
  "empty_os = \<lparr>os_calls = 0, os_open = [], os_written = []\<rparr>"

lemma NewUDP_all_or_nothing_witness:
  "\<exists>e w'. NewUDP sample_os_env [sample_forwarder ''a'', sample_forwarder ''b''] empty_os = (Inl e, w') \<and>
     set (os_open w') = {}"
proof -
  have err: "fst (NewUDP sample_os_env [sample_forwarder ''a'', sample_forwarder ''b''] empty_os) =
      Inl (Wrapf ''forwarder %q: %w'' [''b''] (EnvError ''address in use''))"
    by (simp add: sample_os_env_def sample_forwarder_def empty_os_def run_simps)
  have "os_inv empty_os" by (simp add: empty_os_def os_inv_def)
  note fact = NewUDP_all_or_nothing [OF this, where E = sample_os_env and cfg = "[sample_forwarder ''a'', sample_forwarder ''b'']"]
  from fact err show ?thesis
    by (cases "NewUDP sample_os_env [sample_forwarder ''a'', sample_forwarder ''b''] empty_os")
       (auto simp: empty_os_def)
qed

text \<open>
  \<open>Send\<close> writes the payload once to every target, in order and also after a failure, and succeeds
  exactly when every write does; it neither opens nor closes a socket.
\<close>

theorem Send_tries_all:
  assumes "\<forall>t \<in> set ts. tg_conn t \<noteq> None" "Send E ts payload w = (r, w')"
  shows "\<exists>ws. os_written w' = os_written w @ ws \<and>
    map (\<lambda>(h, a, b, _). (Some h, a, b)) ws = map (\<lambda>t. (tg_conn t, tg_addr t, payload)) ts \<and>
    (r = None \<longleftrightarrow> (\<forall>(h, a, b, x) \<in> set ws. x = None)) \<and> os_open w' = os_open w"
proof -
  obtain ws where "os_written w' = os_written w @ ws"
    "map (\<lambda>(h, a, b, _). (Some h, a, b)) ws = map (\<lambda>t. (tg_conn t, tg_addr t, payload)) ts"
    "r = None \<longleftrightarrow> (\<forall>(h, a, b, x) \<in> set ws. x = None)" "os_open w' = os_open w"
    by (rule Send_writes [OF assms(2,1)])
  then show ?thesis by (intro exI [of _ ws] conjI)
qed

lemma Send_tries_all_witness:
  "length (os_written (snd (Send sample_os_env
     [\<lparr>tg_config = sample_forwarder ''a'', tg_addr = \<lparr>ua_ip = [], ua_port = 1, ua_zone = []\<rparr>, tg_conn = Some 7\<rparr>,
      \<lparr>tg_config = sample_forwarder ''b'', tg_addr = \<lparr>ua_ip = [], ua_port = 2, ua_zone = []\<rparr>, tg_conn = Some 8\<rparr>]
     [1] empty_os))) = 2"
proof -
  let ?ts = "[\<lparr>tg_config = sample_forwarder ''a'', tg_addr = \<lparr>ua_ip = [], ua_port = 1, ua_zone = []\<rparr>, tg_conn = Some 7\<rparr>,
      \<lparr>tg_config = sample_forwarder ''b'', tg_addr = \<lparr>ua_ip = [], ua_port = 2, ua_zone = []\<rparr>, tg_conn = Some (8 :: handle)\<rparr>]"
  obtain r w' where s: "Send sample_os_env ?ts [1] empty_os = (r, w')" by fastforce
  have "\<forall>t \<in> set ?ts. tg_conn t \<noteq> None" by simp
  from Send_tries_all [OF this s] obtain ws where w: "os_written w' = os_written empty_os @ ws"
    and m: "map (\<lambda>(h, a, b, _). (Some h, a, b)) ws = map (\<lambda>t. (tg_conn t, tg_addr t, [1])) ?ts" by blast
  from arg_cong [OF m, of length] have "length ws = 2" by simp
  with w s show ?thesis by (simp add: empty_os_def)
qed

end
