(* ===== verification/Logging_Conf.thy ===== *)
theory Logging_Conf
  imports Os_World Relay_Model
begin

text \<open>
  \<open>internal/logging/logging.go\<close>: the log level, the logger with the file it writes to, and the alerts
  file. A logger is its format, its level and the file it writes to, \<open>None\<close> when it writes to no file but to the
  standard output or, in the load generator, to \<open>io.Discard\<close>.
\<close>

datatype log_level = LevelDebug | LevelInfo | LevelWarn | LevelError
datatype log_format = JsonFormat | TextFormat

text \<open>The levels are ordered as the numbers \<open>slog\<close> gives them.\<close>

fun severity :: "log_level \<Rightarrow> int" where
  "severity LevelDebug = -4"
| "severity LevelInfo = 0"
| "severity LevelWarn = 4"
| "severity LevelError = 8"

lemma severity_inject: "severity a = severity b \<Longrightarrow> a = b"
  by (cases a; cases b) simp_all

instantiation log_level :: linorder
begin

definition less_eq_log_level :: "log_level \<Rightarrow> log_level \<Rightarrow> bool" where
  "less_eq_log_level a b \<longleftrightarrow> severity a \<le> severity b"

definition less_log_level :: "log_level \<Rightarrow> log_level \<Rightarrow> bool" where
  "less_log_level a b \<longleftrightarrow> severity a < severity b"

instance
  by standard (auto simp: less_eq_log_level_def less_log_level_def intro: severity_inject)

end

record logger =
  lg_format :: log_format
  lg_level :: log_level
  lg_writer :: "handle option"

record log_resource =
  lr_logger :: logger
  lr_closer :: "handle option"

definition parseLevel :: "string \<Rightarrow> log_level" where
  "parseLevel level =
     (let u = to_upper level in
      if u = ''DEBUG'' then LevelDebug
      else if u = ''WARN'' \<or> u = ''WARNING'' then LevelWarn
      else if u = ''ERROR'' then LevelError
      else LevelInfo)"

text \<open>Which records a logger writes: \<open>slog.HandlerOptions.Level\<close> is the least level.\<close>

definition enabled :: "logger \<Rightarrow> log_level \<Rightarrow> bool" where
  "enabled lg level \<longleftrightarrow> lg_level lg \<le> level"

lemma enabled_mono: "enabled lg a \<Longrightarrow> a \<le> b \<Longrightarrow> enabled lg b"
  by (simp add: enabled_def)

lemma errors_enabled: "enabled lg LevelError"
  by (cases "lg_level lg") (simp_all add: enabled_def less_eq_log_level_def)

text \<open>The format the \<open>switch\<close> of \<open>NewResource\<close> picks.\<close>

definition log_format_of :: "string \<Rightarrow> log_format option" where
  "log_format_of f =
     (let l = to_lower f in
      if l = ''json'' then Some JsonFormat else if l = [] \<or> l = ''text'' then Some TextFormat else None)"

definition NewResource :: "os_env \<Rightarrow> logging_config \<Rightarrow> os \<Rightarrow> log_resource res \<times> os" where
  "NewResource E cfg w =
     (let (r, w1) = (if lc_file cfg = [] then (Inr None, w)
                     else case sys_open E (OpenAppend (lc_file cfg)) w of
                         (Inl e, w1) \<Rightarrow> (Inl e, w1)
                       | (Inr h, w1) \<Rightarrow> (Inr (Some h), w1)) in
      case r of
        Inl e \<Rightarrow> (Inl e, w1)
      | Inr closer \<Rightarrow>
          (case log_format_of (lc_format cfg) of
             Some f \<Rightarrow> (Inr \<lparr>lr_logger = \<lparr>lg_format = f, lg_level = parseLevel (lc_level cfg), lg_writer = closer\<rparr>,
                            lr_closer = closer\<rparr>, w1)
           | None \<Rightarrow> (Inl (Errorf ''unsupported logging format %q'' [lc_format cfg]), close_opt E closer w1)))"

text \<open>\<open>New\<close> keeps the logger only.\<close>

definition New_logger :: "os_env \<Rightarrow> logging_config \<Rightarrow> os \<Rightarrow> logger res \<times> os" where
  "New_logger E cfg w =
     (case NewResource E cfg w of
        (Inl e, w1) \<Rightarrow> (Inl e, w1)
      | (Inr r, w1) \<Rightarrow> (Inr (lr_logger r), w1))"

definition NewAlertsWriter :: "os_env \<Rightarrow> logging_config \<Rightarrow> os \<Rightarrow> handle option res \<times> os" where
  "NewAlertsWriter E cfg w =
     (if lc_alerts_file cfg = [] then (Inr None, w)
      else case sys_open E (OpenAppend (lc_alerts_file cfg)) w of
          (Inl e, w1) \<Rightarrow> (Inl e, w1)
        | (Inr h, w1) \<Rightarrow> (Inr (Some h), w1))"

lemmas logging_run [run_simps] =
  parseLevel_def log_format_of_def NewResource_def New_logger_def NewAlertsWriter_def

section \<open>No file is lost\<close>

definition writer_handles :: "handle option res \<Rightarrow> handle set" where
  "writer_handles r = (case r of Inl _ \<Rightarrow> {} | Inr a \<Rightarrow> set_option a)"

definition logger_handles :: "log_resource res \<Rightarrow> handle set" where
  "logger_handles r = (case r of Inl _ \<Rightarrow> {} | Inr lr \<Rightarrow> set_option (lr_closer lr))"

lemma NewAlertsWriter_opened:
  assumes "NewAlertsWriter E cfg w = (r, w')" "os_inv w"
  shows "opened w (writer_handles r) w'"
proof (cases "lc_alerts_file cfg = []")
  case True
  with assms show ?thesis by (auto simp: NewAlertsWriter_def writer_handles_def opened_refl)
next
  case False
  obtain x w1 where s: "sys_open E (OpenAppend (lc_alerts_file cfg)) w = (x, w1)" by fastforce
  from opened_open [OF assms(2) s] s assms(1) False show ?thesis
    by (cases x) (auto simp: NewAlertsWriter_def writer_handles_def)
qed

lemma NewResource_opened:
  assumes "NewResource E cfg w = (r, w')" "os_inv w"
  shows "opened w (logger_handles r) w'"
proof (cases "lc_file cfg = []")
  case True
  with assms show ?thesis
    by (cases "log_format_of (lc_format cfg)") (auto simp: NewResource_def close_opt_def logger_handles_def opened_refl)
next
  case False
  obtain x w1 where s: "sys_open E (OpenAppend (lc_file cfg)) w = (x, w1)" by fastforce
  note w1 = opened_open [OF assms(2) s]
  show ?thesis
  proof (cases x)
    case (Inl e)
    with w1 s assms(1) False show ?thesis by (auto simp: NewResource_def logger_handles_def)
  next
    case (Inr h)
    show ?thesis
    proof (cases "log_format_of (lc_format cfg)")
      case None
      with s assms(1) False Inr have "r = Inl (Errorf ''unsupported logging format %q'' [lc_format cfg])"
        "w' = close_opt E (Some h) w1"
        by (simp_all add: NewResource_def)
      with opened_closed [OF w1 subset_refl, of w'] openedD(1) [OF w1] Inr show ?thesis
        by (simp add: logger_handles_def)
    next
      case (Some f)
      with s assms(1) False Inr have "r = Inr \<lparr>lr_logger = \<lparr>lg_format = f, lg_level = parseLevel (lc_level cfg),
          lg_writer = Some h\<rparr>, lr_closer = Some h\<rparr>" "w' = w1"
        by (simp_all add: NewResource_def)
      with w1 Inr show ?thesis by (simp add: logger_handles_def)
    qed
  qed
qed

interpretation alerts_file: opener "NewAlertsWriter E cfg" writer_handles for E cfg
  by unfold_locales (rule NewAlertsWriter_opened)

interpretation log_file: opener "NewResource E cfg" logger_handles for E cfg
  by unfold_locales (rule NewResource_opened)

end
