(* ===== verification/Receiver.thy ===== *)
theory Receiver
  imports Snmp_Parser
begin

text \<open>
  \<open>internal/receiver/decoder.go\<close>: the decoder the relay runs with. It asks the gosnmp library
  first and falls back to the relay's own parser. The library is not part of the repository: its
  security table, its constants for the protocol versions and its \<open>UnmarshalTrap\<close> are the fields
  of a record that the definitions take, and what it returns is the part of its packet that the
  relay reads. The last sections state what a decoder promises the rest of the relay, as a locale,
  and show that this decoder keeps the promise.
\<close>

section \<open>The library's values\<close>

text \<open>
  \<open>SnmpPDU.Value\<close>, by the cases of \<open>pduValueToString\<close>. The text of a \<^verbatim>\<open>fmt.Stringer\<close> and of a value of
  another type is what the standard library prints for it.
\<close>

datatype pdu_value =
    PvNil
  | PvBytes bytes
  | PvString string
  | PvStringer string
  | PvIP bytes
  | PvOther string

record gosnmp_pdu =
  gv_name :: string
  gv_type_name :: string
  gv_value :: pdu_value

record gosnmp_packet =
  gp_version :: int
  gp_community :: string
  gp_pdu_type_name :: string
  gp_enterprise :: string
  gp_agent_address :: string
  gp_generic_trap :: int
  gp_specific_trap :: int
  gp_timestamp :: nat
  gp_variables :: "gosnmp_pdu list"

datatype auth_protocol = NoAuth | MD5 | SHA | SHA224 | SHA256 | SHA384 | SHA512
datatype priv_protocol = NoPriv | DES | AES | AES192 | AES256 | AES192C | AES256C

record usm_params =
  us_user_name :: string
  us_auth_passphrase :: string
  us_priv_passphrase :: string
  us_auth_protocol :: auth_protocol
  us_priv_protocol :: priv_protocol

text \<open>The library: \<open>'t\<close> is its table of security parameters.\<close>

record 't gosnmp_lib =
  lib_version1 :: int
  lib_version3 :: int
  lib_new_table :: 't
  lib_table_add :: "'t \<Rightarrow> string \<Rightarrow> usm_params \<Rightarrow> 't res"
  lib_unmarshal_trap :: "'t option \<Rightarrow> bytes \<Rightarrow> gosnmp_packet option res"

section \<open>SNMPv3 users\<close>

definition parseAuthProtocolStrict :: "string \<Rightarrow> auth_protocol res" where
  "parseAuthProtocolStrict s =
     (let v = to_lower (trim_space s) in
      if v = [] \<or> v = ''noauth'' then Inr NoAuth
      else if v = ''md5'' then Inr MD5
      else if v = ''sha'' then Inr SHA
      else if v = ''sha224'' then Inr SHA224
      else if v = ''sha256'' then Inr SHA256
      else if v = ''sha384'' then Inr SHA384
      else if v = ''sha512'' then Inr SHA512
      else Inl (Errorf ''unsupported receiver.v3_users[].authentication_protocol %q'' [s]))"

definition parsePrivProtocolStrict :: "string \<Rightarrow> priv_protocol res" where
  "parsePrivProtocolStrict s =
     (let v = to_lower (trim_space s) in
      if v = [] \<or> v = ''nopriv'' then Inr NoPriv
      else if v = ''des'' then Inr DES
      else if v = ''aes'' then Inr AES
      else if v = ''aes192'' then Inr AES192
      else if v = ''aes256'' then Inr AES256
      else if v = ''aes192c'' then Inr AES192C
      else if v = ''aes256c'' then Inr AES256C
      else Inl (Errorf ''unsupported receiver.v3_users[].privacy_protocol %q'' [s]))"

definition buildUSM :: "v3_user_config \<Rightarrow> usm_params res" where
  "buildUSM user =
     (if trim_space (v3_user_name user) = []
      then Inl (Errorf ''receiver.v3_users[].user_name is required'' [])
      else rbind (parseAuthProtocolStrict (v3_auth_protocol user)) (\<lambda>auth.
           rbind (parsePrivProtocolStrict (v3_priv_protocol user)) (\<lambda>priv.
           Inr \<lparr>us_user_name = v3_user_name user, us_auth_passphrase = v3_auth_passphrase user,
                us_priv_passphrase = v3_priv_passphrase user, us_auth_protocol = auth,
                us_priv_protocol = priv\<rparr>)))"

text \<open>The loop of \<open>Reload\<close> over the configured users.\<close>

fun add_users :: "'t gosnmp_lib \<Rightarrow> 't \<Rightarrow> v3_user_config list \<Rightarrow> 't res" where
  "add_users lib table [] = Inr table"
| "add_users lib table (user # users) =
     rbind (buildUSM user) (\<lambda>sec.
     rbind (lib_table_add lib table (v3_user_name user) sec) (\<lambda>table'.
     add_users lib table' users))"

section \<open>The decoder and its reload\<close>

text \<open>
  \<open>dec_g\<close> is the session, \<open>None\<close> for a nil pointer; of a session only its security table
  differs (\<open>None\<close> for the nil table of a configuration without users).
\<close>

record 't gosnmp_decoder =
  dec_g :: "'t option option"
  dec_cfg :: "app_config option"

definition Reload_decoder ::
    "'t gosnmp_lib \<Rightarrow> 't gosnmp_decoder \<Rightarrow> app_config \<Rightarrow> unit res \<times> 't gosnmp_decoder" where
  "Reload_decoder lib d cfg =
     (let users = rv_v3_users (ac_receiver cfg) in
      if users = [] then (Inr (), d\<lparr>dec_g := Some None, dec_cfg := Some cfg\<rparr>)
      else case add_users lib (lib_new_table lib) users of
          Inl e \<Rightarrow> (Inl e, d)
        | Inr table \<Rightarrow> (Inr (), d\<lparr>dec_g := Some (Some table), dec_cfg := Some cfg\<rparr>))"

definition New_decoder :: "'t gosnmp_lib \<Rightarrow> app_config \<Rightarrow> 't gosnmp_decoder res" where
  "New_decoder lib cfg =
     (case Reload_decoder lib \<lparr>dec_g = None, dec_cfg = None\<rparr> cfg of
        (Inl e, _) \<Rightarrow> Inl e
      | (Inr _, d) \<Rightarrow> Inr d)"

section \<open>From the library's packet to an event\<close>

text \<open>The case of \<^verbatim>\<open>net.IP\<close> comes behind \<^verbatim>\<open>fmt.Stringer\<close>, which it implements with the same text.\<close>

fun pduValueToString :: "pdu_value \<Rightarrow> string" where
  "pduValueToString PvNil = []"
| "pduValueToString (PvBytes v) =
     (if utf8_valid (str_of_bytes v) then str_of_bytes v else ''0x'' @ hex_encode v)"
| "pduValueToString (PvString s) = s"
| "pduValueToString (PvStringer s) = s"
| "pduValueToString (PvIP v) = ip_str v"
| "pduValueToString (PvOther s) = s"

definition genericTrapName :: "int \<Rightarrow> string" where
  "genericTrapName code =
     (if code = 0 then ''coldStart''
      else if code = 1 then ''warmStart''
      else if code = 2 then ''linkDown''
      else if code = 3 then ''linkUp''
      else if code = 4 then ''authenticationFailure''
      else if code = 5 then ''egpNeighborLoss''
      else if code = 6 then ''enterpriseSpecific''
      else int_str code)"

definition pdu_varbind :: "gosnmp_pdu \<Rightarrow> varbind" where
  "pdu_varbind pdu =
     \<lparr>vb_oid = Normalize (gv_name pdu), vb_type_name = gv_type_name pdu,
      vb_value = pduValueToString (gv_value pdu)\<rparr>"

text \<open>\<open>buildFields\<close> of this package: no request id and no error fields, but \<open>snmp_version\<close>.\<close>

definition receiver_fields ::
    "'t gosnmp_lib \<Rightarrow> trap_event \<Rightarrow> (string \<rightharpoonup> string) option \<Rightarrow> gosnmp_packet option \<Rightarrow> (string \<rightharpoonup> string)" where
  "receiver_fields lib e aliases packet =
     foldl (add_varbind_fields aliases)
       (set_if (case packet of None \<Rightarrow> False | Some p \<Rightarrow> gp_version p = lib_version3 lib) ''snmp_version'' ''v3''
       (set_if (ev_trap_oid e \<noteq> []) ''trap_oid'' (Normalize (ev_trap_oid e))
       (set_unless_empty ''uptime'' (ev_uptime e)
       (set_unless_empty ''specific_trap'' (ev_specific_trap e)
       (set_unless_empty ''generic_trap_name'' (ev_generic_trap_name e)
       (set_unless_empty ''generic_trap'' (ev_generic_trap e)
       (set_unless_empty ''agent_address'' (ev_agent_address e)
       (set_unless_empty ''enterprise_oid'' (ev_enterprise_oid e)
       (header_fields e)))))))))
       (ev_varbinds e)"

definition packetToEvent ::
    "'t gosnmp_lib \<Rightarrow> int \<Rightarrow> gosnmp_packet \<Rightarrow> bytes \<Rightarrow> string \<Rightarrow> int \<Rightarrow> (string \<rightharpoonup> string) option \<Rightarrow> trap_event" where
  "packetToEvent lib now packet raw source_ip source_port aliases =
     (let e0 = zero_event\<lparr>
            ev_received_at := now, ev_source_ip := source_ip, ev_source_port := source_port,
            ev_raw_bytes := raw, ev_version := gp_version packet, ev_community := gp_community packet,
            ev_pdu_type := gp_pdu_type_name packet\<rparr>;
          e1 = (if gp_version packet = lib_version1 lib then e0\<lparr>
            ev_enterprise_oid := gp_enterprise packet,
            ev_agent_address := gp_agent_address packet,
            ev_generic_trap := int_str (gp_generic_trap packet),
            ev_generic_trap_name := genericTrapName (gp_generic_trap packet),
            ev_specific_trap := int_str (gp_specific_trap packet),
            ev_uptime := nat_str (gp_timestamp packet),
            ev_trap_oid := ''v1:'' @ gp_enterprise packet @ '':'' @ int_str (gp_generic_trap packet) @
              '':'' @ int_str (gp_specific_trap packet)\<rparr> else e0);
          vbs = map pdu_varbind (gp_variables packet);
          raw_map = raw_varbind_map vbs;
          e2 = e1\<lparr>ev_varbinds := vbs, ev_raw_varbind_map := raw_map\<rparr>;
          e3 = (if gp_version packet \<noteq> lib_version1 lib then e2\<lparr>
            ev_trap_oid := Normalize (firstNonEmpty
              [str_get raw_map snmpTrapOID, str_get raw_map (''.'' @ snmpTrapOID)]),
            ev_uptime := Normalize (firstNonEmpty
              [str_get raw_map sysUpTimeOID, str_get raw_map (''.'' @ sysUpTimeOID)])\<rparr> else e2)
      in e3\<lparr>ev_fields := Some (receiver_fields lib e3 aliases (Some packet))\<rparr>)"

text \<open>A decoder without a configuration dereferences a nil pointer.\<close>

definition Decode ::
    "'t gosnmp_lib \<Rightarrow> 't gosnmp_decoder \<Rightarrow> int \<Rightarrow> bytes \<Rightarrow> string \<Rightarrow> int \<Rightarrow> trap_event res" where
  "Decode lib d now data source_ip source_port =
     (case (case dec_g d of
              None \<Rightarrow> None
            | Some g \<Rightarrow>
               (case lib_unmarshal_trap lib g data of Inr (Some packet) \<Rightarrow> Some packet | _ \<Rightarrow> None)) of
        Some packet \<Rightarrow>
         (case dec_cfg d of
            None \<Rightarrow> Inl (Panic ''nil pointer dereference'')
          | Some cfg \<Rightarrow>
              Inr (packetToEvent lib now packet data source_ip source_port (ac_field_aliases cfg)))
      | None \<Rightarrow>
         (case dec_cfg d of
            None \<Rightarrow> Inl (Panic ''nil pointer dereference'')
          | Some cfg \<Rightarrow> ParseTrap now data source_ip source_port (ac_field_aliases cfg)))"

lemmas receiver_run [run_simps] =
  parseAuthProtocolStrict_def parsePrivProtocolStrict_def buildUSM_def Reload_decoder_def New_decoder_def
  genericTrapName_def pdu_varbind_def receiver_fields_def packetToEvent_def Decode_def

section \<open>Reload\<close>

lemma parseAuth_Inl: "parseAuthProtocolStrict s = Inl e \<Longrightarrow> \<not> is_panic e"
  by (auto simp: parseAuthProtocolStrict_def Let_def split: if_splits)

lemma parsePriv_Inl: "parsePrivProtocolStrict s = Inl e \<Longrightarrow> \<not> is_panic e"
  by (auto simp: parsePrivProtocolStrict_def Let_def split: if_splits)

text \<open>The table that \<open>Reload\<close> builds is the fold of the library's \<open>Add\<close> over the users.\<close>

lemma add_users_Inr_buildUSM:
  "add_users lib table users = Inr table' \<Longrightarrow> user \<in> set users \<Longrightarrow> \<exists>sec. buildUSM user = Inr sec"
  by (induction lib table users rule: add_users.induct) (auto simp: rbind_Inr_iff)

lemma buildUSM_Inr:
  "buildUSM user = Inr sec \<Longrightarrow>
     trim_space (v3_user_name user) \<noteq> [] \<and> us_user_name sec = v3_user_name user \<and>
     us_auth_passphrase sec = v3_auth_passphrase user \<and> us_priv_passphrase sec = v3_priv_passphrase user \<and>
     parseAuthProtocolStrict (v3_auth_protocol user) = Inr (us_auth_protocol sec) \<and>
     parsePrivProtocolStrict (v3_priv_protocol user) = Inr (us_priv_protocol sec)"
  by (auto simp: buildUSM_def rbind_Inr_iff split: if_splits)

section \<open>The two routes to an event\<close>

lemma genericTrapName_table:
  "genericTrapName code = (case genericTrapNames code of Some n \<Rightarrow> n | None \<Rightarrow> int_str code)"
  by (simp add: genericTrapName_def genericTrapNames_def)

text \<open>The event both routes start from: the datagram and the header of the message.\<close>

definition packet_header :: "int \<Rightarrow> gosnmp_packet \<Rightarrow> bytes \<Rightarrow> string \<Rightarrow> int \<Rightarrow> trap_event" where
  "packet_header now packet raw source_ip source_port =
     zero_event\<lparr>
       ev_received_at := now, ev_source_ip := source_ip, ev_source_port := source_port,
       ev_raw_bytes := raw, ev_version := gp_version packet, ev_community := gp_community packet,
       ev_pdu_type := gp_pdu_type_name packet\<rparr>"

text \<open>
  The library route stores what the relay's own parser stores for the same message content: a
  packet of version 1 gives the event of \<open>parseV1\<close>, any other packet that of \<open>parseV2\<close> with a
  request id and error fields of 0. Only the field map differs.
\<close>

lemma packetToEvent_body:
  "packetToEvent lib now p raw ip port aliases =
     (let vbs = map pdu_varbind (gp_variables p);
          e = (if gp_version p = lib_version1 lib
               then v1_event (packet_header now p raw ip port) (gp_enterprise p) (gp_agent_address p)
                      (gp_generic_trap p) (gp_specific_trap p) (int (gp_timestamp p)) vbs
               else v2_event (packet_header now p raw ip port) 0 0 0 vbs)
      in e\<lparr>ev_fields := Some (receiver_fields lib e aliases (Some p))\<rparr>)"
proof -
  have "nat_str n = int_str (int n)" for n by (simp add: int_str_def)
  then show ?thesis
    by (simp add: packetToEvent_def v1_event_def v2_event_def packet_header_def zero_event_def Let_def
        genericTrapName_table)
qed

section \<open>What a decoder promises\<close>

text \<open>
  The interface \<open>Decoder\<close> of the repository with the promises its callers rely on: an event
  carries the datagram, its source and its time, has not been announced yet and has a field map;
  a decoder that is \<open>ready\<close> does not panic.
\<close>

definition decoded_from :: "int \<Rightarrow> bytes \<Rightarrow> string \<Rightarrow> int \<Rightarrow> trap_event \<Rightarrow> bool" where
  "decoded_from now data ip port e \<longleftrightarrow>
     ev_raw_bytes e = data \<and> ev_source_ip e = ip \<and> ev_source_port e = port \<and> ev_received_at e = now \<and>
     \<not> ev_alerts_logged e \<and> ev_fields e \<noteq> None"

locale trap_decoder =
  fixes decode :: "'d \<Rightarrow> int \<Rightarrow> bytes \<Rightarrow> string \<Rightarrow> int \<Rightarrow> trap_event res"
    and ready :: "'d \<Rightarrow> bool"
  assumes decode_from: "decode d now data ip port = Inr e \<Longrightarrow> decoded_from now data ip port e"
    and decode_no_panic: "ready d \<Longrightarrow> no_panic (decode d now data ip port)"
begin

lemma decode_raw: "decode d now data ip port = Inr e \<Longrightarrow> ev_raw_bytes e = data"
  using decode_from by (simp add: decoded_from_def)

lemma decode_fresh: "decode d now data ip port = Inr e \<Longrightarrow> \<not> ev_alerts_logged e \<and> ev_fields e \<noteq> None"
  using decode_from by (auto simp: decoded_from_def)

lemma decode_time: "decode d now data ip port = Inr e \<Longrightarrow> ev_received_at e = now"
  using decode_from by (simp add: decoded_from_def)

end

lemma event_of_datagram_from: "event_of_datagram now data ip port e \<Longrightarrow> decoded_from now data ip port e"
  by (simp add: event_of_datagram_def decoded_from_def)

lemma packetToEvent_from: "decoded_from now data ip port (packetToEvent lib now p data ip port aliases)"
  by (simp add: packetToEvent_body Let_def decoded_from_def v1_event_def v2_event_def packet_header_def zero_event_def)

lemma parser_decoded_from: "ParseTrap now data ip port aliases = Inr e \<Longrightarrow> decoded_from now data ip port e"
  by (intro event_of_datagram_from) (rule ParseTrap_datagram)

interpretation parser: trap_decoder "\<lambda>aliases now data ip port. ParseTrap now data ip port aliases" "\<lambda>_. True"
  by unfold_locales (simp_all add: parser_decoded_from ParseTrap_safe)

interpretation gosnmp: trap_decoder "Decode lib" "\<lambda>d. dec_cfg d \<noteq> None" for lib :: "'t gosnmp_lib"
proof
  fix d :: "'t gosnmp_decoder" and now data ip port e
  assume "Decode lib d now data ip port = Inr e"
  then show "decoded_from now data ip port e"
    by (auto simp: Decode_def packetToEvent_from parser_decoded_from split: option.splits)
next
  fix d :: "'t gosnmp_decoder" and now data ip port
  assume "dec_cfg d \<noteq> None"
  then show "no_panic (Decode lib d now data ip port)"
    by (auto simp: Decode_def ParseTrap_safe split: option.splits)
qed

section \<open>Properties\<close>

text \<open>A library without packets of its own, over association lists of users.\<close>

definition sample_lib :: "(string \<times> usm_params) list gosnmp_lib" where
  "sample_lib =
     \<lparr>lib_version1 = 0, lib_version3 = 3, lib_new_table = [],
      lib_table_add = (\<lambda>t u s. Inr ((u, s) # t)),
      lib_unmarshal_trap = (\<lambda>t data. if data = [0] then Inr (Some
          \<lparr>gp_version = 1, gp_community = ''pu'', gp_pdu_type_name = ''SNMPv2Trap'', gp_enterprise = [],
           gp_agent_address = [], gp_generic_trap = 0, gp_specific_trap = 0, gp_timestamp = 0,
           gp_variables = []\<rparr>) else Inl (EnvError ''unmarshal''))\<rparr>"

definition sample_config :: app_config where
  "sample_config =
     \<lparr>ac_server = \<lparr>sc_host = ''0.0.0.0'', sc_port = 162, sc_max_datagram_size = 8192,
        sc_cleanup_interval_seconds = 30, sc_max_dedup_entries = 2, sc_queue_size = 8, sc_worker_count = 1,
        sc_stats_log_interval_secs = 60\<rparr>,
      ac_runtime = \<lparr>rc_memory_limit = []\<rparr>,
      ac_metrics = \<lparr>mc_enabled = False, mc_host = ''127.0.0.1'', mc_port = 9163, mc_path = ''/metrics''\<rparr>,
      ac_logging = \<lparr>lc_level = ''INFO'', lc_format = ''text'', lc_file = [], lc_alerts_file = []\<rparr>,
      ac_receiver = \<lparr>rv_v3_users = [\<lparr>v3_user_name = ''u'', v3_auth_protocol = ''SHA'', v3_auth_passphrase = ''a'',
        v3_priv_protocol = ''aes'', v3_priv_passphrase = ''p''\<rparr>]\<rparr>,
      ac_field_aliases = None, ac_forwarders = [],
      ac_filters = \<lparr>fl_default_action = ''forward'', fl_rules = []\<rparr>,
      ac_dedup_defaults = \<lparr>dd_ttl_seconds = 120, dd_key_fields = [''source_ip''], dd_hold_until_clear = False,
        dd_clear = None\<rparr>,
      ac_alarms = []\<rparr>"

text \<open>
  A reload either installs a session for exactly the new configuration, every user of which
  has a name and known protocols, or reports an error and leaves the decoder as it was.
\<close>

lemma Reload_decoder_atomic:
  "(case Reload_decoder lib d cfg of
      (Inl e, d') \<Rightarrow> d' = d
    | (Inr _, d') \<Rightarrow> dec_cfg d' = Some cfg \<and> dec_g d' \<noteq> None \<and>
        list_all (\<lambda>user. trim_space (v3_user_name user) \<noteq> []) (rv_v3_users (ac_receiver cfg)))"
  by (auto simp: Reload_decoder_def Let_def list_all_iff split: sum.splits
      dest!: add_users_Inr_buildUSM dest: buildUSM_Inr)

text \<open>
  On an event without request id and error fields the two \<open>buildFields\<close> of the repository give
  the same field map, up to the \<open>snmp_version\<close> of an SNMPv3 packet.
\<close>

lemma receiver_fields_eq:
  assumes "ev_request_id e = 0" "ev_error_status e = 0" "ev_error_index e = 0"
    and "gp_version p \<noteq> lib_version3 lib"
  shows "Some (receiver_fields lib e aliases (Some p)) = ev_fields (buildFields e aliases)"
  using assms by (simp add: receiver_fields_def buildFields_def event_fields_def set_if_def)

lemma receiver_fields_eq_witness:
  "Some (receiver_fields sample_lib zero_event None (Some \<lparr>gp_version = 1, gp_community = [], gp_pdu_type_name = [],
     gp_enterprise = [], gp_agent_address = [], gp_generic_trap = 0, gp_specific_trap = 0, gp_timestamp = 0,
     gp_variables = []\<rparr>)) = ev_fields (buildFields zero_event None)"
  by (rule receiver_fields_eq) (simp_all add: zero_event_def sample_lib_def)

text \<open>
  A decoder that has been built by \<open>New\<close> never panics on a datagram, whatever the library
  returns, and every event it makes carries the datagram unchanged.
\<close>

lemma Decode_safe:
  assumes "New_decoder lib cfg = Inr d"
  shows "no_panic (Decode lib d now data ip port) \<and>
    (\<forall>e. Decode lib d now data ip port = Inr e \<longrightarrow> decoded_from now data ip port e)"
proof -
  have "dec_cfg d \<noteq> None"
    using assms by (auto simp: New_decoder_def Reload_decoder_def Let_def split: if_splits sum.splits prod.splits)
  then show ?thesis using gosnmp.decode_no_panic gosnmp.decode_from by blast
qed

lemma Decode_safe_witness:
  "\<exists>d. New_decoder sample_lib sample_config = Inr d \<and>
       no_panic (Decode sample_lib d 5 [0x30] ''10.0.0.1'' 162)"
proof -
  have usm: "buildUSM \<lparr>v3_user_name = ''u'', v3_auth_protocol = ''SHA'', v3_auth_passphrase = ''a'',
      v3_priv_protocol = ''aes'', v3_priv_passphrase = ''p''\<rparr> =
    Inr \<lparr>us_user_name = ''u'', us_auth_passphrase = ''a'', us_priv_passphrase = ''p'', us_auth_protocol = SHA,
      us_priv_protocol = AES\<rparr>"
    by (simp add: run_simps)
  obtain d where "New_decoder sample_lib sample_config = Inr d"
    by (simp add: New_decoder_def Reload_decoder_def sample_lib_def sample_config_def usm)
  with Decode_safe [OF this] show ?thesis by blast
qed

end
