(* ===== verification/Field_Match.thy ===== *)
theory Field_Match
  imports Complex_Main "HOL-Library.Multiset" Receiver
begin

text \<open>
  \<open>internal/match/match.go\<close>: the resolution of field names against an event, the evaluation of match
  specifications, and the key that identifies an alarm. The standard library's regular
  expressions, \<open>ParseFloat\<close> and SHA-256 are the fields of a record the definitions take. A match
  specification is iterated in the order of its association list, which stands for the random
  order of a Go map; the theorems show that the result does not depend on it.
\<close>

section \<open>What the standard library provides\<close>

text \<open>A \<^verbatim>\<open>float64\<close>: a rational, an infinity or NaN, which compares false with everything.\<close>

datatype go_float = NegInf | Finite rat | PosInf | NotANumber

fun float_le :: "go_float \<Rightarrow> go_float \<Rightarrow> bool" where
  "float_le NotANumber _ = False"
| "float_le _ NotANumber = False"
| "float_le NegInf _ = True"
| "float_le _ PosInf = True"
| "float_le (Finite a) (Finite b) = (a \<le> b)"
| "float_le _ _ = False"

fun float_lt :: "go_float \<Rightarrow> go_float \<Rightarrow> bool" where
  "float_lt NotANumber _ = False"
| "float_lt _ NotANumber = False"
| "float_lt NegInf NegInf = False"
| "float_lt NegInf _ = True"
| "float_lt PosInf _ = False"
| "float_lt _ PosInf = True"
| "float_lt (Finite a) (Finite b) = (a < b)"
| "float_lt _ _ = False"

text \<open>\<open>env_regex p\<close> is the compiled pattern, \<open>None\<close> for a pattern that does not compile.\<close>

record match_env =
  env_regex :: "string \<Rightarrow> (string \<Rightarrow> bool) option"
  env_parse_float :: "string \<Rightarrow> go_float res"
  env_sha256 :: "bytes \<Rightarrow> bytes"

definition regexp_MatchString :: "match_env \<Rightarrow> string \<Rightarrow> string \<Rightarrow> bool res" where
  "regexp_MatchString W pattern s =
     (case env_regex W pattern of
        None \<Rightarrow> Inl (EnvError ''error parsing regexp'')
      | Some m \<Rightarrow> Inr (m s))"

section \<open>Fields\<close>

text \<open>The first of the spellings of an OID that has a \<open>varbind.\<close> field.\<close>

fun first_variant :: "trap_event \<Rightarrow> string list \<Rightarrow> string option" where
  "first_variant e [] = None"
| "first_variant e (v # vs) =
     (case map_get (ev_fields e) (''varbind.'' @ v) of
        Some s \<Rightarrow> Some s
      | None \<Rightarrow> first_variant e vs)"

definition ResolveField :: "trap_event \<Rightarrow> string \<Rightarrow> string" where
  "ResolveField e field =
     (if field = [] then []
      else case map_get (ev_fields e) field of
        Some s \<Rightarrow> s
      | None \<Rightarrow>
      (case (if has_prefix field ''fields.''
             then map_get (ev_fields e) (trim_prefix field ''fields.'') else None) of
        Some s \<Rightarrow> s
      | None \<Rightarrow>
      (case (if has_prefix field ''varbind.''
             then first_variant e (Variants (trim_prefix field ''varbind.'')) else None) of
        Some s \<Rightarrow> s
      | None \<Rightarrow>
      (case (if has_prefix field ''varbind:''
             then first_variant e (Variants (trim_prefix field ''varbind:'')) else None) of
        Some s \<Rightarrow> s
      | None \<Rightarrow> []))))"

definition isOIDField :: "string \<Rightarrow> bool" where
  "isOIDField field \<longleftrightarrow>
     field = ''trap_oid'' \<or> field = ''enterprise_oid'' \<or>
     has_prefix field ''varbind.'' \<or> has_prefix field ''varbind:''"

text \<open>\<open>oidutil.Normalize\<close> on the OID fields only, as every comparison does.\<close>

definition norm_for :: "string \<Rightarrow> string \<Rightarrow> string" where
  "norm_for field s = (if isOIDField field then Normalize s else s)"

section \<open>Conditions\<close>

record condition =
  cond_field :: string
  cond_op :: string
  cond_value :: yval

fun as_string :: "yval \<Rightarrow> string" where
  "as_string (YStr s) = s"
| "as_string _ = []"

text \<open>\<open>m[k]\<close> on a \<^verbatim>\<open>map[string]any\<close>: nil where there is no entry.\<close>

definition yget :: "(string \<rightharpoonup> yval) \<Rightarrow> string \<Rightarrow> yval" where
  "yget m k = (case m k of None \<Rightarrow> YNil | Some v \<Rightarrow> v)"

definition condition_of :: "(string \<rightharpoonup> yval) \<Rightarrow> condition" where
  "condition_of m =
     (let op = as_string (yget m ''op'') in
      \<lparr>cond_field = as_string (yget m ''field''),
       cond_op = (if op = [] then ''eq'' else op),
       cond_value = yget m ''value''\<rparr>)"

fun parse_condition :: "yval \<Rightarrow> condition res" where
  "parse_condition (YMap kvs) = Inr (condition_of (map_of kvs))"
| "parse_condition (YAnyMap kvs) =
     Inr (condition_of (foldl (\<lambda>m (k, v). m(sprint k \<mapsto> v)) Map.empty kvs))"
| "parse_condition _ = Inl (Errorf ''match condition must be a mapping'' [])"

fun parseConditionList :: "yval \<Rightarrow> condition list res" where
  "parseConditionList (YList items) = mapM parse_condition items"
| "parseConditionList YNil = Inr []"
| "parseConditionList _ = Inl (Errorf ''match list must be a slice'' [])"

definition parseNumber :: "match_env \<Rightarrow> string \<Rightarrow> go_float res" where
  "parseNumber W s =
     (if contains_str s ''.'' then env_parse_float W s else env_parse_float W s)"

text \<open>The reflective branch for other slices is never taken on a value of the YAML decoder.\<close>

fun inList :: "string \<Rightarrow> yval \<Rightarrow> bool \<Rightarrow> bool" where
  "inList actual (YList items) oid =
     list_ex (\<lambda>item. actual = (if oid then Normalize (sprint item) else sprint item)) items"
| "inList actual _ oid = False"

definition conditionMatches :: "match_env \<Rightarrow> trap_event \<Rightarrow> condition \<Rightarrow> bool res" where
  "conditionMatches W e c =
     (let actual = norm_for (cond_field c) (ResolveField e (cond_field c));
          expected = norm_for (cond_field c) (sprint (cond_value c));
          op = to_lower (cond_op c) in
      if op = ''exists'' then Inr (actual \<noteq> [])
      else if op = ''eq'' then Inr (actual = expected)
      else if op = ''ne'' then Inr (actual \<noteq> expected)
      else if op = ''contains'' then Inr (contains_str actual expected)
      else if op = ''prefix'' then Inr (has_prefix actual expected)
      else if op = ''suffix'' then Inr (has_suffix actual expected)
      else if op = ''regex'' then regexp_MatchString W expected actual
      else if op = ''in'' then Inr (inList actual (cond_value c) (isOIDField (cond_field c)))
      else if op = ''gt'' \<or> op = ''ge'' \<or> op = ''lt'' \<or> op = ''le'' then
        (case parseNumber W actual of
           Inl _ \<Rightarrow> Inr False
         | Inr l \<Rightarrow>
            (case parseNumber W (sprint (cond_value c)) of
               Inl _ \<Rightarrow> Inr False
             | Inr r \<Rightarrow>
                Inr (if op = ''gt'' then float_lt r l
                     else if op = ''ge'' then float_le r l
                     else if op = ''lt'' then float_lt l r
                     else float_le l r)))
      else Inl (Errorf ''unsupported operator %q'' [cond_op c]))"

section \<open>Specifications\<close>

text \<open>The loops over the conditions of one group; each stops at the first answer.\<close>

fun all_match :: "match_env \<Rightarrow> trap_event \<Rightarrow> condition list \<Rightarrow> bool res" where
  "all_match W e [] = Inr True"
| "all_match W e (c # cs) =
     rbind (conditionMatches W e c) (\<lambda>ok. if ok then all_match W e cs else Inr False)"

fun any_match :: "match_env \<Rightarrow> trap_event \<Rightarrow> condition list \<Rightarrow> bool res" where
  "any_match W e [] = Inr False"
| "any_match W e (c # cs) =
     rbind (conditionMatches W e c) (\<lambda>ok. if ok then Inr True else any_match W e cs)"

fun none_match :: "match_env \<Rightarrow> trap_event \<Rightarrow> condition list \<Rightarrow> bool res" where
  "none_match W e [] = Inr True"
| "none_match W e (c # cs) =
     rbind (conditionMatches W e c) (\<lambda>ok. if ok then Inr False else none_match W e cs)"

text \<open>The loop over the fields of a specification without groups.\<close>

fun fields_match :: "trap_event \<Rightarrow> (string \<times> yval) list \<Rightarrow> bool" where
  "fields_match e [] = True"
| "fields_match e ((field, expected) # rest) =
     (if norm_for field (sprint expected) \<noteq> norm_for field (ResolveField e field) then False
      else fields_match e rest)"

definition grouped :: "(string \<rightharpoonup> yval) \<Rightarrow> bool" where
  "grouped raw \<longleftrightarrow> raw ''all'' \<noteq> None \<or> yget raw ''any'' \<noteq> YNil \<or> yget raw ''not'' \<noteq> YNil"

definition match_groups :: "match_env \<Rightarrow> trap_event \<Rightarrow> (string \<rightharpoonup> yval) \<Rightarrow> bool res" where
  "match_groups W e raw =
     rbind (case raw ''all'' of None \<Rightarrow> Inr [] | Some v \<Rightarrow> parseConditionList v) (\<lambda>all_conds.
     rbind (if yget raw ''any'' \<noteq> YNil then parseConditionList (yget raw ''any'') else Inr []) (\<lambda>any_conds.
     rbind (if yget raw ''not'' \<noteq> YNil then parseConditionList (yget raw ''not'') else Inr []) (\<lambda>not_conds.
     rbind (all_match W e all_conds) (\<lambda>ok.
       if \<not> ok then Inr False
       else rbind (if any_conds \<noteq> [] then any_match W e any_conds else Inr True) (\<lambda>matched.
         if \<not> matched then Inr False
         else none_match W e not_conds)))))"

definition Matches :: "match_env \<Rightarrow> trap_event \<Rightarrow> match_spec \<Rightarrow> bool res" where
  "Matches W e spec =
     (if ms_raw spec = [] then Inr True
      else if grouped (map_of (ms_raw spec)) then match_groups W e (map_of (ms_raw spec))
      else Inr (fields_match e (ms_raw spec)))"

section \<open>Dedup keys\<close>

definition key_item :: "string \<times> string \<Rightarrow> string" where
  "key_item fv = ''{\"field\":'' @ json_string (fst fv) @ '',\"value\":'' @ json_string (snd fv) @ ''}''"

definition key_payload :: "(string \<times> string) list \<Rightarrow> string" where
  "key_payload items = ''['' @ join_sep (map key_item items) '','' @ '']''"

text \<open>The loop over the key fields: the items found and the fields without a value.\<close>

fun collect_items :: "trap_event \<Rightarrow> string list \<Rightarrow> (string \<times> string) list \<times> string list" where
  "collect_items e [] = ([], [])"
| "collect_items e (f # fs) =
     (let (items, missing) = collect_items e fs; v = ResolveField e f in
      if v = [] then (items, f # missing) else ((f, v) # items, missing))"

definition BuildDedupKey :: "match_env \<Rightarrow> trap_event \<Rightarrow> string list \<Rightarrow> dedup_key res" where
  "BuildDedupKey W e key_fields =
     (let (items, missing) = collect_items e key_fields in
      if missing \<noteq> [] \<or> items = [] then Inr \<lparr>dk_hash = [], dk_repr = [], dk_missing_fields = missing\<rparr>
      else let payload = key_payload items in
        Inr \<lparr>dk_hash = hex_encode (env_sha256 W (bytes_of_str payload)), dk_repr = payload,
             dk_missing_fields = []\<rparr>)"

lemmas match_run [run_simps] =
  regexp_MatchString_def ResolveField_def isOIDField_def norm_for_def yget_def condition_of_def
  parseNumber_def conditionMatches_def grouped_def match_groups_def Matches_def
  key_item_def key_payload_def BuildDedupKey_def

section \<open>Specifications do not depend on the order of their entries\<close>

lemma fields_match_iff:
  "fields_match e raw \<longleftrightarrow>
     (\<forall>(field, v) \<in> set raw. norm_for field (sprint v) = norm_for field (ResolveField e field))"
  by (induction e raw rule: fields_match.induct) auto

lemma Matches_perm:
  assumes "mset (ms_raw s) = mset (ms_raw s')" "al_distinct (ms_raw s)"
  shows "Matches W e s = Matches W e s'"
proof -
  have "set (ms_raw s) = set (ms_raw s')" using assms(1) by (rule mset_eq_setD)
  moreover have "distinct (map fst (ms_raw s'))"
    using assms by (metis al_distinct_def mset_map mset_eq_imp_distinct_iff)
  then have "map_of (ms_raw s) = map_of (ms_raw s')"
    using assms(2) calculation by (intro map_of_inject_set [THEN iffD2]) (simp_all add: al_distinct_def)
  moreover have "ms_raw s = [] \<longleftrightarrow> ms_raw s' = []" using assms(1) by (metis mset_zero_iff)
  ultimately show ?thesis by (simp add: Matches_def fields_match_iff)
qed

section \<open>What conditions and groups mean\<close>

definition operators :: "string list" where
  "operators = [''exists'', ''eq'', ''ne'', ''contains'', ''prefix'', ''suffix'', ''regex'', ''in'',
     ''gt'', ''ge'', ''lt'', ''le'']"

lemma conditionMatches_defined:
  "(\<exists>b. conditionMatches W e c = Inr b) \<longleftrightarrow>
     to_lower (cond_op c) \<in> set operators \<and>
     (to_lower (cond_op c) = ''regex'' \<longrightarrow> env_regex W (norm_for (cond_field c) (sprint (cond_value c))) \<noteq> None)"
  unfolding conditionMatches_def Let_def operators_def regexp_MatchString_def
  by (cases "to_lower (cond_op c) = ''regex''") (auto split: sum.splits option.splits)

definition holds :: "match_env \<Rightarrow> trap_event \<Rightarrow> condition \<Rightarrow> bool" where
  "holds W e c \<longleftrightarrow> conditionMatches W e c = Inr True"

definition decided :: "match_env \<Rightarrow> trap_event \<Rightarrow> condition list \<Rightarrow> bool" where
  "decided W e cs \<longleftrightarrow> (\<forall>c \<in> set cs. \<exists>b. conditionMatches W e c = Inr b)"

lemma decided_nil [simp]: "decided W e []"
  by (simp add: decided_def)

lemma decided_Cons:
  "decided W e (c # cs) \<longleftrightarrow> conditionMatches W e c = Inr (holds W e c) \<and> decided W e cs"
  by (cases "conditionMatches W e c") (auto simp: decided_def holds_def)

lemma group_loops:
  assumes "decided W e cs"
  shows "all_match W e cs = Inr (\<forall>c \<in> set cs. holds W e c)"
    and "any_match W e cs = Inr (\<exists>c \<in> set cs. holds W e c)"
    and "none_match W e cs = Inr (\<forall>c \<in> set cs. \<not> holds W e c)"
  using assms by (induction cs) (auto simp: decided_Cons)

text \<open>The three groups of a specification, absent ones empty.\<close>

definition group_of :: "(string \<rightharpoonup> yval) \<Rightarrow> string \<Rightarrow> condition list res" where
  "group_of raw g = parseConditionList (yget raw g)"

lemma match_groups_of:
  "match_groups W e raw =
     rbind (group_of raw ''all'') (\<lambda>all_conds.
     rbind (group_of raw ''any'') (\<lambda>any_conds.
     rbind (group_of raw ''not'') (\<lambda>not_conds.
     rbind (all_match W e all_conds) (\<lambda>ok.
       if \<not> ok then Inr False
       else rbind (if any_conds \<noteq> [] then any_match W e any_conds else Inr True) (\<lambda>matched.
         if \<not> matched then Inr False
         else none_match W e not_conds)))))"
proof -
  have "(if v \<noteq> YNil then parseConditionList v else Inr []) = parseConditionList v" for v
    by simp
  moreover have "(case m of None \<Rightarrow> Inr [] | Some v \<Rightarrow> parseConditionList v) =
      parseConditionList (case m of None \<Rightarrow> YNil | Some v \<Rightarrow> v)" for m
    by (cases m) simp_all
  ultimately show ?thesis by (simp only: match_groups_def group_of_def yget_def)
qed

lemma match_groups_meaning:
  assumes "group_of raw ''all'' = Inr all_conds" "group_of raw ''any'' = Inr any_conds"
    "group_of raw ''not'' = Inr not_conds"
    and "decided W e all_conds" "decided W e any_conds" "decided W e not_conds"
  shows "match_groups W e raw = Inr
    ((\<forall>c \<in> set all_conds. holds W e c) \<and> (any_conds \<noteq> [] \<longrightarrow> (\<exists>c \<in> set any_conds. holds W e c)) \<and>
     (\<forall>c \<in> set not_conds. \<not> holds W e c))"
  using assms by (simp add: match_groups_of group_loops)

section \<open>Dedup keys identify their field values\<close>

lemma collect_items_eq:
  "collect_items e fs =
     (map (\<lambda>f. (f, ResolveField e f)) (filter (\<lambda>f. ResolveField e f \<noteq> []) fs),
      filter (\<lambda>f. ResolveField e f = []) fs)"
  by (induction fs) (auto simp: Let_def)

text \<open>A usable key: every key field has a value and there is at least one.\<close>

definition key_complete :: "trap_event \<Rightarrow> string list \<Rightarrow> bool" where
  "key_complete e fs \<longleftrightarrow> fs \<noteq> [] \<and> (\<forall>f \<in> set fs. ResolveField e f \<noteq> [])"

lemma BuildDedupKey_eq:
  "BuildDedupKey W e fs = Inr
     (if key_complete e fs
      then let payload = key_payload (map (\<lambda>f. (f, ResolveField e f)) fs) in
        \<lparr>dk_hash = hex_encode (env_sha256 W (bytes_of_str payload)), dk_repr = payload, dk_missing_fields = []\<rparr>
      else \<lparr>dk_hash = [], dk_repr = [], dk_missing_fields = filter (\<lambda>f. ResolveField e f = []) fs\<rparr>)"
proof (cases "filter (\<lambda>f. ResolveField e f = []) fs = []")
  case True
  then have "filter (\<lambda>f. ResolveField e f \<noteq> []) fs = fs" by (auto simp: filter_empty_conv filter_id_conv)
  with True show ?thesis
    by (auto simp: BuildDedupKey_def collect_items_eq key_complete_def Let_def filter_empty_conv)
next
  case False
  then have "\<not> key_complete e fs" by (auto simp: key_complete_def filter_empty_conv)
  with False show ?thesis by (simp add: BuildDedupKey_def collect_items_eq Let_def)
qed

lemma key_item_inject:
  assumes "utf8_valid f" "utf8_valid v" "utf8_valid f'" "utf8_valid v'"
    and "key_item (f, v) @ u = key_item (f', v') @ u'"
  shows "f = f' \<and> v = v' \<and> u = u'"
proof -
  have "json_string f @ '',\"value\":'' @ json_string v @ ''}'' @ u =
        json_string f' @ '',\"value\":'' @ json_string v' @ ''}'' @ u'"
    using assms(5) by (simp add: key_item_def)
  from json_string_inject [OF assms(1,3) this] have "f = f'"
    "json_string v @ ''}'' @ u = json_string v' @ ''}'' @ u'" by simp_all
  with json_string_inject [OF assms(2,4) this(2)] show ?thesis by simp
qed

definition valid_items :: "(string \<times> string) list \<Rightarrow> bool" where
  "valid_items items \<longleftrightarrow> (\<forall>(f, v) \<in> set items. utf8_valid f \<and> utf8_valid v)"

lemma key_items_inject:
  "valid_items xs \<Longrightarrow> valid_items ys \<Longrightarrow>
   concat (map (\<lambda>q. '','' @ key_item q) xs) @ '']'' = concat (map (\<lambda>q. '','' @ key_item q) ys) @ '']'' \<Longrightarrow>
   xs = ys"
proof (induction xs arbitrary: ys)
  case Nil
  then show ?case by (cases ys) auto
next
  case (Cons x xs)
  from Cons.prems obtain y zs where ys: "ys = y # zs" by (cases ys) auto
  obtain f v f' v' where xy: "x = (f, v)" "y = (f', v')" by (cases x, cases y)
  with Cons.prems ys have "key_item (f, v) @ concat (map (\<lambda>q. '','' @ key_item q) xs) @ '']'' =
    key_item (f', v') @ concat (map (\<lambda>q. '','' @ key_item q) zs) @ '']''" by simp
  with Cons.prems xy ys have "f = f' \<and> v = v' \<and>
      concat (map (\<lambda>q. '','' @ key_item q) xs) @ '']'' = concat (map (\<lambda>q. '','' @ key_item q) zs) @ '']''"
    by (intro key_item_inject) (auto simp: valid_items_def)
  with Cons xy ys show ?case by (auto simp: valid_items_def)
qed

lemma key_payload_tail:
  "xs \<noteq> [] \<Longrightarrow> CHR '','' # tl (key_payload xs) = concat (map (\<lambda>q. '','' @ key_item q) xs) @ '']''"
  by (cases xs) (simp_all add: key_payload_def comp_def)

lemma key_payload_inject:
  assumes "xs \<noteq> []" "ys \<noteq> []" "valid_items xs" "valid_items ys" "key_payload xs = key_payload ys"
  shows "xs = ys"
  using assms(3,4) key_payload_tail [OF assms(1)] key_payload_tail [OF assms(2)] unfolding assms(5)
  by (intro key_items_inject) (assumption | simp only:)+

section \<open>Spellings of a varbind field\<close>

text \<open>
  \<open>fields_indexed e\<close>: the field map holds the varbinds of the event under \<open>varbind.<oid>\<close> and
  nothing else that looks like one; no stored OID starts with a dot.
\<close>

definition fields_indexed :: "trap_event \<Rightarrow> bool" where
  "fields_indexed e \<longleftrightarrow>
     (\<forall>k. map_get (ev_fields e) (''varbind.'' @ k) = last_value (ev_varbinds e) k) \<and>
     (\<forall>k. map_get (ev_fields e) (''varbind:'' @ k) = None) \<and>
     (\<forall>k. last_value (ev_varbinds e) (CHR ''.'' # k) = None)"

definition spellings :: "string \<Rightarrow> string list" where
  "spellings oid = [''varbind.'' @ oid, ''varbind.'' @ CHR ''.'' # oid, ''varbind:'' @ oid, ''varbind:'' @ CHR ''.'' # oid]"

lemma ResolveField_spellings:
  assumes "fields_indexed e" "plain_oid oid" "field \<in> set (spellings oid)"
  shows "ResolveField e field = (case last_value (ev_varbinds e) oid of None \<Rightarrow> [] | Some v \<Rightarrow> v)"
proof -
  have first: "first_variant e vs = (case vs of [] \<Rightarrow> None | v # ws \<Rightarrow>
      (case last_value (ev_varbinds e) v of Some s \<Rightarrow> Some s | None \<Rightarrow> first_variant e ws))" for vs
    using assms(1) by (cases vs) (simp_all add: fields_indexed_def del: append.simps)
  have pre: "has_prefix (''varbind.'' @ k) ''fields.'' = False" "has_prefix (''varbind:'' @ k) ''fields.'' = False"
    "has_prefix (''varbind.'' @ k) ''varbind:'' = False" "has_prefix (''varbind:'' @ k) ''varbind.'' = False" for k
    by simp_all
  have dot: "ResolveField e (''varbind.'' @ k) = (case last_value (ev_varbinds e) k of Some s \<Rightarrow> s | None \<Rightarrow>
      (case first_variant e (Variants k) of Some s \<Rightarrow> s | None \<Rightarrow> []))" for k
    using assms(1) pre(1,3) [of k]
    by (simp add: ResolveField_def fields_indexed_def del: append.simps has_prefix_simps cong: if_weak_cong split: option.splits)
  have colon: "ResolveField e (''varbind:'' @ k) =
      (case first_variant e (Variants k) of Some s \<Rightarrow> s | None \<Rightarrow> [])" for k
    using assms(1) pre(2,4) [of k]
    by (simp add: ResolveField_def fields_indexed_def del: append.simps has_prefix_simps cong: if_weak_cong split: option.splits)
  have none: "last_value (ev_varbinds e) (CHR ''.'' # oid) = None"
    using assms(1) by (simp add: fields_indexed_def)
  have vars: "(case first_variant e (Variants k) of Some s \<Rightarrow> s | None \<Rightarrow> []) =
      (case last_value (ev_varbinds e) oid of None \<Rightarrow> [] | Some v \<Rightarrow> v)"
    if "k = oid \<or> k = CHR ''.'' # oid" for k
    using that assms(2) none by (auto simp: first split: option.splits)
  show ?thesis
    using assms(3) none
    by (auto simp del: append.simps simp: spellings_def dot colon vars split: option.splits)
qed

lemma add_varbind_fields_colon:
  assumes "aliases_avoid ''varbind:'' aliases"
  shows "add_varbind_fields aliases m vb (''varbind:'' @ k) = m (''varbind:'' @ k)"
proof -
  have "a \<noteq> ''varbind:'' @ k" if "lookupAlias aliases oid = Some a" for a oid
    using assms lookupAlias_range [OF that] has_prefix_append unfolding aliases_avoid_def by blast
  then show ?thesis by (auto simp: add_varbind_fields_def Let_def split: option.splits)
qed

lemma foldl_other: "(\<And>m vb. f m vb key = m key) \<Longrightarrow> foldl f m vbs key = m key"
proof (induction vbs arbitrary: m)
  case (Cons vb vbs)
  then show ?case by (simp only: foldl.simps)
qed simp

text \<open>Both decoders index the fields of their events, when no alias is spelled like a varbind.\<close>

definition aliases_clean :: "(string \<rightharpoonup> string) option \<Rightarrow> bool" where
  "aliases_clean aliases \<longleftrightarrow> aliases_avoid ''varbind.'' aliases \<and> aliases_avoid ''varbind:'' aliases"

lemma indexed_fields:
  assumes "aliases_clean aliases" "ev_fields e = Some (foldl (add_varbind_fields aliases) m (ev_varbinds e))"
    and vbs: "\<forall>vb \<in> set (ev_varbinds e). Normalize (vb_oid vb) = vb_oid vb \<and> (\<forall>k. vb_oid vb \<noteq> CHR ''.'' # k)"
    and base: "\<And>k. m (''varbind.'' @ k) = None" "\<And>k. m (''varbind:'' @ k) = None"
  shows "fields_indexed e"
proof -
  have avoid: "aliases_avoid ''varbind.'' aliases" "aliases_avoid ''varbind:'' aliases"
    using assms(1) by (simp_all add: aliases_clean_def)
  have "foldl (add_varbind_fields aliases) m (ev_varbinds e) (''varbind.'' @ k) = last_value (ev_varbinds e) k" for k
  proof -
    have "foldl (add_varbind_fields aliases) m (ev_varbinds e) (''varbind.'' @ k) =
        (case last_value (ev_varbinds e) k of None \<Rightarrow> m (''varbind.'' @ k) | Some v \<Rightarrow> Some v)"
      by (rule foldl_last_value [where f = "add_varbind_fields aliases" and key = "''varbind.'' @ k" and k = k])
         (use add_varbind_fields_oid [OF avoid(1)] vbs in blast)+
    then show ?thesis using base(1) [of k] by (simp del: append.simps split: option.splits)
  qed
  moreover have "foldl (add_varbind_fields aliases) m (ev_varbinds e) (''varbind:'' @ k) = None" for k
    using foldl_other [where f = "add_varbind_fields aliases" and key = "''varbind:'' @ k"]
      add_varbind_fields_colon [OF avoid(2)] base(2) [of k] by metis
  moreover have "last_value (ev_varbinds e) (CHR ''.'' # k) = None" for k
    by (rule last_value_None) (use vbs in blast)
  ultimately show ?thesis
    unfolding fields_indexed_def assms(2) map_get_simps by blast
qed

lemma event_fields_base:
  "event_fields e (''varbind.'' @ k) = None" "event_fields e (''varbind:'' @ k) = None"
  by (simp_all add: event_fields_def set_other header_fields_def)

lemma ParseTrap_varbinds_plain:
  assumes "ParseTrap now data ip port aliases = Inr e" "vb \<in> set (ev_varbinds e)"
  shows "Normalize (vb_oid vb) = vb_oid vb \<and> (\<forall>k. vb_oid vb \<noteq> CHR ''.'' # k)"
proof -
  from assms(1) obtain version community pdu e0 where
    p: "parse_pdu (new_event now data ip port version community pdu) pdu = Inr e0" "e = buildFields e0 aliases"
    by (rule ParseTrap_Inr)
  from p(1) obtain r vbs where r: "decodeVarBinds r = Inr vbs" "ev_varbinds e0 = vbs" by (rule parse_pdu_Inr)
  from decodeVarBinds_Inr [OF r(1)] obtain t where "varbind_list t vbs" by blast
  with assms(2) p(2) r(2) varbind_list_normal varbind_list_no_dot show ?thesis
    by (auto simp: buildFields_def)
qed

lemma ParseTrap_indexed:
  assumes "ParseTrap now data ip port aliases = Inr e" "aliases_clean aliases"
  shows "fields_indexed e"
proof -
  from assms(1) obtain e0 where e: "e = buildFields e0 aliases" by (rule ParseTrap_Inr)
  show ?thesis
  proof (rule indexed_fields [OF assms(2)])
    show "ev_fields e = Some (foldl (add_varbind_fields aliases) (event_fields e0) (ev_varbinds e))"
      by (simp add: e buildFields_def)
  qed (use ParseTrap_varbinds_plain [OF assms(1)] event_fields_base in blast)+
qed

text \<open>The library names a variable by a dotted OID.\<close>

definition plain_variables :: "gosnmp_packet \<Rightarrow> bool" where
  "plain_variables p \<longleftrightarrow> list_all (\<lambda>pdu. plain_oid (Normalize (gv_name pdu))) (gp_variables p)"

lemma packetToEvent_indexed:
  assumes "aliases_clean aliases" "plain_variables p"
  shows "fields_indexed (packetToEvent lib now p raw ip port aliases)" (is "fields_indexed ?e")
proof -
  define e0 where "e0 = (if gp_version p = lib_version1 lib
      then v1_event (packet_header now p raw ip port) (gp_enterprise p) (gp_agent_address p)
             (gp_generic_trap p) (gp_specific_trap p) (int (gp_timestamp p)) (map pdu_varbind (gp_variables p))
      else v2_event (packet_header now p raw ip port) 0 0 0 (map pdu_varbind (gp_variables p)))"
  have e: "?e = e0\<lparr>ev_fields := Some (receiver_fields lib e0 aliases (Some p))\<rparr>"
    by (simp add: packetToEvent_body e0_def Let_def)
  have vbs: "ev_varbinds ?e = map pdu_varbind (gp_variables p)" "ev_varbinds e0 = map pdu_varbind (gp_variables p)"
    by (simp_all add: e e0_def v1_event_def v2_event_def Let_def)
  obtain m where m: "receiver_fields lib e0 aliases (Some p) = foldl (add_varbind_fields aliases) m (ev_varbinds e0)"
    "\<And>k. m (''varbind.'' @ k) = None" "\<And>k. m (''varbind:'' @ k) = None"
    by (rule that, unfold receiver_fields_def, rule refl) (simp_all add: set_other header_fields_def)
  show ?thesis
  proof (rule indexed_fields [OF assms(1)])
    show "ev_fields ?e = Some (foldl (add_varbind_fields aliases) m (ev_varbinds ?e))"
      unfolding vbs(1) vbs(2) [symmetric] m(1) [symmetric] by (simp add: e)
    show "\<forall>vb \<in> set (ev_varbinds ?e). Normalize (vb_oid vb) = vb_oid vb \<and> (\<forall>k. vb_oid vb \<noteq> CHR ''.'' # k)"
      using assms(2) by (auto simp: vbs plain_variables_def list_all_iff pdu_varbind_def plain_oid_def)
  qed (rule m)+
qed

section \<open>Properties\<close>

text \<open>Concrete library functions and an event for the examples.\<close>

definition sample_env :: match_env where
  "sample_env =
     \<lparr>env_regex = (\<lambda>p. if p = ''('' then None else Some (\<lambda>s. s = p)),
      env_parse_float = (\<lambda>s. case parse_int s of (None, n) \<Rightarrow> Inr (Finite (of_int n)) | (Some e, _) \<Rightarrow> Inl e),
      env_sha256 = (\<lambda>bs. bs)\<rparr>"

definition sample_event :: trap_event where
  "sample_event = zero_event\<lparr>
     ev_source_ip := ''10.0.0.1'', ev_trap_oid := ''1.3.6.1.4.1.7'',
     ev_varbinds := [\<lparr>vb_oid = ''1.2'', vb_type_name = ''INTEGER'', vb_value = ''5''\<rparr>],
     ev_fields := Some [''source_ip'' \<mapsto> ''10.0.0.1'', ''trap_oid'' \<mapsto> ''1.3.6.1.4.1.7'', ''varbind.1.2'' \<mapsto> ''5'']\<rparr>"

lemmas sample_defs = sample_env_def sample_event_def zero_event_def

text \<open>
  The outcome of a match specification does not depend on the order in which the runtime
  iterates its entries.
\<close>

lemma Matches_order:
  assumes "mset (ms_raw s) = mset (ms_raw s')" "al_distinct (ms_raw s)"
  shows "Matches W e s = Matches W e s'"
  using assms by (rule Matches_perm)

lemma Matches_order_witness:
  "Matches sample_env sample_event \<lparr>ms_raw = [(''source_ip'', YStr ''10.0.0.1''), (''trap_oid'', YStr ''.1.3.6.1.4.1.7'')]\<rparr> =
   Matches sample_env sample_event \<lparr>ms_raw = [(''trap_oid'', YStr ''.1.3.6.1.4.1.7''), (''source_ip'', YStr ''10.0.0.1'')]\<rparr>"
  by (rule Matches_order) (simp_all add: al_distinct_def)

text \<open>
  A specification with groups holds exactly when all conditions of \<open>all\<close> hold, one of \<open>any\<close>
  does (unless it is empty), and none of \<open>not\<close> does; the other entries of such a specification
  are ignored.
\<close>

lemma Matches_groups:
  assumes "grouped (map_of (ms_raw s))"
    and "group_of (map_of (ms_raw s)) ''all'' = Inr all_conds" "group_of (map_of (ms_raw s)) ''any'' = Inr any_conds"
    "group_of (map_of (ms_raw s)) ''not'' = Inr not_conds"
    and "decided W e all_conds" "decided W e any_conds" "decided W e not_conds"
  shows "Matches W e s = Inr
    ((\<forall>c \<in> set all_conds. holds W e c) \<and> (any_conds \<noteq> [] \<longrightarrow> (\<exists>c \<in> set any_conds. holds W e c)) \<and>
     (\<forall>c \<in> set not_conds. \<not> holds W e c))"
proof -
  have "ms_raw s \<noteq> []" using assms(1) by (auto simp: grouped_def yget_def)
  then show ?thesis using assms(1) match_groups_meaning [OF assms(2-)] by (simp add: Matches_def)
qed

definition sample_condition :: condition where
  "sample_condition = \<lparr>cond_field = ''varbind.1.2'', cond_op = ''EQ'', cond_value = YScalar ''5''\<rparr>"

definition sample_groups :: match_spec where
  "sample_groups = \<lparr>ms_raw = [(''source_ip'', YStr ''ignored''),
     (''any'', YList [YMap [(''field'', YStr ''varbind.1.2''), (''op'', YStr ''EQ''), (''value'', YScalar ''5'')]])]\<rparr>"

lemma Matches_groups_witness: "Matches sample_env sample_event sample_groups = Inr True"
proof -
  have c: "conditionMatches sample_env sample_event sample_condition = Inr True"
    by (simp add: sample_condition_def sample_defs run_simps)
  then have "decided sample_env sample_event [sample_condition]" by (simp add: decided_Cons decided_nil holds_def)
  moreover have "group_of (map_of (ms_raw sample_groups)) ''any'' = Inr [sample_condition]"
    by (simp add: sample_groups_def sample_condition_def yget_def group_of_def condition_of_def)
  ultimately show ?thesis
    using Matches_groups [of sample_groups "[]" "[sample_condition]" "[]" sample_env sample_event] c
    by (simp add: sample_groups_def grouped_def yget_def group_of_def decided_nil holds_def)
qed

text \<open>
  A condition gives an answer exactly when its operator, in any case, is one of the twelve
  and its pattern, if it is a regular expression, compiles; otherwise it is an error.
\<close>

lemma conditionMatches_answers:
  "accepts (conditionMatches W e c) \<longleftrightarrow>
     to_lower (cond_op c) \<in> set operators \<and>
     \<not> (to_lower (cond_op c) = ''regex'' \<and> env_regex W (norm_for (cond_field c) (sprint (cond_value c))) = None)"
  using conditionMatches_defined [of W e c] by (auto simp: accepts_def)

text \<open>
  On an event of the relay's own parser the four spellings of a varbind field (\<open>varbind.\<close> or
  \<open>varbind:\<close>, with or without a leading dot) resolve to the value of the last varbind of that OID,
  or to nothing when the event has none.
\<close>

lemma ResolveField_parsed:
  assumes "ParseTrap now data ip port aliases = Inr e" "aliases_clean aliases"
    and "plain_oid oid" "field \<in> set (spellings oid)"
  shows "ResolveField e field = (case last_value (ev_varbinds e) oid of None \<Rightarrow> [] | Some v \<Rightarrow> v)"
  using ParseTrap_indexed [OF assms(1,2)] assms(3,4) by (rule ResolveField_spellings)

lemma ResolveField_parsed_witness:
  "ResolveField sample_parsed ''varbind:.1.3.6.1.6.3.1.1.4.1.0'' = ''1.3.6.1.4.1.7''"
proof -
  have "ResolveField sample_parsed ''varbind:.1.3.6.1.6.3.1.1.4.1.0'' =
    (case last_value (ev_varbinds sample_parsed) snmpTrapOID of None \<Rightarrow> [] | Some v \<Rightarrow> v)"
    by (rule ResolveField_parsed [OF ParseTrap_sample])
       (simp_all add: aliases_clean_def aliases_avoid_def snmpTrapOID_def plain_oid_def oid_char_def is_digit_def
         spellings_def)
  then show ?thesis by (simp add: sample_parsed_def last_value_def snmpTrapOID_def)
qed

text \<open>
  C20. The dedup key identifies the values of its fields: two events with complete keys of valid
  text get the same hash exactly when they agree on every key field, as long as SHA-256 does not
  collide on the two payloads.
\<close>

lemma BuildDedupKey_identifies:
  assumes "BuildDedupKey W e1 fs = Inr k1" "BuildDedupKey W e2 fs = Inr k2"
    and "key_complete e1 fs" "key_complete e2 fs"
    and "\<forall>f \<in> set fs. utf8_valid f \<and> utf8_valid (ResolveField e1 f) \<and> utf8_valid (ResolveField e2 f)"
    and collision_free: "env_sha256 W (bytes_of_str (dk_repr k1)) = env_sha256 W (bytes_of_str (dk_repr k2)) \<Longrightarrow>
      dk_repr k1 = dk_repr k2"
  shows "dk_hash k1 = dk_hash k2 \<longleftrightarrow> (\<forall>f \<in> set fs. ResolveField e1 f = ResolveField e2 f)"
proof -
  let ?items = "\<lambda>e. map (\<lambda>f. (f, ResolveField e f)) fs"
  have k: "dk_repr k1 = key_payload (?items e1)" "dk_repr k2 = key_payload (?items e2)"
    "dk_hash k1 = hex_encode (env_sha256 W (bytes_of_str (dk_repr k1)))"
    "dk_hash k2 = hex_encode (env_sha256 W (bytes_of_str (dk_repr k2)))"
    using assms(1-4) by (auto simp: BuildDedupKey_eq Let_def)
  have "?items e1 = ?items e2 \<longleftrightarrow> (\<forall>f \<in> set fs. ResolveField e1 f = ResolveField e2 f)" by auto
  moreover have "?items e1 = ?items e2" if "key_payload (?items e1) = key_payload (?items e2)"
  proof (rule key_payload_inject [OF _ _ _ _ that])
    show "?items e1 \<noteq> []" "?items e2 \<noteq> []" using assms(3) by (simp_all add: key_complete_def)
  qed (use assms(5) in \<open>auto simp: valid_items_def\<close>)
  ultimately show ?thesis
    using collision_free k by (metis hex_encode_inject)
qed

lemma BuildDedupKey_identifies_witness:
  "\<exists>k1 k2. BuildDedupKey sample_env sample_event [''trap_oid''] = Inr k1 \<and>
     BuildDedupKey sample_env (sample_event\<lparr>ev_fields := Some [''trap_oid'' \<mapsto> ''9'']\<rparr>) [''trap_oid''] = Inr k2 \<and>
     dk_hash k1 \<noteq> dk_hash k2"
proof -
  let ?e2 = "sample_event\<lparr>ev_fields := Some [''trap_oid'' \<mapsto> ''9'']\<rparr>"
  have r: "ResolveField sample_event ''trap_oid'' = ''1.3.6.1.4.1.7''" "ResolveField ?e2 ''trap_oid'' = ''9''"
    by (simp_all add: ResolveField_def sample_defs)
  have inj: "bytes_of_str s = bytes_of_str t \<Longrightarrow> s = t" for s t by (metis str_of_bytes_of_str)
  obtain k1 k2 where k: "BuildDedupKey sample_env sample_event [''trap_oid''] = Inr k1"
    "BuildDedupKey sample_env ?e2 [''trap_oid''] = Inr k2" by (simp add: BuildDedupKey_eq)
  have "dk_hash k1 = dk_hash k2 \<longleftrightarrow>
      (\<forall>f \<in> set [''trap_oid'']. ResolveField sample_event f = ResolveField ?e2 f)"
  proof (rule BuildDedupKey_identifies [OF k])
    show "\<forall>f \<in> set [''trap_oid'']. utf8_valid f \<and> utf8_valid (ResolveField sample_event f) \<and>
        utf8_valid (ResolveField ?e2 f)"
      by (auto simp: r intro!: utf8_valid_ascii) (simp_all add: is_ascii_def)
  qed (simp_all add: key_complete_def r sample_env_def inj)
  with k r show ?thesis by auto
qed

end
