(* ===== verification/Dedup_Store.thy ===== *)
theory Dedup_Store
  imports Field_Match
begin

text \<open>
  \<open>internal/dedup/store.go\<close>: the store of dedup states. The Go map is an association list with
  distinct keys in the order in which the runtime would iterate it, and a state that the code
  mutates through its pointer is updated in place. Each operation runs under the store's mutex and
  is one step. The store refines a map from (rule, key hash) to state; its interface to the engine
  is a locale over that map.
\<close>

section \<open>The store\<close>

type_synonym cache_key = "string \<times> string"

record store =
  st_states :: "(cache_key \<times> dedup_state) list"
  st_limit :: int

definition NewStore :: "int \<Rightarrow> store" where
  "NewStore limit = \<lparr>st_states = [], st_limit = limit\<rparr>"

definition compactEvent :: "trap_event \<Rightarrow> trap_event" where
  "compactEvent e =
     zero_event\<lparr>ev_received_at := ev_received_at e, ev_source_ip := ev_source_ip e,
       ev_source_port := ev_source_port e, ev_trap_oid := ev_trap_oid e\<rparr>"

text \<open>A state that \<open>Get\<close> and \<open>Cleanup\<close> leave alone.\<close>

definition live :: "int \<Rightarrow> dedup_state \<Rightarrow> bool" where
  "live now st \<longleftrightarrow> ds_hold_until_clear st \<or> now < expires_at st"

definition Store_Cleanup :: "store \<Rightarrow> int \<Rightarrow> dedup_state list \<times> store" where
  "Store_Cleanup s now =
     (map snd (filter (\<lambda>(_, st). \<not> live now st) (st_states s)),
      s\<lparr>st_states := filter (\<lambda>(_, st). live now st) (st_states s)\<rparr>)"

definition Store_Get :: "store \<Rightarrow> string \<Rightarrow> string \<Rightarrow> int \<Rightarrow> dedup_state option \<times> store" where
  "Store_Get s rule_id key_hash now =
     (case map_of (st_states s) (rule_id, key_hash) of
        None \<Rightarrow> (None, s)
      | Some st \<Rightarrow>
          if \<not> live now st then (None, s\<lparr>st_states := al_del (rule_id, key_hash) (st_states s)\<rparr>)
          else (Some st, s))"

text \<open>The loop of \<open>evictOldestLocked\<close>: the first of the entries with the least time last seen.\<close>

fun oldest_entry ::
    "(cache_key \<times> dedup_state) option \<Rightarrow> (cache_key \<times> dedup_state) list \<Rightarrow> (cache_key \<times> dedup_state) option" where
  "oldest_entry best [] = best"
| "oldest_entry best (p # ps) =
     (case best of
        None \<Rightarrow> oldest_entry (Some p) ps
      | Some q \<Rightarrow>
          if ds_last_seen_at (snd p) < ds_last_seen_at (snd q) then oldest_entry (Some p) ps
          else oldest_entry (Some q) ps)"

definition evictOldest :: "store \<Rightarrow> store" where
  "evictOldest s =
     (case oldest_entry None (st_states s) of
        None \<Rightarrow> s
      | Some (k, _) \<Rightarrow> s\<lparr>st_states := al_del k (st_states s)\<rparr>)"

definition new_state :: "string \<Rightarrow> string \<Rightarrow> string \<Rightarrow> trap_event \<Rightarrow> int \<Rightarrow> bool \<Rightarrow> dedup_state" where
  "new_state rule_id key_hash key_repr event ttl hold =
     \<lparr>ds_rule_id = rule_id, ds_key_hash = key_hash, ds_key_repr = key_repr,
      ds_first_event = compactEvent event, ds_first_seen_at = ev_received_at event,
      ds_last_seen_at = ev_received_at event, ds_ttl_seconds = ttl, ds_hold_until_clear = hold,
      ds_suppressed_count = 0\<rparr>"

definition Store_Put ::
    "store \<Rightarrow> string \<Rightarrow> string \<Rightarrow> string \<Rightarrow> trap_event \<Rightarrow> int \<Rightarrow> bool \<Rightarrow> dedup_state \<times> store" where
  "Store_Put s rule_id key_hash key_repr event ttl hold =
     (let s1 = (if 0 < st_limit s \<and> st_limit s \<le> int (length (st_states s)) then evictOldest s else s);
          st = new_state rule_id key_hash key_repr event ttl hold
      in (st, s1\<lparr>st_states := al_put (rule_id, key_hash) st (st_states s1)\<rparr>))"

definition touch_state :: "trap_event \<Rightarrow> dedup_state \<Rightarrow> dedup_state" where
  "touch_state event st =
     st\<lparr>ds_last_seen_at := ev_received_at event, ds_suppressed_count := ds_suppressed_count st + 1\<rparr>"

definition Store_Touch :: "store \<Rightarrow> string \<Rightarrow> string \<Rightarrow> trap_event \<Rightarrow> dedup_state option \<times> store" where
  "Store_Touch s rule_id key_hash event =
     (case map_of (st_states s) (rule_id, key_hash) of
        None \<Rightarrow> (None, s)
      | Some st \<Rightarrow>
          (Some (touch_state event st),
           s\<lparr>st_states := al_upd (rule_id, key_hash) (touch_state event) (st_states s)\<rparr>))"

definition Store_Clear :: "store \<Rightarrow> string \<Rightarrow> string \<Rightarrow> dedup_state option \<times> store" where
  "Store_Clear s rule_id key_hash =
     (map_of (st_states s) (rule_id, key_hash),
      s\<lparr>st_states := al_del (rule_id, key_hash) (st_states s)\<rparr>)"

lemmas store_run [run_simps] =
  NewStore_def compactEvent_def live_def Store_Cleanup_def Store_Get_def evictOldest_def new_state_def
  Store_Put_def touch_state_def Store_Touch_def Store_Clear_def al_put_def

section \<open>The invariant\<close>

text \<open>Keys are distinct and agree with the states they lead to, and a positive limit is kept.\<close>

definition store_inv :: "store \<Rightarrow> bool" where
  "store_inv s \<longleftrightarrow>
     al_distinct (st_states s) \<and>
     (\<forall>(k, st) \<in> set (st_states s). k = (ds_rule_id st, ds_key_hash st)) \<and>
     (0 < st_limit s \<longrightarrow> int (length (st_states s)) \<le> st_limit s)"

definition lookup :: "store \<Rightarrow> cache_key \<Rightarrow> dedup_state option" where
  "lookup s k = map_of (st_states s) k"

text \<open>The number of entries is that of the keys.\<close>

lemma finite_dom_lookup [simp]: "finite (dom (lookup s))"
  by (rule finite_subset [OF _ finite_dom_map_of [of "st_states s"]]) (auto simp: lookup_def)

lemma entries_dom:
  assumes "store_inv s"
  shows "length (st_states s) = card (dom (lookup s))"
proof -
  have "dom (lookup s) = set (map fst (st_states s))"
    unfolding lookup_def dom_map_of_conv_image_fst by simp
  with assms show ?thesis by (metis al_distinct_def distinct_card length_map store_inv_def)
qed

lemma oldest_entry_None [simp]: "oldest_entry best ps = None \<longleftrightarrow> best = None \<and> ps = []"
  by (induction best ps rule: oldest_entry.induct) (auto split: option.splits)

lemma oldest_entry_member:
  "oldest_entry best ps = Some p \<Longrightarrow> best = Some p \<or> p \<in> set ps"
  by (induction best ps rule: oldest_entry.induct) (auto split: option.splits if_splits)

lemma oldest_entry_least:
  "oldest_entry best ps = Some p \<Longrightarrow>
   \<forall>q \<in> set_option best \<union> set ps. ds_last_seen_at (snd p) \<le> ds_last_seen_at (snd q)"
proof (induction best ps rule: oldest_entry.induct)
  case (2 best p' ps)
  show ?case
  proof (cases best)
    case None
    with 2(1) 2(4) show ?thesis by simp
  next
    case (Some b)
    show ?thesis
    proof (cases "ds_last_seen_at (snd p') < ds_last_seen_at (snd b)")
      case True
      with 2(2) [OF Some] 2(4) Some have "\<forall>q \<in> insert p' (set ps). ds_last_seen_at (snd p) \<le> ds_last_seen_at (snd q)"
        by simp
      with True Some show ?thesis by auto
    next
      case False
      with 2(3) [OF Some] 2(4) Some have "\<forall>q \<in> insert b (set ps). ds_last_seen_at (snd p) \<le> ds_last_seen_at (snd q)"
        by simp
      with False Some show ?thesis by auto
    qed
  qed
qed auto

lemma evictOldest_length:
  "al_distinct (st_states s) \<Longrightarrow> st_states s \<noteq> [] \<Longrightarrow> Suc (length (st_states (evictOldest s))) = length (st_states s)"
proof -
  assume s: "al_distinct (st_states s)" "st_states s \<noteq> []"
  then obtain k st where o: "oldest_entry None (st_states s) = Some (k, st)"
    by (cases "oldest_entry None (st_states s)") auto
  then have "(k, st) \<in> set (st_states s)" by (auto dest: oldest_entry_member)
  then have "k \<in> fst ` set (st_states s)" by force
  with s o show ?thesis by (simp add: evictOldest_def length_al_del)
qed

lemma evictOldest_simps [simp]: "st_limit (evictOldest s) = st_limit s"
  by (simp add: evictOldest_def split: option.splits prod.splits)

lemma evictOldest_subset: "set (st_states (evictOldest s)) \<subseteq> set (st_states s)"
  by (auto simp: evictOldest_def set_al_del split: option.splits)

lemma evictOldest_distinct: "al_distinct (st_states s) \<Longrightarrow> al_distinct (st_states (evictOldest s))"
  by (auto simp: evictOldest_def split: option.splits)

lemma store_inv_sub:
  assumes "store_inv s" "set ps \<subseteq> set (st_states s)" "al_distinct ps" "length ps \<le> length (st_states s)"
  shows "store_inv (s\<lparr>st_states := ps\<rparr>)"
  using assms by (fastforce simp: store_inv_def)

lemma inv_NewStore: "store_inv (NewStore limit)"
  by (simp add: store_inv_def NewStore_def al_distinct_def)

lemma inv_del: "store_inv s \<Longrightarrow> store_inv (s\<lparr>st_states := al_del k (st_states s)\<rparr>)"
  by (rule store_inv_sub) (auto simp: store_inv_def set_al_del length_al_del_le)

lemma inv_Cleanup: "store_inv s \<Longrightarrow> store_inv (snd (Store_Cleanup s now))"
  unfolding Store_Cleanup_def snd_conv
  by (rule store_inv_sub) (auto simp: store_inv_def al_distinct_def distinct_map_filter)

lemma inv_Get: "store_inv s \<Longrightarrow> store_inv (snd (Store_Get s r h now))"
  by (auto simp: Store_Get_def inv_del split: option.splits)

lemma inv_Clear: "store_inv s \<Longrightarrow> store_inv (snd (Store_Clear s r h))"
  by (simp add: Store_Clear_def inv_del)

lemma inv_Touch: "store_inv s \<Longrightarrow> store_inv (snd (Store_Touch s r h e))"
  by (auto simp: Store_Touch_def store_inv_def touch_state_def split: option.splits dest!: set_al_upd)

lemma inv_Put: "store_inv s \<Longrightarrow> store_inv (snd (Store_Put s r h repr e ttl hold))"
proof -
  assume inv: "store_inv s"
  define s1 where "s1 = (if 0 < st_limit s \<and> st_limit s \<le> int (length (st_states s)) then evictOldest s else s)"
  have s1: "al_distinct (st_states s1)" "set (st_states s1) \<subseteq> set (st_states s)" "st_limit s1 = st_limit s"
    using inv evictOldest_subset [of s] by (auto simp: s1_def store_inv_def evictOldest_distinct)
  have room: "0 < st_limit s \<Longrightarrow> int (length (st_states s1)) < st_limit s"
  proof -
    assume pos: "0 < st_limit s"
    show ?thesis
    proof (cases "st_limit s \<le> int (length (st_states s))")
      case True
      with pos have "st_states s \<noteq> []" by auto
      with inv evictOldest_length [of s] have "Suc (length (st_states (evictOldest s))) = length (st_states s)"
        by (simp add: store_inv_def)
      with True pos inv show ?thesis by (simp add: s1_def store_inv_def)
    qed (simp add: s1_def)
  qed
  let ?st = "new_state r h repr e ttl hold" and ?ps = "al_put (r, h) (new_state r h repr e ttl hold) (st_states s1)"
  have "length ?ps \<le> Suc (length (st_states s1))" by (simp add: al_put_def length_al_del_le)
  with room have "0 < st_limit s \<Longrightarrow> int (length ?ps) \<le> st_limit s" by linarith
  moreover have "al_distinct ?ps" using s1(1) by simp
  moreover have "\<forall>(k, st) \<in> set ?ps. k = (ds_rule_id st, ds_key_hash st)"
  proof -
    have "set ?ps \<subseteq> insert ((r, h), ?st) (set (st_states s))"
      using s1(2) by (auto simp: al_put_def set_al_del)
    moreover have "\<forall>(k, st) \<in> insert ((r, h), ?st) (set (st_states s)). k = (ds_rule_id st, ds_key_hash st)"
      using inv by (auto simp: store_inv_def new_state_def)
    ultimately show ?thesis by blast
  qed
  ultimately have "store_inv (s1\<lparr>st_states := ?ps\<rparr>)" by (simp add: store_inv_def s1(3))
  then show ?thesis by (simp add: Store_Put_def s1_def Let_def)
qed

section \<open>The store as a map\<close>

text \<open>What \<open>Get\<close> returns for an entry of the map.\<close>

definition visible :: "int \<Rightarrow> dedup_state option \<Rightarrow> dedup_state option" where
  "visible now m = (case m of None \<Rightarrow> None | Some st \<Rightarrow> if live now st then Some st else None)"

lemma visible_simps [simp]:
  "visible now None = None"
  "visible now (Some st) = (if live now st then Some st else None)"
  "visible now (visible now m) = visible now m"
  by (simp_all add: visible_def split: option.splits)

lemma look_Get:
  "fst (Store_Get s r h now) = visible now (lookup s (r, h))"
  "lookup (snd (Store_Get s r h now)) = (lookup s)((r, h) := visible now (lookup s (r, h)))"
  by (auto simp: Store_Get_def lookup_def fun_eq_iff split: option.splits)

lemma look_Touch:
  "fst (Store_Touch s r h e) = map_option (touch_state e) (lookup s (r, h))"
  "lookup (snd (Store_Touch s r h e)) = (lookup s)((r, h) := map_option (touch_state e) (lookup s (r, h)))"
  by (auto simp: Store_Touch_def lookup_def fun_eq_iff map_of_al_upd split: option.splits)

lemma look_Clear:
  "fst (Store_Clear s r h) = lookup s (r, h)"
  "lookup (snd (Store_Clear s r h)) = (lookup s)((r, h) := None)"
  by (simp_all add: Store_Clear_def lookup_def fun_eq_iff)

lemma map_of_filter_distinct:
  "distinct (map fst ps) \<Longrightarrow>
   map_of (filter (\<lambda>(_, v). P v) ps) k = (case map_of ps k of Some v \<Rightarrow> if P v then Some v else None | None \<Rightarrow> None)"
  by (induction ps) (force split: option.splits)+

lemma look_Cleanup:
  assumes "store_inv s"
  shows "lookup (snd (Store_Cleanup s now)) k = visible now (lookup s k)"
  using assms by (simp add: Store_Cleanup_def lookup_def visible_def map_of_filter_distinct store_inv_def al_distinct_def)

lemma look_evict: "lookup (evictOldest s) k = lookup s k \<or> lookup (evictOldest s) k = None"
  by (auto simp: evictOldest_def lookup_def split: option.splits)

lemma look_Put:
  "fst (Store_Put s r h repr e ttl hold) = new_state r h repr e ttl hold"
  "lookup (snd (Store_Put s r h repr e ttl hold)) (r, h) = Some (new_state r h repr e ttl hold)"
  "k \<noteq> (r, h) \<Longrightarrow> lookup (snd (Store_Put s r h repr e ttl hold)) k = lookup s k \<or>
     lookup (snd (Store_Put s r h repr e ttl hold)) k = None"
  using look_evict [of s k] by (auto simp: Store_Put_def lookup_def Let_def)

section \<open>The interface of a dedup cache\<close>

text \<open>
  What the engine relies on: the operations act on a map from (rule, key hash) to state as
  \<open>visible\<close>, \<open>touch_state\<close> and \<open>new_state\<close> say, except that a \<open>Put\<close> may drop other entries.
\<close>

locale dedup_cache =
  fixes look :: "'s \<Rightarrow> cache_key \<Rightarrow> dedup_state option"
    and ok :: "'s \<Rightarrow> bool"
    and get :: "'s \<Rightarrow> string \<Rightarrow> string \<Rightarrow> int \<Rightarrow> dedup_state option \<times> 's"
    and put :: "'s \<Rightarrow> string \<Rightarrow> string \<Rightarrow> string \<Rightarrow> trap_event \<Rightarrow> int \<Rightarrow> bool \<Rightarrow> dedup_state \<times> 's"
    and touch :: "'s \<Rightarrow> string \<Rightarrow> string \<Rightarrow> trap_event \<Rightarrow> dedup_state option \<times> 's"
    and clear :: "'s \<Rightarrow> string \<Rightarrow> string \<Rightarrow> dedup_state option \<times> 's"
    and cleanup :: "'s \<Rightarrow> int \<Rightarrow> dedup_state list \<times> 's"
  assumes ok_get: "ok s \<Longrightarrow> ok (snd (get s r h now))"
    and ok_put: "ok s \<Longrightarrow> ok (snd (put s r h repr e ttl hold))"
    and ok_touch: "ok s \<Longrightarrow> ok (snd (touch s r h e))"
    and ok_clear: "ok s \<Longrightarrow> ok (snd (clear s r h))"
    and ok_cleanup: "ok s \<Longrightarrow> ok (snd (cleanup s now))"
    and get_result: "fst (get s r h now) = visible now (look s (r, h))"
    and get_look: "look (snd (get s r h now)) = (look s)((r, h) := visible now (look s (r, h)))"
    and put_result: "fst (put s r h repr e ttl hold) = new_state r h repr e ttl hold"
    and put_same: "look (snd (put s r h repr e ttl hold)) (r, h) = Some (new_state r h repr e ttl hold)"
    and put_other: "k \<noteq> (r, h) \<Longrightarrow>
      look (snd (put s r h repr e ttl hold)) k = look s k \<or> look (snd (put s r h repr e ttl hold)) k = None"
    and touch_result: "fst (touch s r h e) = map_option (touch_state e) (look s (r, h))"
    and touch_look: "look (snd (touch s r h e)) = (look s)((r, h) := map_option (touch_state e) (look s (r, h)))"
    and clear_result: "fst (clear s r h) = look s (r, h)"
    and clear_look: "look (snd (clear s r h)) = (look s)((r, h) := None)"
    and cleanup_look: "ok s \<Longrightarrow> look (snd (cleanup s now)) k = visible now (look s k)"
begin

text \<open>The clean-up is not observable by a later \<open>Get\<close> at the same or a later time.\<close>

lemma cleanup_get:
  assumes "ok s" "now \<le> now'"
  shows "fst (get (snd (cleanup s now)) r h now') = fst (get s r h now')"
  using assms by (simp add: get_result cleanup_look visible_def live_def split: option.splits)

text \<open>A state stays visible for its TTL, or until it is cleared.\<close>

lemma get_put:
  "fst (get (snd (put s r h repr e ttl hold)) r h now) =
     (if hold \<or> now < ev_received_at e + ttl_duration ttl then Some (new_state r h repr e ttl hold) else None)"
  by (simp add: get_result put_same live_def new_state_def expires_at_def)

lemma get_clear: "fst (get (snd (clear s r h)) r h now) = None"
  by (simp add: get_result clear_look)

definition touch_all :: "string \<Rightarrow> string \<Rightarrow> trap_event list \<Rightarrow> 's \<Rightarrow> 's" where
  "touch_all r h es s = foldl (\<lambda>s e. snd (touch s r h e)) s es"

lemma look_touch_all:
  "look (touch_all r h es s) (r, h) = map_option (\<lambda>st. foldl (\<lambda>st e. touch_state e st) st es) (look s (r, h))"
  by (induction es arbitrary: s)
     (simp_all add: touch_all_def touch_look option.map_comp comp_def option.map_id0 option.map_ident)

lemma touched_state:
  "foldl (\<lambda>st e. touch_state e st) st es =
     st\<lparr>ds_last_seen_at := (if es = [] then ds_last_seen_at st else ev_received_at (last es)),
        ds_suppressed_count := ds_suppressed_count st + int (length es)\<rparr>"
  by (induction es arbitrary: st) (simp_all add: touch_state_def)

text \<open>Duplicates are counted and do not extend the lifetime: it is measured from the first event.\<close>

lemma get_touched:
  "fst (get (touch_all r h es (snd (put s r h repr e ttl hold))) r h now) =
     (if hold \<or> now < ev_received_at e + ttl_duration ttl
      then Some ((new_state r h repr e ttl hold)\<lparr>
        ds_last_seen_at := (if es = [] then ev_received_at e else ev_received_at (last es)),
        ds_suppressed_count := int (length es)\<rparr>)
      else None)"
  by (simp add: get_result look_touch_all put_same touched_state live_def expires_at_def new_state_def)

end

interpretation cache: dedup_cache lookup store_inv Store_Get Store_Put Store_Touch Store_Clear Store_Cleanup
  by unfold_locales
     (simp_all add: inv_Get inv_Put inv_Touch inv_Clear inv_Cleanup look_Get look_Put look_Touch look_Clear look_Cleanup)

section \<open>Histories of a store\<close>

datatype store_op =
    OpCleanup int
  | OpGet string string int
  | OpPut string string string trap_event int bool
  | OpTouch string string trap_event
  | OpClear string string

fun run_op :: "store \<Rightarrow> store_op \<Rightarrow> store" where
  "run_op s (OpCleanup now) = snd (Store_Cleanup s now)"
| "run_op s (OpGet r h now) = snd (Store_Get s r h now)"
| "run_op s (OpPut r h repr e ttl hold) = snd (Store_Put s r h repr e ttl hold)"
| "run_op s (OpTouch r h e) = snd (Store_Touch s r h e)"
| "run_op s (OpClear r h) = snd (Store_Clear s r h)"

lemma run_op_inv: "store_inv s \<Longrightarrow> store_inv (run_op s opn)"
  by (cases opn) (simp_all add: inv_Cleanup inv_Get inv_Put inv_Touch inv_Clear)

lemma run_op_limit: "st_limit (run_op s opn) = st_limit s"
  by (cases opn)
     (simp_all add: Store_Cleanup_def Store_Get_def Store_Put_def Store_Touch_def Store_Clear_def Let_def
       split: option.splits)

lemma run_ops_inv: "store_inv s \<Longrightarrow> store_inv (foldl run_op s ops) \<and> st_limit (foldl run_op s ops) = st_limit s"
  by (induction ops arbitrary: s) (simp_all add: run_op_inv run_op_limit)

section \<open>Properties\<close>

text \<open>
  C13. Whatever sequence of operations a store has gone through, its keys are distinct and agree
  with its states, and with a positive limit it never holds more states than the limit.
\<close>

lemma store_bounded:
  "store_inv (foldl run_op (NewStore limit) ops) \<and>
   (int (length (st_states (foldl run_op (NewStore limit) ops))) \<le> limit \<or> limit \<le> 0)"
  using run_ops_inv [OF inv_NewStore, of limit ops] by (auto simp: store_inv_def NewStore_def)

text \<open>
  C26. A \<open>Put\<close> into a full store evicts one entry that was seen last no later than any other, writes its
  own and keeps the rest: a new key takes the place of the evicted one, a key the store already holds
  costs a second entry although no room is needed, unless its own entry is the one evicted.
\<close>

lemma Put_evicts_oldest:
  assumes "store_inv s" "0 < st_limit s" "st_limit s \<le> int (length (st_states s))"
  shows "\<exists>k0 st0. lookup s k0 = Some st0 \<and>
    (\<forall>k st. lookup s k = Some st \<longrightarrow> ds_last_seen_at st0 \<le> ds_last_seen_at st) \<and>
    lookup (snd (Store_Put s r h repr e ttl hold)) = (lookup s)(k0 := None, (r, h) \<mapsto> new_state r h repr e ttl hold) \<and>
    length (st_states (snd (Store_Put s r h repr e ttl hold))) =
      (if lookup s (r, h) = None \<or> k0 = (r, h) then length (st_states s) else length (st_states s) - 1)"
proof -
  from assms(2,3) have "st_states s \<noteq> []" by auto
  then obtain k0 st0 where o: "oldest_entry None (st_states s) = Some (k0, st0)"
    by (cases "oldest_entry None (st_states s)") auto
  have mem: "lookup s k = Some st \<longleftrightarrow> (k, st) \<in> set (st_states s)" for k st
    using assms(1) by (simp add: lookup_def store_inv_def map_of_mem)
  have put: "lookup (snd (Store_Put s r h repr e ttl hold)) = (lookup s)(k0 := None, (r, h) \<mapsto> new_state r h repr e ttl hold)"
    using assms o by (auto simp: Store_Put_def evictOldest_def lookup_def Let_def fun_eq_iff)
  moreover have first: "(k0, st0) \<in> set (st_states s)" using oldest_entry_member [OF o] by simp
  moreover have "ds_last_seen_at st0 \<le> ds_last_seen_at st" if "(k, st) \<in> set (st_states s)" for k st
    using oldest_entry_least [OF o] that by force
  moreover have pos: "0 < card (dom (lookup s))"
    using assms(1) \<open>st_states s \<noteq> []\<close> by (simp flip: entries_dom)
  moreover have "length (st_states (snd (Store_Put s r h repr e ttl hold))) =
      (if lookup s (r, h) = None \<or> k0 = (r, h) then length (st_states s) else length (st_states s) - 1)"
    using mem [of k0 st0] first pos unfolding entries_dom [OF inv_Put [OF assms(1)]] entries_dom [OF assms(1)] put
    by (auto simp: card_Diff_singleton_if card_insert_if finite_dom_lookup insert_Diff_if domIff
        split: if_splits)
  ultimately show ?thesis using mem by blast
qed

definition sample_store :: store where
  "sample_store = snd (Store_Put (NewStore 1) ''r'' ''h'' ''p'' sample_event 60 False)"

lemma Put_evicts_oldest_witness:
  "\<exists>k0 st0. lookup sample_store k0 = Some st0 \<and>
    (\<forall>k st. lookup sample_store k = Some st \<longrightarrow> ds_last_seen_at st0 \<le> ds_last_seen_at st) \<and>
    lookup (snd (Store_Put sample_store ''r'' ''g'' ''q'' sample_event 60 False)) =
      (lookup sample_store)(k0 := None, (''r'', ''g'') \<mapsto> new_state ''r'' ''g'' ''q'' sample_event 60 False) \<and>
    length (st_states (snd (Store_Put sample_store ''r'' ''g'' ''q'' sample_event 60 False))) =
      (if lookup sample_store (''r'', ''g'') = None \<or> k0 = (''r'', ''g'') then length (st_states sample_store)
       else length (st_states sample_store) - 1)"
proof (rule Put_evicts_oldest)
  show "store_inv sample_store" unfolding sample_store_def by (intro inv_Put inv_NewStore)
qed (simp_all add: sample_store_def Store_Put_def NewStore_def Let_def al_put_def)

text \<open>
  A state stays visible for its time to live from the first event, or until it is cleared when
  it is held; duplicates are counted and move only the time last seen.
\<close>

lemma dedup_window:
  "fst (Store_Get (foldl (\<lambda>s e. snd (Store_Touch s r h e)) (snd (Store_Put s r h repr e ttl hold)) es) r h now) =
     (if hold \<or> now < ev_received_at e + ttl_duration ttl
      then Some ((new_state r h repr e ttl hold)\<lparr>
        ds_last_seen_at := (if es = [] then ev_received_at e else ev_received_at (last es)),
        ds_suppressed_count := int (length es)\<rparr>)
      else None)"
  using cache.get_touched by (simp only: cache.touch_all_def)

text \<open>
  C27. The clean-up removes states that no later lookup would return: a \<open>Get\<close> at the same or a later
  time gives the same with and without it.
\<close>

lemma Cleanup_unobservable:
  assumes "store_inv s" "now \<le> now'"
  shows "fst (Store_Get (snd (Store_Cleanup s now)) r h now') = fst (Store_Get s r h now')"
  using assms by (rule cache.cleanup_get)

lemma Cleanup_unobservable_witness:
  "fst (Store_Get (snd (Store_Cleanup sample_store 70000000000)) ''r'' ''h'' 70000000001) =
   fst (Store_Get sample_store ''r'' ''h'' 70000000001)"
proof (rule Cleanup_unobservable)
  show "store_inv sample_store" unfolding sample_store_def by (intro inv_Put inv_NewStore)
qed simp

text \<open>
  Replacing an entry of a full store evicts another one although no room is needed: the two
  entries of this store become one.
\<close>

lemma Put_replacing_evicts:
  "length (st_states (foldl run_op (NewStore 2)
     [OpPut ''r'' ''a'' [] zero_event 60 False, OpPut ''r'' ''b'' [] (zero_event\<lparr>ev_received_at := 1\<rparr>) 60 False,
      OpPut ''r'' ''b'' [] (zero_event\<lparr>ev_received_at := 2\<rparr>) 60 False])) = 1"
  by (simp add: store_run zero_event_def Let_def)

end
