(* ===== verification/Relay_Engine.thy ===== *)
theory Relay_Engine
  imports Dedup_Store Udp_Forward Logging_Conf
begin

text \<open>
  \<open>internal/engine/engine.go\<close>: filters, clear rules, alarm matching, deduplication and forwarding of
  one event. The handler threads a work state: the dedup store, the event (whose alert mark it
  sets), and what it has emitted so far, in order. The run-time state holds the forwarder by its
  targets, the logger and the alerts file. What \<open>Send\<close> of a forwarder returns for a payload is the
  function \<open>send\<close>, of the targets and the payload: the handler calls it at most once, on the forwarder
  of its run-time state. \<open>Reload_Sends\<close> instantiates it with \<open>Send\<close> of \<open>Udp_Forward\<close>.
\<close>

section \<open>Run-time state and outputs\<close>

text \<open>
  The decoder is an argument of type \<open>'d\<close>; \<open>None\<close> is a nil decoder. The forwarder is the list of targets
  of a \<open>UDP\<close>, and the alerts writer the handle of its file, \<open>None\<close> when there is none.
\<close>

record 'd runtime_state =
  rs_cfg :: app_config
  rs_forwarder :: "target list"
  rs_decoder :: "'d option"
  rs_logger :: logger
  rs_alerts :: "handle option"

type_synonym sender = "target list \<Rightarrow> bytes \<Rightarrow> err option"

record 'd engine =
  en_state :: "'d runtime_state option"
  en_dedup :: store

record outcome =
  oc_accepted :: bool
  oc_forwarded :: bool
  oc_reason :: string
  oc_rule_id :: string

datatype log_value =
    LStr string
  | LInt int
  | LBool bool
  | LStrs "string list"
  | LErr err
  | LTime int

text \<open>
  A call of the forwarder with its result, a record of the logger (level, message, attributes), or
  a line of the alerts file: the source, trap OID and varbinds that follow its time stamp.
\<close>

datatype emission =
    Sent bytes "err option"
  | Log string string "(string \<times> log_value) list"
  | Alert string string string

record work =
  wk_store :: store
  wk_event :: trap_event
  wk_out :: "emission list"

definition emit :: "emission \<Rightarrow> work \<Rightarrow> work" where
  "emit x w = w\<lparr>wk_out := wk_out w @ [x]\<rparr>"

definition Reload_engine ::
    "'d engine \<Rightarrow> app_config \<Rightarrow> target list \<Rightarrow> 'd option \<Rightarrow> logger \<Rightarrow> handle option \<Rightarrow> 'd engine" where
  "Reload_engine e cfg forwarder decoder lg alerts =
     e\<lparr>en_state := Some \<lparr>rs_cfg = cfg, rs_forwarder = forwarder, rs_decoder = decoder, rs_logger = lg, rs_alerts = alerts\<rparr>\<rparr>"

definition New_engine ::
    "app_config \<Rightarrow> target list \<Rightarrow> 'd option \<Rightarrow> logger \<Rightarrow> handle option \<Rightarrow> 'd engine" where
  "New_engine cfg forwarder decoder lg alerts =
     Reload_engine \<lparr>en_state = None, en_dedup = NewStore (sc_max_dedup_entries (ac_server cfg))\<rparr>
       cfg forwarder decoder lg alerts"

lemma New_engine_simps [simp]:
  "en_state (New_engine cfg ts dec lg alerts) =
     Some \<lparr>rs_cfg = cfg, rs_forwarder = ts, rs_decoder = dec, rs_logger = lg, rs_alerts = alerts\<rparr>"
  "en_dedup (New_engine cfg ts dec lg alerts) = NewStore (sc_max_dedup_entries (ac_server cfg))"
  "en_state (Reload_engine e cfg ts dec lg alerts) =
     Some \<lparr>rs_cfg = cfg, rs_forwarder = ts, rs_decoder = dec, rs_logger = lg, rs_alerts = alerts\<rparr>"
  "en_dedup (Reload_engine e cfg ts dec lg alerts) = en_dedup e"
  by (simp_all add: New_engine_def Reload_engine_def)

definition Parse ::
    "('d \<Rightarrow> int \<Rightarrow> bytes \<Rightarrow> string \<Rightarrow> int \<Rightarrow> trap_event res) \<Rightarrow> 'd engine \<Rightarrow>
     int \<Rightarrow> bytes \<Rightarrow> string \<Rightarrow> int \<Rightarrow> trap_event res" where
  "Parse decode e now data source_ip source_port =
     (case en_state e of
        None \<Rightarrow> Inl (Panic ''nil pointer dereference'')
      | Some st \<Rightarrow>
         (case rs_decoder st of
            None \<Rightarrow> Inl (Errorf ''decoder is not configured'' [])
          | Some d \<Rightarrow> decode d now data source_ip source_port))"

section \<open>Texts\<close>

definition fallback :: "string \<Rightarrow> string" where
  "fallback v = (if v = [] then ''-'' else v)"

definition joinStrings :: "string list \<Rightarrow> string \<Rightarrow> string" where
  "joinStrings parts sep =
     (case parts of [] \<Rightarrow> [] | p # ps \<Rightarrow> foldl (\<lambda>acc q. acc @ sep @ q) p ps)"

definition varbind_text :: "trap_event \<Rightarrow> string" where
  "varbind_text e =
     (let pairs = map (\<lambda>vb. vb_oid vb @ '' = \"'' @ vb_value vb @ ''\"'') (ev_varbinds e) in
      if pairs \<noteq> [] then ''[ '' @ joinStrings pairs '', '' @ '' ]'' else [])"

text \<open>\<open>if state.alertsWriter != nil && !event.AlertsLogged\<close>, the same five times in the code.\<close>

definition write_alert :: "'d runtime_state \<Rightarrow> work \<Rightarrow> work" where
  "write_alert st w =
     (if rs_alerts st \<noteq> None \<and> \<not> ev_alerts_logged (wk_event w)
      then (emit (Alert (source_text (wk_event w)) (fallback (ev_trap_oid (wk_event w))) (varbind_text (wk_event w))) w)
        \<lparr>wk_event := (wk_event w)\<lparr>ev_alerts_logged := True\<rparr>\<rparr>
      else w)"

definition dedupTTLDisplay :: "dedup_config \<Rightarrow> string" where
  "dedupTTLDisplay cfg = (if dd_hold_until_clear cfg then ''none'' else int_str (dd_ttl_seconds cfg) @ ''s'')"

definition dedupTTLNote :: "dedup_config \<Rightarrow> string" where
  "dedupTTLNote cfg =
     (if \<not> dd_hold_until_clear cfg then []
      else ''will not clear without a matching clear trap or a restart'')"

definition dedupLogFields :: "dedup_config \<Rightarrow> (string \<times> log_value) list" where
  "dedupLogFields cfg =
     (''ttl'', LStr (dedupTTLDisplay cfg)) #
     (if dd_hold_until_clear cfg
      then [(''hold_until_clear'', LBool True), (''ttl_note'', LStr (dedupTTLNote cfg))]
      else [(''ttl_seconds'', LInt (dd_ttl_seconds cfg))])"

text \<open>The attributes that most records share.\<close>

definition event_attrs :: "string \<Rightarrow> trap_event \<Rightarrow> (string \<times> log_value) list" where
  "event_attrs rule e =
     [(''rule'', LStr rule), (''source'', LStr (source_text e)), (''trap_oid'', LStr (fallback (ev_trap_oid e)))]"

section \<open>Filters and alarms\<close>

fun filter_rules :: "match_env \<Rightarrow> trap_event \<Rightarrow> filter_rule_config list \<Rightarrow> (string \<times> bool) option res" where
  "filter_rules W e [] = Inr None"
| "filter_rules W e (r # rs) =
     rbind (Matches W e (fr_match r)) (\<lambda>matched.
       if \<not> matched then filter_rules W e rs
       else if fr_action r = [] \<or> fr_action r = ''drop'' then Inr (Some (fr_id r, True))
       else if fr_action r = ''keep'' then Inr (Some (fr_id r, False))
       else Inl (Errorf ''unsupported filter action %q'' [fr_action r]))"

text \<open>The id of the deciding rule and whether it drops the event.\<close>

definition evaluateFilters :: "match_env \<Rightarrow> app_config \<Rightarrow> trap_event \<Rightarrow> (string \<times> bool) res" where
  "evaluateFilters W cfg e =
     rbind (filter_rules W e (fl_rules (ac_filters cfg))) (\<lambda>decision.
       case decision of
         Some d \<Rightarrow> Inr d
       | None \<Rightarrow>
           if fl_default_action (ac_filters cfg) = ''drop'' then Inr (''__default_drop__'', True)
           else Inr ([], False))"

fun first_alarm :: "match_env \<Rightarrow> trap_event \<Rightarrow> alarm_rule_config list \<Rightarrow> alarm_rule_config option res" where
  "first_alarm W e [] = Inr None"
| "first_alarm W e (r # rs) =
     rbind (Matches W e (al_match r)) (\<lambda>matched. if matched then Inr (Some r) else first_alarm W e rs)"

definition matchAlarm :: "match_env \<Rightarrow> app_config \<Rightarrow> trap_event \<Rightarrow> alarm_rule_config option res" where
  "matchAlarm W cfg e = first_alarm W e (ac_alarms cfg)"

section \<open>The key of a clear trap\<close>

definition as_mapping :: "yval \<Rightarrow> (string \<rightharpoonup> yval) option" where
  "as_mapping v =
     (case v of
        YMap kvs \<Rightarrow> Some (map_of kvs)
      | YAnyMap kvs \<Rightarrow> Some (foldl (\<lambda>m (k, v). m(sprint k \<mapsto> v)) Map.empty kvs)
      | _ \<Rightarrow> None)"

text \<open>The loop over the \<open>all\<close> list; \<open>None\<close> is the early return on two different values.\<close>

fun static_values :: "string \<Rightarrow> yval list \<Rightarrow> string option \<Rightarrow> string option option" where
  "static_values field [] resolved = Some resolved"
| "static_values field (item # items) resolved =
     (case as_mapping item of
        None \<Rightarrow> static_values field items resolved
      | Some m \<Rightarrow>
          if as_string (yget m ''field'') \<noteq> field then static_values field items resolved
          else
            let op = as_string (yget m ''op''); op = (if op = [] then ''eq'' else op) in
            if op \<noteq> ''eq'' then static_values field items resolved
            else
              let v = sprint (yget m ''value'') in
              if resolved \<noteq> None \<and> resolved \<noteq> Some v then None
              else static_values field items (Some v))"

definition staticMatchFieldValue :: "match_spec \<Rightarrow> string \<Rightarrow> string option" where
  "staticMatchFieldValue spec field =
     (case map_of (ms_raw spec) field of
        Some v \<Rightarrow> Some (sprint v)
      | None \<Rightarrow>
         (case map_of (ms_raw spec) ''all'' of
            Some (YList items) \<Rightarrow>
             (case static_values field items None of None \<Rightarrow> None | Some resolved \<Rightarrow> resolved)
          | _ \<Rightarrow> None))"

definition dedupKeyTrapOID :: "match_spec \<Rightarrow> string list \<Rightarrow> string option" where
  "dedupKeyTrapOID spec key_fields =
     (if ''trap_oid'' \<in> set key_fields then staticMatchFieldValue spec ''trap_oid'' else None)"

definition cloneEventWithTrapOID :: "trap_event \<Rightarrow> string \<Rightarrow> trap_event" where
  "cloneEventWithTrapOID e oid =
     (if oid = [] then e
      else e\<lparr>ev_trap_oid := oid,
             ev_fields := (case ev_fields e of
               None \<Rightarrow> Some [''trap_oid'' \<mapsto> oid]
             | Some m \<Rightarrow> Some (m(''trap_oid'' \<mapsto> oid)))\<rparr>)"

section \<open>Clear rules\<close>

datatype clear_check = NotConfigured | BadRegex | RegexMiss | RegexHit

text \<open>The regular expression of a clear rule against the raw value of its varbind.\<close>

definition check_clear_regex :: "match_env \<Rightarrow> trap_event \<Rightarrow> dedup_clear_config \<Rightarrow> clear_check" where
  "check_clear_regex W e c =
     (if dc_varbind_oid c \<noteq> [] \<and> dc_regex c \<noteq> []
      then (case env_regex W (dc_regex c) of
              None \<Rightarrow> BadRegex
            | Some m \<Rightarrow> if m (str_get (ev_raw_varbind_map e) (Normalize (dc_varbind_oid c))) then RegexHit else RegexMiss)
      else NotConfigured)"

definition clear_key_event :: "alarm_rule_config \<Rightarrow> string list \<Rightarrow> trap_event \<Rightarrow> trap_event" where
  "clear_key_event alarm key_fields e =
     (case dedupKeyTrapOID (al_match alarm) key_fields of
        None \<Rightarrow> e
      | Some oid \<Rightarrow> cloneEventWithTrapOID e oid)"

definition clear_key_fields :: "alarm_rule_config \<Rightarrow> dedup_clear_config \<Rightarrow> string list" where
  "clear_key_fields alarm c = (if dc_key_fields c = [] then dd_key_fields (al_dedup alarm) else dc_key_fields c)"

text \<open>The rest of the loop body, once the trap counts as a clear of this alarm.\<close>

definition clear_state :: "match_env \<Rightarrow> 'd runtime_state \<Rightarrow> alarm_rule_config \<Rightarrow> dedup_clear_config \<Rightarrow> work \<Rightarrow> work" where
  "clear_state W st alarm c w =
     (let e = wk_event w; key_fields = clear_key_fields alarm c in
      case BuildDedupKey W (clear_key_event alarm key_fields e) key_fields of
        Inl er \<Rightarrow> emit (Log ''ERROR'' ''trap_clear_failed'' [(''rule'', LStr (al_id alarm)), (''error'', LErr er)]) w
      | Inr key \<Rightarrow>
          if dk_missing_fields key \<noteq> [] \<or> dk_hash key = []
          then emit (Log ''WARN'' ''trap_clear_skipped''
                 (event_attrs (al_id alarm) e @ [(''missing_fields'', LStrs (dk_missing_fields key))])) w
          else
            let (cleared, store) = Store_Clear (wk_store w) (al_id alarm) (dk_hash key);
                w1 = w\<lparr>wk_store := store\<rparr>;
                attrs = [(''rule'', LStr (al_id alarm)), (''key'', LStr (dk_repr key)),
                         (''source'', LStr (source_text e)), (''trap_oid'', LStr (fallback (ev_trap_oid e)))]
            in case cleared of
                 None \<Rightarrow> write_alert st (emit (Log ''INFO'' ''trap_cleared'' (attrs @ [(''active'', LBool False)])) w1)
               | Some ds \<Rightarrow> write_alert st (emit (Log ''INFO'' ''trap_cleared'' (attrs @
                   [(''active'', LBool True), (''first_seen'', LTime (ds_first_seen_at ds)),
                    (''first_source'', LStr (source_text (ds_first_event ds))),
                    (''first_trap_oid'', LStr (fallback (ev_trap_oid (ds_first_event ds)))),
                    (''suppressed_count'', LInt (ds_suppressed_count ds))])) w1))"

text \<open>One round of \<open>applyAlarmClearRules\<close>: the flag \<open>matchedClear\<close> and the work state.\<close>

definition clear_round ::
    "match_env \<Rightarrow> 'd runtime_state \<Rightarrow> bool \<times> work \<Rightarrow> alarm_rule_config \<Rightarrow> bool \<times> work" where
  "clear_round W st acc alarm =
     (let (matched_clear, w) = acc in
      case dd_clear (al_dedup alarm) of
        None \<Rightarrow> (matched_clear, w)
      | Some c \<Rightarrow>
         (case Matches W (wk_event w) (dc_match c) of
            Inl er \<Rightarrow> (matched_clear,
              emit (Log ''ERROR'' ''clear_match_error'' [(''rule'', LStr (al_id alarm)), (''error'', LErr er)]) w)
          | Inr False \<Rightarrow> (matched_clear, w)
          | Inr True \<Rightarrow>
             (case check_clear_regex W (wk_event w) c of
                BadRegex \<Rightarrow> (True, emit (Log ''ERROR'' ''clear_regex_invalid''
                  [(''rule'', LStr (al_id alarm)), (''regex'', LStr (dc_regex c)),
                   (''error'', LErr (EnvError ''error parsing regexp''))]) w)
              | RegexMiss \<Rightarrow> (False, w)
              | _ \<Rightarrow> (True, clear_state W st alarm c w))))"

definition applyAlarmClearRules :: "match_env \<Rightarrow> 'd runtime_state \<Rightarrow> work \<Rightarrow> bool \<times> work" where
  "applyAlarmClearRules W st w = foldl (clear_round W st) (False, w) (ac_alarms (rs_cfg st))"

section \<open>Forwarding\<close>

definition forwardPassThrough ::
    "sender \<Rightarrow> 'd runtime_state \<Rightarrow> work \<Rightarrow> (outcome \<times> err option) \<times> work" where
  "forwardPassThrough send st w =
     (let e = wk_event w; r = send (rs_forwarder st) (ev_raw_bytes e); w1 = emit (Sent (ev_raw_bytes e) r) w in
      case r of
        Some er \<Rightarrow>
          ((\<lparr>oc_accepted = True, oc_forwarded = False, oc_reason = ''forward_failed'', oc_rule_id = []\<rparr>, Some er),
           emit (Log ''ERROR'' ''trap_forward_failed'' (event_attrs ''pass-through'' e @ [(''error'', LErr er)])) w1)
      | None \<Rightarrow>
          ((\<lparr>oc_accepted = True, oc_forwarded = True, oc_reason = ''pass-through'', oc_rule_id = []\<rparr>, None),
           write_alert st (emit (Log ''INFO'' ''trap_forwarded'' (event_attrs ''pass-through'' e)) w1)))"

text \<open>An alarm whose key is incomplete is forwarded without deduplication.\<close>

definition forward_undeduped ::
    "sender \<Rightarrow> 'd runtime_state \<Rightarrow> alarm_rule_config \<Rightarrow> dedup_key \<Rightarrow> work \<Rightarrow>
     (outcome \<times> err option) \<times> work" where
  "forward_undeduped send st alarm key w =
     (let e = wk_event w; r = send (rs_forwarder st) (ev_raw_bytes e); w1 = emit (Sent (ev_raw_bytes e) r) w;
          attrs = event_attrs (al_id alarm) e @ [(''missing_fields'', LStrs (dk_missing_fields key))] in
      case r of
        Some er \<Rightarrow>
          ((\<lparr>oc_accepted = True, oc_forwarded = False, oc_reason = ''forward_failed'', oc_rule_id = al_id alarm\<rparr>, Some er),
           emit (Log ''ERROR'' ''trap_forward_failed'' (attrs @ [(''error'', LErr er)])) w1)
      | None \<Rightarrow>
          ((\<lparr>oc_accepted = True, oc_forwarded = True, oc_reason = ''dedup_disabled'', oc_rule_id = al_id alarm\<rparr>, None),
           write_alert st (emit (Log ''WARN'' ''trap_forwarded_dedup_disabled'' attrs) w1)))"

text \<open>A fresh alarm: its state is stored first and then it is sent.\<close>

definition store_alarm :: "alarm_rule_config \<Rightarrow> dedup_key \<Rightarrow> work \<Rightarrow> work" where
  "store_alarm alarm key w =
     w\<lparr>wk_store := snd (Store_Put (wk_store w) (al_id alarm) (dk_hash key) (dk_repr key) (wk_event w)
         (dd_ttl_seconds (al_dedup alarm)) (dd_hold_until_clear (al_dedup alarm)))\<rparr>"

definition send_alarm ::
    "sender \<Rightarrow> 'd runtime_state \<Rightarrow> alarm_rule_config \<Rightarrow> dedup_key \<Rightarrow> work \<Rightarrow> (outcome \<times> err option) \<times> work" where
  "send_alarm send st alarm key w =
     (let e = wk_event w; r = send (rs_forwarder st) (ev_raw_bytes e); w1 = emit (Sent (ev_raw_bytes e) r) w in
      case r of
        Some er \<Rightarrow>
          ((\<lparr>oc_accepted = True, oc_forwarded = False, oc_reason = ''forward_failed'', oc_rule_id = al_id alarm\<rparr>, Some er),
           emit (Log ''ERROR'' ''trap_forward_failed'' (event_attrs (al_id alarm) e @ [(''error'', LErr er)])) w1)
      | None \<Rightarrow>
          ((\<lparr>oc_accepted = True, oc_forwarded = True, oc_reason = ''alarm'', oc_rule_id = al_id alarm\<rparr>, None),
           write_alert st (emit (Log ''INFO'' ''trap_forwarded''
             ([(''rule'', LStr (al_id alarm)), (''key'', LStr (dk_repr key)), (''source'', LStr (source_text e)),
               (''trap_oid'', LStr (fallback (ev_trap_oid e)))] @ dedupLogFields (al_dedup alarm))) w1)))"

definition forward_alarm ::
    "sender \<Rightarrow> 'd runtime_state \<Rightarrow> alarm_rule_config \<Rightarrow> dedup_key \<Rightarrow> work \<Rightarrow> (outcome \<times> err option) \<times> work" where
  "forward_alarm send st alarm key w = send_alarm send st alarm key (store_alarm alarm key w)"

lemma store_alarm_simps [simp]:
  "wk_event (store_alarm alarm key w) = wk_event w" "wk_out (store_alarm alarm key w) = wk_out w"
  "wk_store (store_alarm alarm key w) = snd (Store_Put (wk_store w) (al_id alarm) (dk_hash key) (dk_repr key) (wk_event w)
     (dd_ttl_seconds (al_dedup alarm)) (dd_hold_until_clear (al_dedup alarm)))"
  by (simp_all add: store_alarm_def)

text \<open>An alarm with a complete key: a duplicate is counted, anything else is fresh.\<close>

definition handle_alarm ::
    "sender \<Rightarrow> 'd runtime_state \<Rightarrow> alarm_rule_config \<Rightarrow> dedup_key \<Rightarrow> work \<Rightarrow>
     (outcome \<times> err option) \<times> work" where
  "handle_alarm send st alarm key w =
     (let e = wk_event w;
          (found, store) = Store_Get (wk_store w) (al_id alarm) (dk_hash key) (ev_received_at e);
          w1 = w\<lparr>wk_store := store\<rparr> in
      case found of
        None \<Rightarrow> forward_alarm send st alarm key w1
      | Some _ \<Rightarrow>
         (let (touched, store') = Store_Touch store (al_id alarm) (dk_hash key) e;
              w2 = w1\<lparr>wk_store := store'\<rparr> in
          case touched of
            None \<Rightarrow> forward_alarm send st alarm key w2
          | Some ds \<Rightarrow>
              ((\<lparr>oc_accepted = False, oc_forwarded = False, oc_reason = ''duplicate'', oc_rule_id = al_id alarm\<rparr>, None),
               emit (Log ''INFO'' ''trap_deduplicated''
                 ([(''rule'', LStr (al_id alarm)), (''key'', LStr (dk_repr key)), (''source'', LStr (source_text e)),
                   (''first_seen'', LTime (ds_first_seen_at ds)),
                   (''first_source'', LStr (source_text (ds_first_event ds))),
                   (''first_trap_oid'', LStr (fallback (ev_trap_oid (ds_first_event ds)))),
                   (''suppressed_count'', LInt (ds_suppressed_count ds))] @ dedupLogFields (al_dedup alarm))) w2)))"

definition zero_outcome :: outcome where
  "zero_outcome = \<lparr>oc_accepted = False, oc_forwarded = False, oc_reason = [], oc_rule_id = []\<rparr>"

definition handle_alarm_rule ::
    "match_env \<Rightarrow> sender \<Rightarrow> 'd runtime_state \<Rightarrow> alarm_rule_config \<Rightarrow> work \<Rightarrow>
     (outcome \<times> err option) \<times> work" where
  "handle_alarm_rule W send st alarm w =
     (case BuildDedupKey W (wk_event w) (dd_key_fields (al_dedup alarm)) of
        Inl er \<Rightarrow> ((zero_outcome, Some er), w)
      | Inr key \<Rightarrow>
          if dk_missing_fields key \<noteq> [] \<or> dk_hash key = [] then forward_undeduped send st alarm key w
          else handle_alarm send st alarm key w)"

definition handle_filtered ::
    "match_env \<Rightarrow> sender \<Rightarrow> 'd runtime_state \<Rightarrow> work \<Rightarrow> (outcome \<times> err option) \<times> work" where
  "handle_filtered W send st w =
     (let (cleared, w1) = applyAlarmClearRules W st w in
      if cleared then forwardPassThrough send st w1
      else case matchAlarm W (rs_cfg st) (wk_event w1) of
          Inl er \<Rightarrow> ((zero_outcome, Some er), w1)
        | Inr None \<Rightarrow> forwardPassThrough send st w1
        | Inr (Some alarm) \<Rightarrow> handle_alarm_rule W send st alarm w1)"

definition HandleEvent ::
    "match_env \<Rightarrow> sender \<Rightarrow> 'd runtime_state option \<Rightarrow> work \<Rightarrow> (outcome \<times> err option) \<times> work" where
  "HandleEvent W send state w =
     (case state of
        None \<Rightarrow> ((zero_outcome, Some (Errorf ''engine state not initialized'' [])), w)
      | Some st \<Rightarrow>
         (case evaluateFilters W (rs_cfg st) (wk_event w) of
            Inl er \<Rightarrow> ((zero_outcome, Some er), w)
          | Inr (rule_id, matched) \<Rightarrow>
              if matched
              then ((\<lparr>oc_accepted = False, oc_forwarded = False, oc_reason = ''filtered'', oc_rule_id = rule_id\<rparr>, None),
                    emit (Log ''INFO'' ''trap_filtered'' (event_attrs rule_id (wk_event w))) w)
              else handle_filtered W send st w))"

definition engine_Cleanup :: "'d engine \<Rightarrow> int \<Rightarrow> emission list \<times> 'd engine" where
  "engine_Cleanup e now =
     (let (expired, store) = Store_Cleanup (en_dedup e) now in
      (if expired \<noteq> [] \<and> en_state e \<noteq> None
       then [Log ''DEBUG'' ''dedup_cleanup'' [(''expired'', LInt (int (length expired)))]] else [],
       e\<lparr>en_dedup := store\<rparr>))"

lemmas engine_run [run_simps] =
  emit_def New_engine_def Reload_engine_def Parse_def fallback_def joinStrings_def varbind_text_def
  write_alert_def dedupTTLDisplay_def dedupTTLNote_def dedupLogFields_def event_attrs_def source_text_def
  evaluateFilters_def matchAlarm_def as_mapping_def staticMatchFieldValue_def dedupKeyTrapOID_def
  cloneEventWithTrapOID_def check_clear_regex_def clear_key_event_def clear_key_fields_def clear_state_def
  clear_round_def applyAlarmClearRules_def forwardPassThrough_def forward_undeduped_def
  store_alarm_def send_alarm_def forward_alarm_def handle_alarm_def zero_outcome_def handle_alarm_rule_def handle_filtered_def HandleEvent_def engine_Cleanup_def

section \<open>Effects\<close>

fun sends :: "emission list \<Rightarrow> (bytes \<times> err option) list" where
  "sends [] = []"
| "sends (Sent b r # xs) = (b, r) # sends xs"
| "sends (_ # xs) = sends xs"

fun alerts :: "emission list \<Rightarrow> nat" where
  "alerts [] = 0"
| "alerts (Alert _ _ _ # xs) = Suc (alerts xs)"
| "alerts (_ # xs) = alerts xs"

lemma sends_append [simp]: "sends (xs @ ys) = sends xs @ sends ys"
  by (induction xs rule: sends.induct) auto

lemma alerts_append [simp]: "alerts (xs @ ys) = alerts xs + alerts ys"
  by (induction xs rule: alerts.induct) auto

text \<open>
  \<open>effect st ss w w'\<close>: on the way from \<open>w\<close> to \<open>w'\<close> the packets \<open>ss\<close> were sent, at most one alert line
  was written, none for an event announced before, the event changed in its alert mark only, and the
  store kept its invariant and its limit.
\<close>

definition effect :: "'d runtime_state \<Rightarrow> (bytes \<times> err option) list \<Rightarrow> work \<Rightarrow> work \<Rightarrow> bool" where
  "effect st ss w w' \<longleftrightarrow>
     (\<exists>xs. wk_out w' = wk_out w @ xs \<and> sends xs = ss \<and>
        alerts xs + of_bool (ev_alerts_logged (wk_event w)) = of_bool (ev_alerts_logged (wk_event w')) \<and>
        (rs_alerts st \<noteq> None \<or> alerts xs = 0)) \<and>
     (\<exists>b. wk_event w' = (wk_event w)\<lparr>ev_alerts_logged := b\<rparr>) \<and>
     (store_inv (wk_store w) \<longrightarrow> store_inv (wk_store w')) \<and>
     st_limit (wk_store w') = st_limit (wk_store w)"

lemma event_alert_self: "\<exists>b. e = e\<lparr>ev_alerts_logged := b\<rparr>"
  by (rule exI [of _ "ev_alerts_logged e"]) (cases e, simp)

lemma effect_refl [simp]: "effect st [] w w"
  by (simp add: effect_def event_alert_self)

lemma effect_trans:
  assumes "effect st ss w w'" "effect st ts w' w''"
  shows "effect st (ss @ ts) w w''"
proof -
  from assms obtain xs ys where x: "wk_out w' = wk_out w @ xs" "sends xs = ss"
    "alerts xs + of_bool (ev_alerts_logged (wk_event w)) = (of_bool (ev_alerts_logged (wk_event w')) :: nat)"
    "rs_alerts st \<noteq> None \<or> alerts xs = 0" and y:
    "wk_out w'' = wk_out w' @ ys" "sends ys = ts"
    "alerts ys + of_bool (ev_alerts_logged (wk_event w')) = (of_bool (ev_alerts_logged (wk_event w'')) :: nat)"
    "rs_alerts st \<noteq> None \<or> alerts ys = 0"
    unfolding effect_def by blast
  have "alerts (xs @ ys) + of_bool (ev_alerts_logged (wk_event w)) = (of_bool (ev_alerts_logged (wk_event w'')) :: nat)"
    unfolding alerts_append using x(3) y(3) by linarith
  moreover have "rs_alerts st \<noteq> None \<or> alerts (xs @ ys) = 0" using x(4) y(4) by (cases "rs_alerts st") simp_all
  moreover have "wk_out w'' = wk_out w @ xs @ ys" "sends (xs @ ys) = ss @ ts" using x y by simp_all
  moreover have "\<exists>b. wk_event w'' = (wk_event w)\<lparr>ev_alerts_logged := b\<rparr>"
  proof -
    from assms obtain b c where "wk_event w' = (wk_event w)\<lparr>ev_alerts_logged := b\<rparr>"
      "wk_event w'' = (wk_event w')\<lparr>ev_alerts_logged := c\<rparr>" unfolding effect_def by blast
    then have "wk_event w'' = (wk_event w)\<lparr>ev_alerts_logged := c\<rparr>" by simp
    then show ?thesis ..
  qed
  moreover have "store_inv (wk_store w) \<longrightarrow> store_inv (wk_store w'')" "st_limit (wk_store w'') = st_limit (wk_store w)"
    using assms by (simp_all add: effect_def)
  ultimately show ?thesis unfolding effect_def by blast
qed

lemma effect_then_log: "effect st ss w w' \<Longrightarrow> effect st ss w (emit (Log l m attrs) w')"
proof -
  have "effect st [] w' (emit (Log l m attrs) w')"
    by (simp add: effect_def emit_def event_alert_self)
  then show "effect st ss w w' \<Longrightarrow> effect st ss w (emit (Log l m attrs) w')"
    by (auto dest: effect_trans)
qed

lemma effect_then_alert: "effect st ss w w' \<Longrightarrow> effect st ss w (write_alert st w')"
proof -
  have "effect st [] w' (write_alert st w')"
    by (auto simp: effect_def write_alert_def emit_def event_alert_self)
  then show "effect st ss w w' \<Longrightarrow> effect st ss w (write_alert st w')"
    by (auto dest: effect_trans)
qed

lemma effect_then_send:
  "effect st ss w w' \<Longrightarrow> effect st (ss @ [(b, r)]) w (emit (Sent b r) w')"
proof -
  have "effect st [(b, r)] w' (emit (Sent b r) w')"
    by (simp add: effect_def emit_def event_alert_self)
  then show "effect st ss w w' \<Longrightarrow> effect st (ss @ [(b, r)]) w (emit (Sent b r) w')"
    by (auto dest: effect_trans)
qed

lemma effect_then_store:
  "effect st ss w w' \<Longrightarrow> (store_inv (wk_store w') \<Longrightarrow> store_inv s) \<Longrightarrow> st_limit s = st_limit (wk_store w') \<Longrightarrow>
   effect st ss w (w'\<lparr>wk_store := s\<rparr>)"
proof -
  assume a: "store_inv (wk_store w') \<Longrightarrow> store_inv s" "st_limit s = st_limit (wk_store w')"
  then have "effect st [] w' (w'\<lparr>wk_store := s\<rparr>)"
    by (simp add: effect_def event_alert_self)
  then show "effect st ss w w' \<Longrightarrow> effect st ss w (w'\<lparr>wk_store := s\<rparr>)"
    by (auto dest: effect_trans)
qed

lemmas effect_rules = effect_refl effect_then_log effect_then_alert effect_then_store

lemma store_limits:
  "st_limit (snd (Store_Clear s r h)) = st_limit s"
  "st_limit (snd (Store_Get s r h now)) = st_limit s"
  "st_limit (snd (Store_Touch s r h e)) = st_limit s"
  "st_limit (snd (Store_Put s r h repr e ttl hold)) = st_limit s"
  by (simp_all add: Store_Clear_def Store_Get_def Store_Put_def Store_Touch_def Let_def split: option.splits)

lemma clear_state_effect: "effect st [] w (clear_state W st alarm c w)"
  unfolding clear_state_def Let_def split_beta
  by (auto intro!: effect_rules simp: inv_Clear store_limits split: sum.splits option.splits)

lemma clear_round_effect: "effect st [] w (snd (clear_round W st (b, w) alarm))"
  unfolding clear_round_def Let_def split_beta fst_conv snd_conv
  by (auto intro!: effect_rules clear_state_effect split: sum.splits option.splits bool.splits clear_check.splits)

lemma clear_rounds_effect: "effect st [] w (snd (foldl (clear_round W st) (b, w) alarms))"
proof (induction alarms arbitrary: b w)
  case (Cons alarm alarms)
  obtain b' w' where r: "clear_round W st (b, w) alarm = (b', w')" by fastforce
  with clear_round_effect [of st w W b alarm] Cons.IH [of w' b']
  show ?case using effect_trans [of st "[]" w w' "[]"] by simp
qed simp

lemma applyAlarmClearRules_effect: "effect st [] w (snd (applyAlarmClearRules W st w))"
  unfolding applyAlarmClearRules_def by (rule clear_rounds_effect)

text \<open>What a result of the handler says about the packets sent.\<close>

definition result_sends :: "bytes \<Rightarrow> outcome \<times> err option \<Rightarrow> (bytes \<times> err option) list" where
  "result_sends raw res =
     (if oc_forwarded (fst res) then [(raw, None)]
      else if oc_reason (fst res) = ''forward_failed'' then [(raw, snd res)] else [])"

lemma forwardPassThrough_effect:
  "forwardPassThrough send st w = (res, w') \<Longrightarrow> effect st (result_sends (ev_raw_bytes (wk_event w)) res) w w'"
  using effect_then_send [OF effect_refl [of st w], of "ev_raw_bytes (wk_event w)" "send (rs_forwarder st) (ev_raw_bytes (wk_event w))"]
  by (auto simp: forwardPassThrough_def Let_def result_sends_def intro!: effect_rules split: option.splits)

lemma forward_undeduped_effect:
  "forward_undeduped send st alarm key w = (res, w') \<Longrightarrow>
   effect st (result_sends (ev_raw_bytes (wk_event w)) res) w w'"
  using effect_then_send [OF effect_refl [of st w], of "ev_raw_bytes (wk_event w)" "send (rs_forwarder st) (ev_raw_bytes (wk_event w))"]
  by (auto simp: forward_undeduped_def Let_def result_sends_def intro!: effect_rules split: option.splits)

lemma store_alarm_effect: "effect st [] w (store_alarm alarm key w)"
  unfolding store_alarm_def by (rule effect_then_store) (simp_all add: inv_Put store_limits)

lemma send_alarm_effect:
  "send_alarm send st alarm key w = (res, w') \<Longrightarrow> effect st (result_sends (ev_raw_bytes (wk_event w)) res) w w'"
  using effect_then_send [OF effect_refl [of st w], of "ev_raw_bytes (wk_event w)"
      "send (rs_forwarder st) (ev_raw_bytes (wk_event w))"]
  by (auto simp: send_alarm_def Let_def result_sends_def intro!: effect_rules split: option.splits)

lemma forward_alarm_effect:
  assumes "forward_alarm send st alarm key w = (res, w')"
  shows "effect st (result_sends (ev_raw_bytes (wk_event w)) res) w w'"
  using effect_trans [OF store_alarm_effect send_alarm_effect [OF assms [unfolded forward_alarm_def]]] by simp

lemma handle_alarm_effect:
  assumes "handle_alarm send st alarm key w = (res, w')"
  shows "effect st (result_sends (ev_raw_bytes (wk_event w)) res) w w'"
proof -
  let ?e = "wk_event w"
  obtain found s1 where g: "Store_Get (wk_store w) (al_id alarm) (dk_hash key) (ev_received_at ?e) = (found, s1)"
    by fastforce
  obtain touched s2 where t: "Store_Touch s1 (al_id alarm) (dk_hash key) ?e = (touched, s2)" by fastforce
  have s1: "store_inv (wk_store w) \<Longrightarrow> store_inv s1" "st_limit s1 = st_limit (wk_store w)"
    using inv_Get [of "wk_store w"] store_limits(2) [of "wk_store w"] by (metis g snd_conv)+
  have s2: "store_inv s1 \<Longrightarrow> store_inv s2" "st_limit s2 = st_limit s1"
    using inv_Touch [of s1] store_limits(3) [of s1] by (metis t snd_conv)+
  have e1: "effect st [] w (w\<lparr>wk_store := s1\<rparr>)" and e2: "effect st [] w (w\<lparr>wk_store := s2\<rparr>)"
    using s1 s2 by (auto intro!: effect_then_store)
  note fwd = forward_alarm_effect [of send st alarm key "w\<lparr>wk_store := s\<rparr>" res w' for s]
  show ?thesis
    using assms g t e1 e2 fwd [of s1] fwd [of s2] effect_trans [OF e1, of "result_sends (ev_raw_bytes ?e) res" w']
      effect_trans [OF e2, of "result_sends (ev_raw_bytes ?e) res" w']
    by (auto simp: handle_alarm_def Let_def result_sends_def intro!: effect_then_log split: option.splits)
qed

lemma effect_event: "effect st ss w w' \<Longrightarrow> \<exists>b. wk_event w' = (wk_event w)\<lparr>ev_alerts_logged := b\<rparr>"
  by (simp add: effect_def)

lemma effect_raw: "effect st ss w w' \<Longrightarrow> ev_raw_bytes (wk_event w') = ev_raw_bytes (wk_event w)"
  by (auto dest: effect_event)

lemma handle_alarm_rule_effect:
  "handle_alarm_rule W send st alarm w = (res, w') \<Longrightarrow> effect st (result_sends (ev_raw_bytes (wk_event w)) res) w w'"
  by (auto simp: handle_alarm_rule_def result_sends_def zero_outcome_def intro: forward_undeduped_effect
      handle_alarm_effect split: sum.splits if_splits
      dest: forward_undeduped_effect [unfolded result_sends_def] handle_alarm_effect [unfolded result_sends_def])

lemma handle_filtered_effect:
  assumes "handle_filtered W send st w = (res, w')"
  shows "effect st (result_sends (ev_raw_bytes (wk_event w)) res) w w'"
proof -
  obtain flag w1 where c: "applyAlarmClearRules W st w = (flag, w1)" by fastforce
  with applyAlarmClearRules_effect [of st w W] have e1: "effect st [] w w1" by simp
  have "effect st (result_sends (ev_raw_bytes (wk_event w1)) res) w1 w'"
    using assms c
    by (auto simp: handle_filtered_def result_sends_def zero_outcome_def split: if_splits sum.splits option.splits
        dest: forwardPassThrough_effect [unfolded result_sends_def] handle_alarm_rule_effect [unfolded result_sends_def])
  from effect_trans [OF e1 this] effect_raw [OF e1] show ?thesis by simp
qed

lemma HandleEvent_effect:
  assumes "HandleEvent W send (Some st) w = (res, w')"
  shows "effect st (result_sends (ev_raw_bytes (wk_event w)) res) w w'"
proof (cases "\<exists>rule_id. evaluateFilters W (rs_cfg st) (wk_event w) = Inr (rule_id, False)")
  case True
  with assms show ?thesis by (auto simp: HandleEvent_def intro: handle_filtered_effect)
next
  case False
  with assms show ?thesis
    by (auto simp: HandleEvent_def result_sends_def zero_outcome_def intro!: effect_rules split: sum.splits if_splits)
qed

section \<open>The abstract relay\<close>

text \<open>
  The contract of the engine, without logs, alert lines and store details: a partial map from (rule,
  key hash) to the time, TTL and hold flag of the alarm that was let through, and a step that says
  whether an event is sent.
\<close>

type_synonym window = "int \<times> int \<times> bool"

definition open_window :: "int \<Rightarrow> window option \<Rightarrow> bool" where
  "open_window now o' = (case o' of None \<Rightarrow> False | Some (since, ttl, hold) \<Rightarrow> hold \<or> now < since + ttl_duration ttl)"

definition complete_key :: "dedup_key \<Rightarrow> bool" where
  "complete_key key \<longleftrightarrow> dk_missing_fields key = [] \<and> dk_hash key \<noteq> []"

text \<open>What one alarm's clear rule decides: the flag it sets and the entry it closes.\<close>

definition clear_verdict :: "match_env \<Rightarrow> trap_event \<Rightarrow> alarm_rule_config \<Rightarrow> bool option \<times> cache_key option" where
  "clear_verdict W e alarm =
     (case dd_clear (al_dedup alarm) of
        None \<Rightarrow> (None, None)
      | Some c \<Rightarrow>
         if Matches W e (dc_match c) \<noteq> Inr True then (None, None)
         else case check_clear_regex W e c of
             BadRegex \<Rightarrow> (Some True, None)
           | RegexMiss \<Rightarrow> (Some False, None)
           | _ \<Rightarrow>
              (case BuildDedupKey W (clear_key_event alarm (clear_key_fields alarm c) e) (clear_key_fields alarm c) of
                 Inl _ \<Rightarrow> (Some True, None)
               | Inr key \<Rightarrow> (Some True, if complete_key key then Some (al_id alarm, dk_hash key) else None)))"

definition spec_clear_round ::
    "match_env \<Rightarrow> trap_event \<Rightarrow> bool \<times> (cache_key \<rightharpoonup> window) \<Rightarrow> alarm_rule_config \<Rightarrow> bool \<times> (cache_key \<rightharpoonup> window)" where
  "spec_clear_round W e acc alarm =
     (let (flag, m) = acc; (verdict, closed) = clear_verdict W e alarm in
      (case verdict of None \<Rightarrow> flag | Some b \<Rightarrow> b,
       case closed of None \<Rightarrow> m | Some k \<Rightarrow> m(k := None)))"

definition spec_alarm :: "match_env \<Rightarrow> alarm_rule_config \<Rightarrow> trap_event \<Rightarrow> (cache_key \<rightharpoonup> window) \<Rightarrow> bool \<times> (cache_key \<rightharpoonup> window)" where
  "spec_alarm W alarm e m =
     (case BuildDedupKey W e (dd_key_fields (al_dedup alarm)) of
        Inl _ \<Rightarrow> (False, m)
      | Inr key \<Rightarrow>
          if \<not> complete_key key then (True, m)
          else if open_window (ev_received_at e) (m (al_id alarm, dk_hash key)) then (False, m)
          else (True, m((al_id alarm, dk_hash key) \<mapsto>
                 (ev_received_at e, dd_ttl_seconds (al_dedup alarm), dd_hold_until_clear (al_dedup alarm)))))"

definition spec_step :: "match_env \<Rightarrow> app_config \<Rightarrow> trap_event \<Rightarrow> (cache_key \<rightharpoonup> window) \<Rightarrow> bool \<times> (cache_key \<rightharpoonup> window)" where
  "spec_step W cfg e m =
     (case evaluateFilters W cfg e of
        Inl _ \<Rightarrow> (False, m)
      | Inr (_, True) \<Rightarrow> (False, m)
      | Inr (_, False) \<Rightarrow>
         (let (cleared, m1) = foldl (spec_clear_round W e) (False, m) (ac_alarms cfg) in
          if cleared then (True, m1)
          else case matchAlarm W cfg e of
              Inl _ \<Rightarrow> (False, m1)
            | Inr None \<Rightarrow> (True, m1)
            | Inr (Some alarm) \<Rightarrow> spec_alarm W alarm e m1))"

text \<open>The abstraction of a store.\<close>

definition windows :: "store \<Rightarrow> (cache_key \<rightharpoonup> window)" where
  "windows s = (\<lambda>k. map_option (\<lambda>st. (ds_first_seen_at st, ds_ttl_seconds st, ds_hold_until_clear st)) (lookup s k))"

lemma open_window_visible: "open_window now (windows s k) \<longleftrightarrow> visible now (lookup s k) \<noteq> None"
  by (cases "lookup s k") (auto simp: windows_def open_window_def live_def expires_at_def)

lemma windows_clear: "windows (snd (Store_Clear s r h)) = (windows s)((r, h) := None)"
  by (auto simp: windows_def look_Clear fun_eq_iff)

lemma windows_touch: "windows (snd (Store_Touch s r h e)) = windows s"
  by (auto simp: windows_def look_Touch fun_eq_iff touch_state_def option.map_comp comp_def)

lemma windows_get_visible:
  "visible now (lookup s (r, h)) \<noteq> None \<Longrightarrow> windows (snd (Store_Get s r h now)) = windows s"
  by (auto simp: windows_def look_Get fun_eq_iff visible_def split: option.splits if_splits)

text \<open>No room has to be made.\<close>

definition has_room :: "store \<Rightarrow> bool" where
  "has_room s \<longleftrightarrow> st_limit s \<le> 0 \<or> int (length (st_states s)) < st_limit s"

lemma windows_put:
  "has_room s \<Longrightarrow> windows (snd (Store_Put s r h repr e ttl hold)) = (windows s)((r, h) \<mapsto> (ev_received_at e, ttl, hold))"
  by (auto simp: windows_def Store_Put_def has_room_def lookup_def new_state_def fun_eq_iff Let_def)

lemma windows_get_put:
  "has_room (snd (Store_Get s r h now)) \<Longrightarrow>
   windows (snd (Store_Put (snd (Store_Get s r h now)) r h repr e ttl hold)) =
     (windows s)((r, h) \<mapsto> (ev_received_at e, ttl, hold))"
  by (auto simp: windows_put fun_eq_iff) (auto simp: windows_def look_Get)

lemma room_get: "has_room s \<Longrightarrow> has_room (snd (Store_Get s r h now))"
  using length_al_del_le [of "(r, h)" "st_states s"]
  by (auto simp: has_room_def Store_Get_def split: option.splits)

lemma room_clear: "has_room s \<Longrightarrow> has_room (snd (Store_Clear s r h))"
  using length_al_del_le [of "(r, h)" "st_states s"] by (auto simp: has_room_def Store_Clear_def)

section \<open>The engine refines the abstract relay\<close>

text \<open>Matching does not look at the alert mark.\<close>

lemma ResolveField_mark [simp]: "ResolveField (e\<lparr>ev_alerts_logged := b\<rparr>) f = ResolveField e f"
proof -
  have "first_variant (e\<lparr>ev_alerts_logged := b\<rparr>) vs = first_variant e vs" for vs
    by (induction vs) (simp_all split: option.splits)
  then show ?thesis by (simp add: ResolveField_def cong: option.case_cong if_cong)
qed

lemma conditionMatches_mark [simp]: "conditionMatches W (e\<lparr>ev_alerts_logged := b\<rparr>) c = conditionMatches W e c"
  by (simp add: conditionMatches_def)

lemma Matches_mark [simp]: "Matches W (e\<lparr>ev_alerts_logged := b\<rparr>) spec = Matches W e spec"
proof -
  have "all_match W (e\<lparr>ev_alerts_logged := b\<rparr>) cs = all_match W e cs"
    "any_match W (e\<lparr>ev_alerts_logged := b\<rparr>) cs = any_match W e cs"
    "none_match W (e\<lparr>ev_alerts_logged := b\<rparr>) cs = none_match W e cs" for cs
    by (induction cs) (simp_all cong: if_cong)
  moreover have "fields_match (e\<lparr>ev_alerts_logged := b\<rparr>) raw = fields_match e raw" for raw
    by (induction e raw rule: fields_match.induct) simp_all
  ultimately show ?thesis by (simp add: Matches_def match_groups_def cong: if_cong)
qed

lemma BuildDedupKey_mark [simp]: "BuildDedupKey W (e\<lparr>ev_alerts_logged := b\<rparr>) fs = BuildDedupKey W e fs"
  by (simp add: BuildDedupKey_eq key_complete_def)

lemma clear_key_event_mark [simp]:
  "BuildDedupKey W (clear_key_event alarm kf (e\<lparr>ev_alerts_logged := b\<rparr>)) fs = BuildDedupKey W (clear_key_event alarm kf e) fs"
proof -
  have "cloneEventWithTrapOID (e\<lparr>ev_alerts_logged := b\<rparr>) oid = (cloneEventWithTrapOID e oid)\<lparr>ev_alerts_logged := b\<rparr>" for oid
    by (simp add: cloneEventWithTrapOID_def)
  then show ?thesis by (simp add: clear_key_event_def split: option.splits)
qed

lemma clear_verdict_mark [simp]: "clear_verdict W (e\<lparr>ev_alerts_logged := b\<rparr>) alarm = clear_verdict W e alarm"
proof -
  have "check_clear_regex W (e\<lparr>ev_alerts_logged := b\<rparr>) c = check_clear_regex W e c" for c
    by (simp add: check_clear_regex_def cong: option.case_cong)
  then show ?thesis by (simp add: clear_verdict_def cong: option.case_cong if_cong clear_check.case_cong)
qed

lemma matchAlarm_mark [simp]: "matchAlarm W cfg (e\<lparr>ev_alerts_logged := b\<rparr>) = matchAlarm W cfg e"
proof -
  have "first_alarm W (e\<lparr>ev_alerts_logged := b\<rparr>) rs = first_alarm W e rs" for rs
    by (induction rs) (simp_all cong: if_cong)
  then show ?thesis by (simp add: matchAlarm_def)
qed

lemma work_store_simps [simp]:
  "wk_store (emit x w) = wk_store w" "wk_store (write_alert st w) = wk_store w" "wk_event (emit x w) = wk_event w"
  by (simp_all add: emit_def write_alert_def)

lemma clear_state_store:
  "wk_store (clear_state W st alarm c w) =
     (case BuildDedupKey W (clear_key_event alarm (clear_key_fields alarm c) (wk_event w)) (clear_key_fields alarm c) of
        Inl _ \<Rightarrow> wk_store w
      | Inr key \<Rightarrow> if complete_key key then snd (Store_Clear (wk_store w) (al_id alarm) (dk_hash key)) else wk_store w)"
  by (auto simp: clear_state_def Let_def split_beta complete_key_def split: sum.splits option.splits)

text \<open>One round simulates one round, and keeps the room.\<close>

lemma clear_round_sim:
  assumes "clear_round W st (flag, w) alarm = (flag', w')"
  shows "spec_clear_round W (wk_event w) (flag, windows (wk_store w)) alarm = (flag', windows (wk_store w'))"
    and "has_room (wk_store w) \<Longrightarrow> has_room (wk_store w')"
proof -
  show "spec_clear_round W (wk_event w) (flag, windows (wk_store w)) alarm = (flag', windows (wk_store w'))"
    using assms
    by (auto simp: clear_round_def spec_clear_round_def clear_verdict_def Let_def clear_state_store windows_clear
        split: option.splits sum.splits bool.splits clear_check.splits)
  show "has_room (wk_store w) \<Longrightarrow> has_room (wk_store w')"
    using assms
    by (auto simp: clear_round_def Let_def clear_state_store room_clear
        split: option.splits sum.splits bool.splits clear_check.splits)
qed

lemma spec_clear_round_mark [simp]: "spec_clear_round W (e\<lparr>ev_alerts_logged := b\<rparr>) = spec_clear_round W e"
  by (simp add: spec_clear_round_def fun_eq_iff)

lemma clear_rounds_sim:
  assumes "foldl (clear_round W st) (flag, w) alarms = (flag', w')"
  shows "foldl (spec_clear_round W (wk_event w)) (flag, windows (wk_store w)) alarms = (flag', windows (wk_store w')) \<and>
    (has_room (wk_store w) \<longrightarrow> has_room (wk_store w'))"
  using assms
proof (induction alarms arbitrary: flag w)
  case (Cons alarm alarms)
  obtain f1 w1 where r: "clear_round W st (flag, w) alarm = (f1, w1)" by fastforce
  from effect_event [OF clear_round_effect [of st w W flag alarm]] r obtain b where
    b: "wk_event w1 = (wk_event w)\<lparr>ev_alerts_logged := b\<rparr>" by auto
  from Cons.prems r have "foldl (clear_round W st) (f1, w1) alarms = (flag', w')" by simp
  from Cons.IH [OF this] clear_round_sim [OF r] b show ?case by auto
qed simp

definition attempted :: "outcome \<times> err option \<Rightarrow> bool" where
  "attempted res \<longleftrightarrow> oc_forwarded (fst res) \<or> oc_reason (fst res) = ''forward_failed''"

lemma attempted_sends: "attempted res \<longleftrightarrow> result_sends raw res \<noteq> []"
  by (simp add: attempted_def result_sends_def)

lemma forwardPassThrough_sim:
  "forwardPassThrough send st w = (res, w') \<Longrightarrow> attempted res \<and> wk_store w' = wk_store w"
  by (auto simp: forwardPassThrough_def Let_def attempted_def split: option.splits)

lemma forward_undeduped_sim:
  "forward_undeduped send st alarm key w = (res, w') \<Longrightarrow> attempted res \<and> wk_store w' = wk_store w"
  by (auto simp: forward_undeduped_def Let_def attempted_def split: option.splits)

lemma send_alarm_sim:
  "send_alarm send st alarm key w = (res, w') \<Longrightarrow> attempted res \<and> wk_store w' = wk_store w"
  by (auto simp: send_alarm_def Let_def attempted_def split: option.splits)

lemma forward_alarm_sim:
  "forward_alarm send st alarm key w = (res, w') \<Longrightarrow> attempted res \<and> wk_store w' = wk_store (store_alarm alarm key w)"
  unfolding forward_alarm_def by (rule send_alarm_sim)

text \<open>Whether the event is sent never depends on the room in the store, what is stored does.\<close>

definition follows :: "work \<Rightarrow> (outcome \<times> err option) \<times> work \<Rightarrow> bool \<times> (cache_key \<rightharpoonup> window) \<Rightarrow> bool" where
  "follows w r spec \<longleftrightarrow>
     attempted (fst r) = fst spec \<and> (has_room (wk_store w) \<longrightarrow> windows (wk_store (snd r)) = snd spec)"

lemma handle_alarm_sim:
  "follows w (handle_alarm send st alarm key w)
    (if open_window (ev_received_at (wk_event w)) (windows (wk_store w) (al_id alarm, dk_hash key))
     then (False, windows (wk_store w))
     else (True, (windows (wk_store w))((al_id alarm, dk_hash key) \<mapsto>
       (ev_received_at (wk_event w), dd_ttl_seconds (al_dedup alarm), dd_hold_until_clear (al_dedup alarm)))))"
proof -
  obtain res w' where h: "handle_alarm send st alarm key w = (res, w')" by fastforce
  let ?now = "ev_received_at (wk_event w)" and ?s = "wk_store w"
  let ?s1 = "snd (Store_Get ?s (al_id alarm) (dk_hash key) ?now)"
  show ?thesis
  proof (cases "visible ?now (lookup ?s (al_id alarm, dk_hash key))")
    case None
    then have "fst (Store_Get ?s (al_id alarm) (dk_hash key) ?now) = None" by (simp add: look_Get)
    with h have "forward_alarm send st alarm key (w\<lparr>wk_store := ?s1\<rparr>) = (res, w')"
      by (simp add: handle_alarm_def Let_def split_beta)
    from forward_alarm_sim [OF this] None windows_get_put [OF room_get] show ?thesis
      by (simp add: open_window_visible follows_def h)
  next
    case (Some ds)
    then have "fst (Store_Get ?s (al_id alarm) (dk_hash key) ?now) = Some ds" by (simp add: look_Get)
    moreover from Some have "fst (Store_Touch ?s1 (al_id alarm) (dk_hash key) (wk_event w)) = Some (touch_state (wk_event w) ds)"
      by (simp add: look_Touch look_Get)
    ultimately have "\<not> attempted res"
      "wk_store w' = snd (Store_Touch ?s1 (al_id alarm) (dk_hash key) (wk_event w))"
      using h by (auto simp: handle_alarm_def Let_def split_beta attempted_def)
    with Some show ?thesis by (simp add: open_window_visible windows_touch windows_get_visible follows_def h)
  qed
qed

lemma attempted_zero [simp]: "\<not> attempted (zero_outcome, er)"
  by (simp add: attempted_def zero_outcome_def)

lemma handle_alarm_rule_sim:
  "follows w (handle_alarm_rule W send st alarm w) (spec_alarm W alarm (wk_event w) (windows (wk_store w)))"
proof (cases "BuildDedupKey W (wk_event w) (dd_key_fields (al_dedup alarm))")
  case (Inl er)
  then show ?thesis by (simp add: handle_alarm_rule_def spec_alarm_def follows_def)
next
  case (Inr key)
  show ?thesis
  proof (cases "complete_key key")
    case True
    with Inr have "handle_alarm_rule W send st alarm w = handle_alarm send st alarm key w"
      by (simp add: handle_alarm_rule_def complete_key_def)
    with handle_alarm_sim [of w send st alarm key] Inr True show ?thesis by (simp add: spec_alarm_def)
  next
    case False
    obtain res w' where u: "forward_undeduped send st alarm key w = (res, w')" by fastforce
    with Inr False have "handle_alarm_rule W send st alarm w = (res, w')"
      by (auto simp: handle_alarm_rule_def complete_key_def)
    with forward_undeduped_sim [OF u] Inr False show ?thesis by (simp add: spec_alarm_def follows_def)
  qed
qed

lemma spec_alarm_mark [simp]: "spec_alarm W alarm (e\<lparr>ev_alerts_logged := b\<rparr>) = spec_alarm W alarm e"
  by (simp add: spec_alarm_def fun_eq_iff cong: if_cong sum.case_cong)

definition spec_unfiltered :: "match_env \<Rightarrow> app_config \<Rightarrow> trap_event \<Rightarrow> (cache_key \<rightharpoonup> window) \<Rightarrow> bool \<times> (cache_key \<rightharpoonup> window)" where
  "spec_unfiltered W cfg e m =
     (let (cleared, m1) = foldl (spec_clear_round W e) (False, m) (ac_alarms cfg) in
      if cleared then (True, m1)
      else case matchAlarm W cfg e of
          Inl _ \<Rightarrow> (False, m1)
        | Inr None \<Rightarrow> (True, m1)
        | Inr (Some alarm) \<Rightarrow> spec_alarm W alarm e m1)"

lemma handle_filtered_sim:
  "follows w (handle_filtered W send st w) (spec_unfiltered W (rs_cfg st) (wk_event w) (windows (wk_store w)))"
proof -
  obtain flag w1 where c: "applyAlarmClearRules W st w = (flag, w1)" by fastforce
  then have f: "foldl (clear_round W st) (False, w) (ac_alarms (rs_cfg st)) = (flag, w1)"
    by (simp add: applyAlarmClearRules_def)
  from clear_rounds_sim [OF f] have
    spec: "foldl (spec_clear_round W (wk_event w)) (False, windows (wk_store w)) (ac_alarms (rs_cfg st)) =
      (flag, windows (wk_store w1))" and room: "has_room (wk_store w) \<longrightarrow> has_room (wk_store w1)" by auto
  from applyAlarmClearRules_effect [of st w W] c have "effect st [] w w1" by simp
  then obtain b where b: "wk_event w1 = (wk_event w)\<lparr>ev_alerts_logged := b\<rparr>" by (auto dest: effect_event)
  have pass: "follows w (forwardPassThrough send st w1) (True, windows (wk_store w1))"
    using forwardPassThrough_sim [of send st w1] by (cases "forwardPassThrough send st w1") (simp add: follows_def)
  consider (cleared) "flag" | (err) er where "\<not> flag" "matchAlarm W (rs_cfg st) (wk_event w) = Inl er"
    | (no) "\<not> flag" "matchAlarm W (rs_cfg st) (wk_event w) = Inr None"
    | (alarm) alarm where "\<not> flag" "matchAlarm W (rs_cfg st) (wk_event w) = Inr (Some alarm)"
    by (cases "matchAlarm W (rs_cfg st) (wk_event w)") auto
  then show ?thesis
  proof cases
    case err
    then show ?thesis using c b by (simp add: handle_filtered_def spec_unfiltered_def spec follows_def)
  next
    case alarm
    have "follows w1 (handle_alarm_rule W send st alarm w1) (spec_alarm W alarm (wk_event w) (windows (wk_store w1)))"
      using handle_alarm_rule_sim [of w1 W send st alarm] b by simp
    with room alarm c b show ?thesis by (simp add: follows_def handle_filtered_def spec_unfiltered_def spec)
  qed (use c b pass in \<open>simp_all add: handle_filtered_def spec_unfiltered_def spec\<close>)
qed

lemma HandleEvent_sim:
  "follows w (HandleEvent W send (Some st) w) (spec_step W (rs_cfg st) (wk_event w) (windows (wk_store w)))"
proof -
  consider (err) er where "evaluateFilters W (rs_cfg st) (wk_event w) = Inl er"
    | (drop) r where "evaluateFilters W (rs_cfg st) (wk_event w) = Inr (r, True)"
    | (keep) r where "evaluateFilters W (rs_cfg st) (wk_event w) = Inr (r, False)"
    by (cases "evaluateFilters W (rs_cfg st) (wk_event w)") auto
  then show ?thesis
  proof cases
    case keep
    with handle_filtered_sim [of w W send st] show ?thesis
      by (simp add: HandleEvent_def spec_step_def spec_unfiltered_def)
  qed (auto simp: HandleEvent_def spec_step_def follows_def attempted_def zero_outcome_def)
qed

text \<open>A trap that counts as a clear stores nothing, so its windows are those of the abstract step in any case.\<close>

lemma HandleEvent_cleared:
  assumes "evaluateFilters W (rs_cfg st) (wk_event w) = Inr (r, False)"
    and "fst (foldl (spec_clear_round W (wk_event w)) (False, windows (wk_store w)) (ac_alarms (rs_cfg st)))"
  shows "windows (wk_store (snd (HandleEvent W send (Some st) w))) =
    snd (spec_step W (rs_cfg st) (wk_event w) (windows (wk_store w)))"
proof -
  obtain flag w1 where c: "applyAlarmClearRules W st w = (flag, w1)" by fastforce
  then have "foldl (clear_round W st) (False, w) (ac_alarms (rs_cfg st)) = (flag, w1)"
    by (simp add: applyAlarmClearRules_def)
  from clear_rounds_sim [OF this] have
    spec: "foldl (spec_clear_round W (wk_event w)) (False, windows (wk_store w)) (ac_alarms (rs_cfg st)) =
      (flag, windows (wk_store w1))" by simp
  with assms(2) have flag by simp
  with forwardPassThrough_sim [of send st w1] assms(1) c spec show ?thesis
    by (cases "forwardPassThrough send st w1") (simp add: HandleEvent_def handle_filtered_def spec_step_def)
qed

section \<open>Histories\<close>

definition start_work :: "store \<Rightarrow> trap_event \<Rightarrow> work" where
  "start_work s e = \<lparr>wk_store = s, wk_event = e, wk_out = []\<rparr>"

lemma start_work_simps [simp]:
  "wk_store (start_work s e) = s" "wk_event (start_work s e) = e" "wk_out (start_work s e) = []"
  by (simp_all add: start_work_def)

text \<open>The events of one worker, one after the other: what each emits, and the store at the end.\<close>

fun handle_all ::
    "match_env \<Rightarrow> sender \<Rightarrow> 'd runtime_state \<Rightarrow> store \<Rightarrow> trap_event list \<Rightarrow> emission list list \<times> store" where
  "handle_all W send st s [] = ([], s)"
| "handle_all W send st s (e # es) =
     (let (_, w) = HandleEvent W send (Some st) (start_work s e);
          (outs, s') = handle_all W send st (wk_store w) es
      in (wk_out w # outs, s'))"

fun spec_all :: "match_env \<Rightarrow> app_config \<Rightarrow> (cache_key \<rightharpoonup> window) \<Rightarrow> trap_event list \<Rightarrow> bool list \<times> (cache_key \<rightharpoonup> window)" where
  "spec_all W cfg m [] = ([], m)"
| "spec_all W cfg m (e # es) =
     (let (sent, m1) = spec_step W cfg e m; (sents, m2) = spec_all W cfg m1 es in (sent # sents, m2))"

lemma HandleEvent_out:
  assumes "HandleEvent W send (Some st) (start_work s e) = (res, w)"
  shows "sends (wk_out w) = result_sends (ev_raw_bytes e) res"
    "alerts (wk_out w) \<le> (if rs_alerts st \<noteq> None \<and> \<not> ev_alerts_logged e then 1 else 0)"
    "store_inv s \<Longrightarrow> store_inv (wk_store w)" "st_limit (wk_store w) = st_limit s"
  using HandleEvent_effect [OF assms]
  by (auto simp: effect_def of_bool_def split: if_splits)

text \<open>The number of states is the size of the abstract map, and a step adds one window at most.\<close>

lemma store_card: "store_inv s \<Longrightarrow> length (st_states s) = card (dom (windows s))"
proof -
  assume "store_inv s"
  then have d: "distinct (map fst (st_states s))" by (simp add: store_inv_def al_distinct_def)
  have "dom (windows s) = set (map fst (st_states s))"
    by (auto simp: windows_def lookup_def dom_def map_of_eq_None_iff image_iff
        intro: map_of_SomeD dest: map_of_SomeD weak_map_of_SomeI)
  with d show ?thesis by (metis distinct_card length_map)
qed

lemma spec_clear_rounds_dom:
  "foldl (spec_clear_round W e) (flag, m) alarms = (flag', m') \<Longrightarrow> dom m' \<subseteq> dom m"
proof (induction alarms arbitrary: flag m)
  case (Cons alarm alarms)
  obtain f1 m1 where r: "spec_clear_round W e (flag, m) alarm = (f1, m1)" by fastforce
  then have "dom m1 \<subseteq> dom m"
    by (cases "clear_verdict W e alarm"; cases "snd (clear_verdict W e alarm)") (auto simp: spec_clear_round_def Let_def split: if_splits)
  moreover have "dom m' \<subseteq> dom m1" using Cons.prems r by (intro Cons.IH) simp
  ultimately show ?case by blast
qed simp

lemma spec_step_dom: "\<exists>k. dom (snd (spec_step W cfg e m)) \<subseteq> insert k (dom m)"
proof -
  obtain flag m1 where c: "foldl (spec_clear_round W e) (False, m) (ac_alarms cfg) = (flag, m1)" by fastforce
  have sub: "dom m1 \<subseteq> dom m" by (rule spec_clear_rounds_dom [OF c])
  have "\<exists>k. dom (snd (spec_alarm W alarm e m1)) \<subseteq> insert k (dom m1)" for alarm
    by (auto simp: spec_alarm_def split: sum.splits)
  with sub have "\<exists>k. dom (snd (spec_alarm W alarm e m1)) \<subseteq> insert k (dom m)" for alarm
    by (meson insert_mono order_trans)
  moreover have "\<exists>k. dom m1 \<subseteq> insert k (dom m)" using sub by blast
  ultimately show ?thesis
    by (auto simp: spec_step_def c split: sum.splits option.splits bool.splits)
qed

lemma handle_all_refines:
  assumes "store_inv s" "st_limit s \<le> 0 \<or> int (length (st_states s) + length es) \<le> st_limit s"
    and "handle_all W send st s es = (outs, s')"
  shows "spec_all W (rs_cfg st) (windows s) es = (map (\<lambda>out. sends out \<noteq> []) outs, windows s')"
  using assms
proof (induction es arbitrary: s outs)
  case (Cons e es)
  obtain res w where h: "HandleEvent W send (Some st) (start_work s e) = (res, w)" by fastforce
  obtain outs' where t: "handle_all W send st (wk_store w) es = (outs', s')" and outs: "outs = wk_out w # outs'"
    using Cons.prems(3) h by (auto split: prod.splits)
  have room: "has_room (wk_store (start_work s e))"
    using Cons.prems(2) by (auto simp: has_room_def start_work_def)
  have step: "spec_step W (rs_cfg st) e (windows s) = (attempted res, windows (wk_store w))"
    using HandleEvent_sim [of "start_work s e" W send st] room h by (auto simp: follows_def prod_eq_iff)
  have inv: "store_inv (wk_store w)" "st_limit (wk_store w) = st_limit s"
    using HandleEvent_out [OF h] Cons.prems(1) by simp_all
  have "length (st_states (wk_store w)) \<le> Suc (length (st_states s))"
  proof -
    obtain k where "dom (windows (wk_store w)) \<subseteq> insert k (dom (windows s))"
      using spec_step_dom [of W "rs_cfg st" e "windows s"] step by auto
    moreover have fin: "finite (dom (windows s))"
      by (rule finite_subset [of _ "fst ` set (st_states s)"])
         (auto simp: windows_def lookup_def dest: map_of_SomeD intro: rev_image_eqI)
    ultimately have "card (dom (windows (wk_store w))) \<le> card (insert k (dom (windows s)))"
      by (intro card_mono) auto
    also have "\<dots> \<le> Suc (card (dom (windows s)))" using fin by (simp add: card_insert_if)
    finally show ?thesis using store_card Cons.prems(1) inv(1) by simp
  qed
  then have "st_limit (wk_store w) \<le> 0 \<or> int (length (st_states (wk_store w)) + length es) \<le> st_limit (wk_store w)"
    using Cons.prems(2) inv(2) by auto
  from Cons.IH [OF inv(1) this t] step HandleEvent_out(1) [OF h] show ?case
    by (simp add: outs attempted_sends [of res "ev_raw_bytes e"])
qed simp

text \<open>A result reports what the forwarder said.\<close>

definition honest :: "(bytes \<Rightarrow> err option) \<Rightarrow> bytes \<Rightarrow> outcome \<times> err option \<Rightarrow> bool" where
  "honest send raw res \<longleftrightarrow> (attempted res \<longrightarrow> result_sends raw res = [(raw, send raw)])"

lemma honest_zero [simp]: "honest send raw (zero_outcome, er)"
  by (simp add: honest_def)

lemma honest_forwards:
  "forwardPassThrough send st w = (res, w') \<Longrightarrow> honest (send (rs_forwarder st)) (ev_raw_bytes (wk_event w)) res"
  "forward_undeduped send st alarm key w = (res, w') \<Longrightarrow> honest (send (rs_forwarder st)) (ev_raw_bytes (wk_event w)) res"
  "forward_alarm send st alarm key w = (res, w') \<Longrightarrow> honest (send (rs_forwarder st)) (ev_raw_bytes (wk_event w)) res"
  by (auto simp: forwardPassThrough_def forward_undeduped_def forward_alarm_def send_alarm_def Let_def split_beta honest_def
      attempted_def result_sends_def split: option.splits)

lemma honest_handle_alarm:
  assumes "handle_alarm send st alarm key w = (res, w')"
  shows "honest (send (rs_forwarder st)) (ev_raw_bytes (wk_event w)) res"
  using assms honest_forwards(3) [of send st alarm key "w\<lparr>wk_store := s\<rparr>" res w' for s]
  by (auto simp: handle_alarm_def Let_def split_beta split: option.splits)
     (auto simp: honest_def attempted_def)

lemma honest_handle_alarm_rule:
  assumes "handle_alarm_rule W send st alarm w = (res, w')"
  shows "honest (send (rs_forwarder st)) (ev_raw_bytes (wk_event w)) res"
  using assms honest_handle_alarm [of send st alarm _ w res w'] honest_forwards(2) [of send st alarm _ w res w']
  by (auto simp: handle_alarm_rule_def split: sum.splits if_splits)

lemma honest_handle_filtered:
  assumes "handle_filtered W send st w = (res, w')"
  shows "honest (send (rs_forwarder st)) (ev_raw_bytes (wk_event w)) res"
proof -
  obtain flag w1 where c: "applyAlarmClearRules W st w = (flag, w1)" by fastforce
  with applyAlarmClearRules_effect [of st w W] have "ev_raw_bytes (wk_event w1) = ev_raw_bytes (wk_event w)"
    by (auto dest: effect_raw)
  with assms c honest_handle_alarm_rule [of W send st _ w1 res w'] honest_forwards(1) [of send st w1 res w']
  show ?thesis by (auto simp: handle_filtered_def split: sum.splits if_splits option.splits)
qed

lemma honest_HandleEvent:
  assumes "HandleEvent W send (Some st) w = (res, w')"
  shows "honest (send (rs_forwarder st)) (ev_raw_bytes (wk_event w)) res"
  using assms honest_handle_filtered [of W send st w res w']
  by (auto simp: HandleEvent_def split: sum.splits if_splits) (auto simp: honest_def attempted_def)

definition handle_one ::
    "match_env \<Rightarrow> sender \<Rightarrow> 'd runtime_state \<Rightarrow> store \<Rightarrow> trap_event \<Rightarrow> emission list \<times> store" where
  "handle_one W send st s e =
     (let (_, w) = HandleEvent W send (Some st) (start_work s e) in (wk_out w, wk_store w))"

text \<open>The packets sent and the windows left by one event are those of the abstract step.\<close>

lemma handle_one_sends:
  "sends (fst (handle_one W send st s e)) =
     (if fst (spec_step W (rs_cfg st) e (windows s)) then [(ev_raw_bytes e, send (rs_forwarder st) (ev_raw_bytes e))] else [])"
proof -
  obtain res w where h: "HandleEvent W send (Some st) (start_work s e) = (res, w)" by fastforce
  have "fst (spec_step W (rs_cfg st) e (windows s)) = attempted res"
    using HandleEvent_sim [of "start_work s e" W send st] h by (simp add: follows_def)
  then show ?thesis
    using HandleEvent_out(1) [OF h] honest_HandleEvent [OF h]
    by (auto simp: handle_one_def h honest_def attempted_sends [of res "ev_raw_bytes e"])
qed

lemma handle_one_windows:
  assumes "has_room s"
  shows "windows (snd (handle_one W send st s e)) = snd (spec_step W (rs_cfg st) e (windows s))"
  using HandleEvent_sim [of "start_work s e" W send st] assms by (simp add: handle_one_def follows_def split_beta)

lemmas handle_one_sim = handle_one_sends handle_one_windows

text \<open>An event that raises an alarm and clears none, and an event that closes a window.\<close>

definition kept :: "match_env \<Rightarrow> app_config \<Rightarrow> trap_event \<Rightarrow> bool" where
  "kept W cfg e \<longleftrightarrow> (\<exists>r. evaluateFilters W cfg e = Inr (r, False))"

definition raises :: "match_env \<Rightarrow> app_config \<Rightarrow> trap_event \<Rightarrow> alarm_rule_config \<Rightarrow> string \<Rightarrow> bool" where
  "raises W cfg e alarm hash \<longleftrightarrow>
     kept W cfg e \<and> (\<forall>a \<in> set (ac_alarms cfg). clear_verdict W e a = (None, None)) \<and>
     matchAlarm W cfg e = Inr (Some alarm) \<and>
     (\<exists>key. BuildDedupKey W e (dd_key_fields (al_dedup alarm)) = Inr key \<and> complete_key key \<and> dk_hash key = hash)"

text \<open>The last clear rule that has a say about the event is one that closes \<open>k\<close>, or agrees with it.\<close>

definition closes :: "match_env \<Rightarrow> app_config \<Rightarrow> trap_event \<Rightarrow> cache_key \<Rightarrow> bool" where
  "closes W cfg e k \<longleftrightarrow>
     kept W cfg e \<and>
     (\<exists>pre a post. ac_alarms cfg = pre @ a # post \<and> clear_verdict W e a = (Some True, Some k) \<and>
        (\<forall>b \<in> set post. fst (clear_verdict W e b) \<noteq> Some False))"

lemma closesI:
  "kept W cfg e \<Longrightarrow> ac_alarms cfg = pre @ a # post \<Longrightarrow> clear_verdict W e a = (Some True, Some k) \<Longrightarrow>
   \<forall>b \<in> set post. fst (clear_verdict W e b) \<noteq> Some False \<Longrightarrow> closes W cfg e k"
  unfolding closes_def by blast

lemma spec_no_clear:
  "\<forall>a \<in> set alarms. clear_verdict W e a = (None, None) \<Longrightarrow> foldl (spec_clear_round W e) (flag, m) alarms = (flag, m)"
  by (induction alarms) (simp_all add: spec_clear_round_def)

lemma spec_step_raises:
  assumes "raises W cfg e alarm hash"
  shows "spec_step W cfg e m =
    (if open_window (ev_received_at e) (m (al_id alarm, hash)) then (False, m)
     else (True, m((al_id alarm, hash) \<mapsto>
       (ev_received_at e, dd_ttl_seconds (al_dedup alarm), dd_hold_until_clear (al_dedup alarm)))))"
  using assms by (auto simp: raises_def kept_def spec_step_def spec_no_clear spec_alarm_def)

lemma spec_clears:
  assumes "\<forall>a \<in> set alarms. fst (clear_verdict W e a) \<noteq> Some False" "m k = None"
  shows "\<exists>m'. foldl (spec_clear_round W e) (True, m) alarms = (True, m') \<and> m' k = None"
  using assms
proof (induction alarms arbitrary: m)
  case (Cons a alarms)
  obtain f1 m1 where r: "spec_clear_round W e (True, m) a = (f1, m1)" by fastforce
  with Cons.prems have "f1" "m1 k = None"
    by (auto simp: spec_clear_round_def split: option.splits prod.splits)
  with Cons r show ?case by simp
qed simp

lemma spec_rounds_close:
  assumes "closes W cfg e k"
  shows "\<exists>m'. foldl (spec_clear_round W e) (False, m) (ac_alarms cfg) = (True, m') \<and> m' k = None"
proof -
  from assms obtain pre a post where a: "ac_alarms cfg = pre @ a # post" "clear_verdict W e a = (Some True, Some k)"
    "\<forall>b \<in> set post. fst (clear_verdict W e b) \<noteq> Some False" by (auto simp: closes_def)
  obtain f1 m1 where "foldl (spec_clear_round W e) (False, m) pre = (f1, m1)" by fastforce
  with spec_clears [OF a(3), of "m1(k := None)" k] a(1,2) show ?thesis by (simp add: spec_clear_round_def)
qed

lemma spec_step_closes: "closes W cfg e k \<Longrightarrow> fst (spec_step W cfg e m) \<and> snd (spec_step W cfg e m) k = None"
  using spec_rounds_close [of W cfg e k m] by (auto simp: closes_def kept_def spec_step_def)

lemma handle_one_closes:
  assumes "closes W (rs_cfg st) c k"
  shows "windows (snd (handle_one W send st s c)) k = None"
proof -
  from assms obtain r where "evaluateFilters W (rs_cfg st) c = Inr (r, False)" by (auto simp: closes_def kept_def)
  with spec_rounds_close [OF assms, of "windows s"] HandleEvent_cleared [of W st "start_work s c" r send]
    spec_step_closes [OF assms, of "windows s"]
  show ?thesis by (auto simp: handle_one_def split_beta)
qed

text \<open>The key under which an event's alarm would be looked up, and the events that leave a key's window alone.\<close>

definition raised_key :: "match_env \<Rightarrow> app_config \<Rightarrow> trap_event \<Rightarrow> cache_key option" where
  "raised_key W cfg e =
     (case matchAlarm W cfg e of
        Inr (Some alarm) \<Rightarrow>
          (case BuildDedupKey W e (dd_key_fields (al_dedup alarm)) of
             Inl _ \<Rightarrow> None
           | Inr key \<Rightarrow> if complete_key key then Some (al_id alarm, dk_hash key) else None)
      | _ \<Rightarrow> None)"

definition leaves :: "match_env \<Rightarrow> app_config \<Rightarrow> cache_key \<Rightarrow> window \<Rightarrow> trap_event \<Rightarrow> bool" where
  "leaves W cfg k win e \<longleftrightarrow>
     (\<forall>a \<in> set (ac_alarms cfg). snd (clear_verdict W e a) \<noteq> Some k) \<and>
     (raised_key W cfg e = Some k \<longrightarrow> open_window (ev_received_at e) (Some win))"

lemma spec_rounds_keep:
  "\<forall>a \<in> set alarms. snd (clear_verdict W e a) \<noteq> Some k \<Longrightarrow>
   snd (foldl (spec_clear_round W e) (flag, m) alarms) k = m k"
proof (induction alarms arbitrary: flag m)
  case (Cons a alarms)
  obtain f1 m1 where r: "spec_clear_round W e (flag, m) a = (f1, m1)" by fastforce
  then have "m1 k = m k" using Cons.prems by (auto simp: spec_clear_round_def Let_def split: prod.splits option.splits)
  with Cons.IH [of f1 m1] Cons.prems r show ?case by simp
qed simp

lemma spec_step_keeps:
  assumes "leaves W cfg k win e" "m k = Some win"
  shows "snd (spec_step W cfg e m) k = Some win"
proof -
  obtain flag m1 where c: "foldl (spec_clear_round W e) (False, m) (ac_alarms cfg) = (flag, m1)" by fastforce
  have m1: "m1 k = Some win" using spec_rounds_keep [of "ac_alarms cfg" W e k False m] assms c by (simp add: leaves_def)
  have "snd (spec_alarm W alarm e m1) k = Some win" if "matchAlarm W cfg e = Inr (Some alarm)" for alarm
    using assms(1) m1 that by (auto simp: spec_alarm_def leaves_def raised_key_def split: sum.splits)
  with m1 assms(2) show ?thesis by (auto simp: spec_step_def c split: sum.splits option.splits bool.splits)
qed

lemma spec_all_keeps:
  "\<forall>e \<in> set es. leaves W cfg k win e \<Longrightarrow> m k = Some win \<Longrightarrow> snd (spec_all W cfg m es) k = Some win"
proof (induction es arbitrary: m)
  case (Cons e es)
  from spec_step_keeps [of W cfg k win e m] Cons.prems Cons.IH [of "snd (spec_step W cfg e m)"] show ?case
    by (simp add: split_beta)
qed simp

lemma handle_all_append:
  "handle_all W send st s (xs @ ys) =
     (let (o1, s1) = handle_all W send st s xs; (o2, s2) = handle_all W send st s1 ys in (o1 @ o2, s2))"
  by (induction xs arbitrary: s) (simp_all add: split_beta)

lemma handle_all_one: "handle_all W send st s [e] = ([fst (handle_one W send st s e)], snd (handle_one W send st s e))"
  by (simp add: handle_one_def split_beta)

section \<open>Filters decide first\<close>

lemma filter_rules_first:
  assumes "\<forall>p \<in> set pre. Matches W e (fr_match p) = Inr False" "Matches W e (fr_match r) = Inr True"
  shows "filter_rules W e (pre @ r # post) =
    (if fr_action r = [] \<or> fr_action r = ''drop'' then Inr (Some (fr_id r, True))
     else if fr_action r = ''keep'' then Inr (Some (fr_id r, False))
     else Inl (Errorf ''unsupported filter action %q'' [fr_action r]))"
  using assms by (induction pre) simp_all

section \<open>The engine on the interface of the decoder\<close>

context trap_decoder
begin

text \<open>What is sent is the datagram itself, once or not at all.\<close>

lemma forwards_datagram:
  assumes "Parse decode en now data ip port = Inr e" "en_state en = Some st"
  shows "sends (fst (handle_one W send st s e)) \<in> {[], [(data, send (rs_forwarder st) data)]} \<and>
    alerts (fst (handle_one W send st s e)) \<le> 1"
proof -
  obtain d where "decode d now data ip port = Inr e"
    using assms by (auto simp: Parse_def split: option.splits)
  then have raw: "ev_raw_bytes e = data" by (rule decode_raw)
  obtain res w where h: "HandleEvent W send (Some st) (start_work s e) = (res, w)" by fastforce
  have "alerts (wk_out w) \<le> 1" using HandleEvent_out(2) [OF h] by (simp split: if_splits)
  with HandleEvent_out(1) [OF h] honest_HandleEvent [OF h] raw show ?thesis
    by (auto simp: handle_one_def h honest_def attempted_sends [of res data])
qed

end

section \<open>Properties\<close>

text \<open>A relay with one alarm rule, cleared by another trap OID; no filters and no decoder.\<close>

definition sample_alarm :: alarm_rule_config where
  "sample_alarm =
     \<lparr>al_id = ''link'', al_match = \<lparr>ms_raw = [(''trap_oid'', YStr ''1.3.6.1.4.1.7'')]\<rparr>,
      al_dedup = \<lparr>dd_ttl_seconds = 60, dd_key_fields = [''source_ip''], dd_hold_until_clear = False,
        dd_clear = Some \<lparr>dc_match = \<lparr>ms_raw = [(''trap_oid'', YStr ''1.3.6.1.4.1.8'')]\<rparr>, dc_key_fields = [],
          dc_varbind_oid = [], dc_regex = []\<rparr>\<rparr>\<rparr>"

definition sample_target :: target where
  "sample_target =
     \<lparr>tg_config = sample_forwarder ''a'', tg_addr = \<lparr>ua_ip = [10, 0, 0, 1], ua_port = 162, ua_zone = []\<rparr>, tg_conn = Some 0\<rparr>"

definition sample_logger :: logger where
  "sample_logger = \<lparr>lg_format = TextFormat, lg_level = LevelInfo, lg_writer = None\<rparr>"

definition sample_rs :: "nat runtime_state" where
  "sample_rs =
     \<lparr>rs_cfg = sample_config\<lparr>ac_alarms := [sample_alarm]\<rparr>, rs_forwarder = [sample_target], rs_decoder = None,
      rs_logger = sample_logger, rs_alerts = Some 1\<rparr>"

definition sample_hash :: string where
  "sample_hash = hex_encode (bytes_of_str (key_payload [(''source_ip'', ''10.0.0.1'')]))"

definition alarm_at :: "int \<Rightarrow> trap_event" where
  "alarm_at t = sample_event\<lparr>ev_received_at := t, ev_raw_bytes := [7]\<rparr>"

definition clear_at :: "int \<Rightarrow> trap_event" where
  "clear_at t = sample_event\<lparr>ev_received_at := t, ev_raw_bytes := [8], ev_trap_oid := ''1.3.6.1.4.1.8'',
     ev_fields := Some [''source_ip'' \<mapsto> ''10.0.0.1'', ''trap_oid'' \<mapsto> ''1.3.6.1.4.1.8'', ''varbind.1.2'' \<mapsto> ''5'']\<rparr>"

lemmas relay_sample_defs = sample_alarm_def sample_rs_def alarm_at_def clear_at_def sample_event_def zero_event_def sample_config_def

lemma hex_encode_nonempty: "b \<noteq> [] \<Longrightarrow> hex_encode b \<noteq> []"
  by (cases b) (simp_all add: hex_encode_def hex_byte_def)

lemma key_payload_nonempty: "bytes_of_str (key_payload items) \<noteq> []"
  by (simp add: key_payload_def bytes_of_str_def)

lemma sample_key:
  assumes "ResolveField e ''source_ip'' = ''10.0.0.1''"
  shows "\<exists>key. BuildDedupKey sample_env e [''source_ip''] = Inr key \<and> complete_key key \<and> dk_hash key = sample_hash"
  using assms hex_encode_nonempty [OF key_payload_nonempty]
  by (simp add: BuildDedupKey_eq key_complete_def complete_key_def sample_hash_def sample_env_def Let_def)

lemma sample_fields:
  "ResolveField (alarm_at t) ''source_ip'' = ''10.0.0.1''" "ResolveField (alarm_at t) ''trap_oid'' = ''1.3.6.1.4.1.7''"
  "ResolveField (clear_at t) ''source_ip'' = ''10.0.0.1''" "ResolveField (clear_at t) ''trap_oid'' = ''1.3.6.1.4.1.8''"
  by (simp_all add: relay_sample_defs ResolveField_def)

lemma Matches_trap_oid:
  assumes "plain_oid oid"
  shows "Matches W e \<lparr>ms_raw = [(''trap_oid'', YStr oid)]\<rparr> = Inr (Normalize (ResolveField e ''trap_oid'') = oid)"
  using assms by (auto simp: Matches_def grouped_def yget_def norm_for_def isOIDField_def)

lemma sample_plain: "plain_oid ''1.3.6.1.4.1.7''" "plain_oid ''1.3.6.1.4.1.8''"
  by (simp_all add: plain_oid_def oid_char_def is_digit_def)

lemma sample_kept: "kept W (sample_config\<lparr>ac_alarms := alarms\<rparr>) e"
  by (simp add: kept_def evaluateFilters_def sample_config_def)

lemma sample_raises: "raises sample_env (rs_cfg sample_rs) (alarm_at t) sample_alarm sample_hash"
  using sample_kept sample_key [OF sample_fields(1)]
  by (simp add: raises_def sample_rs_def clear_verdict_def sample_alarm_def Matches_trap_oid sample_plain sample_fields
      matchAlarm_def)

lemma sample_closes: "closes sample_env (rs_cfg sample_rs) (clear_at t) (''link'', sample_hash)"
proof -
  obtain key where "BuildDedupKey sample_env (clear_at t) [''source_ip''] = Inr key" "complete_key key" "dk_hash key = sample_hash"
    using sample_key [OF sample_fields(3)] by blast
  then have "clear_verdict sample_env (clear_at t) sample_alarm = (Some True, Some (''link'', sample_hash))"
    by (simp add: clear_verdict_def sample_alarm_def Matches_trap_oid sample_plain sample_fields check_clear_regex_def
        clear_key_fields_def clear_key_event_def dedupKeyTrapOID_def)
  then show ?thesis
    using sample_kept by (intro closesI [where pre = "[]" and a = sample_alarm and post = "[]"]) (simp_all add: sample_rs_def)
qed

text \<open>
  The first filter rule that matches decides: when it drops, the event is neither sent nor stored,
  no clear rule is applied and no alert line is written; the result names the rule.
\<close>

lemma filter_drops:
  assumes "fl_rules (ac_filters (rs_cfg st)) = pre @ r # post"
    and "\<forall>p \<in> set pre. Matches W e (fr_match p) = Inr False" "Matches W e (fr_match r) = Inr True"
    and "fr_action r \<in> {[], ''drop''}"
  shows "HandleEvent W send (Some st) (start_work s e) =
    ((\<lparr>oc_accepted = False, oc_forwarded = False, oc_reason = ''filtered'', oc_rule_id = fr_id r\<rparr>, None),
     (start_work s e)\<lparr>wk_out := [Log ''INFO'' ''trap_filtered'' (event_attrs (fr_id r) e)]\<rparr>)"
  using assms(4) filter_rules_first [OF assms(2,3), of post]
  by (auto simp: HandleEvent_def evaluateFilters_def assms(1) emit_def)

definition sample_filter :: filter_rule_config where
  "sample_filter = \<lparr>fr_id = ''noise'', fr_action = [], fr_match = \<lparr>ms_raw = []\<rparr>\<rparr>"

lemma filter_drops_witness:
  "fst (fst (HandleEvent sample_env (\<lambda>_ _. None)
     (Some (sample_rs\<lparr>rs_cfg := sample_config\<lparr>ac_filters := \<lparr>fl_default_action = ''forward'', fl_rules = [sample_filter]\<rparr>\<rparr>\<rparr>))
     (start_work (NewStore 2) (alarm_at 0)))) =
   \<lparr>oc_accepted = False, oc_forwarded = False, oc_reason = ''filtered'', oc_rule_id = ''noise''\<rparr>"
proof -
  let ?st = "sample_rs\<lparr>rs_cfg := sample_config\<lparr>ac_filters := \<lparr>fl_default_action = ''forward'', fl_rules = [sample_filter]\<rparr>\<rparr>\<rparr>"
  have "Matches sample_env (alarm_at 0) (fr_match sample_filter) = Inr True"
    by (simp add: Matches_def sample_filter_def)
  then show ?thesis
    using filter_drops [of ?st "[]" sample_filter "[]" sample_env "alarm_at 0"]
    by (simp add: sample_filter_def)
qed

text \<open>
  C3. The engine sends the received datagram itself, once or not at all, and writes at most one
  alert line for it, whatever the configuration, the library and the store.
\<close>

lemma engine_forwards_datagram:
  assumes "Parse (Decode lib) en now data ip port = Inr e" "en_state en = Some st"
  shows "sends (fst (handle_one W send st s e)) \<in> {[], [(data, send (rs_forwarder st) data)]} \<and>
    alerts (fst (handle_one W send st s e)) \<le> 1"
  using assms by (rule gosnmp.forwards_datagram)

lemma engine_forwards_datagram_witness:
  "\<exists>d e. Parse (Decode sample_lib) (New_engine sample_config [sample_target] (Some d) sample_logger None) 5 sample_trap ''10.0.0.1'' 162 = Inr e \<and>
     sends (fst (handle_one sample_env (\<lambda>_ _. None) 
         \<lparr>rs_cfg = sample_config, rs_forwarder = [sample_target], rs_decoder = Some d, rs_logger = sample_logger, rs_alerts = None\<rparr>
       (NewStore 2) e)) \<in> {[], [(sample_trap, None)]}"
proof -
  let ?d = "\<lparr>dec_g = Some None, dec_cfg = Some sample_config\<rparr>"
  have "Decode sample_lib ?d 5 sample_trap ''10.0.0.1'' 162 = Inr sample_parsed"
    using ParseTrap_sample by (simp add: Decode_def sample_lib_def sample_config_def) (simp add: sample_trap_def)
  then have "Parse (Decode sample_lib) (New_engine sample_config [sample_target] (Some ?d) sample_logger None) 5 sample_trap ''10.0.0.1'' 162 = Inr sample_parsed"
    by (simp add: Parse_def New_engine_def)
  then show ?thesis
    using engine_forwards_datagram [of sample_lib "New_engine sample_config [sample_target] (Some ?d) sample_logger None" 5 sample_trap "''10.0.0.1''" 162
        sample_parsed "\<lparr>rs_cfg = sample_config, rs_forwarder = [sample_target], rs_decoder = Some ?d, rs_logger = sample_logger, rs_alerts = None\<rparr>" sample_env "\<lambda>_ _. None" "NewStore 2"]
    by (intro exI [of _ ?d] exI [of _ sample_parsed]) (simp add: New_engine_def)
qed

text \<open>
  C1. The engine implements the abstract relay: over any sequence of events that the store has room
  for, it sends exactly the events that the map of open windows lets through, and its store
  represents that map at the end.
\<close>

lemma engine_refines_relay:
  assumes "limit \<le> 0 \<or> int (length es) \<le> limit" "handle_all W send st (NewStore limit) es = (outs, s')"
  shows "spec_all W (rs_cfg st) Map.empty es = (map (\<lambda>out. sends out \<noteq> []) outs, windows s')"
proof -
  have "windows (NewStore limit) = Map.empty" by (simp add: windows_def lookup_def NewStore_def fun_eq_iff)
  with handle_all_refines [OF inv_NewStore _ assms(2)] assms(1) show ?thesis by (simp add: NewStore_def)
qed

lemma engine_refines_relay_witness:
  "fst (spec_all sample_env (rs_cfg sample_rs) Map.empty [alarm_at 0, alarm_at 1, clear_at 2]) =
     map (\<lambda>out. sends out \<noteq> [])
       (fst (handle_all sample_env (\<lambda>_ _. None) sample_rs (NewStore 0) [alarm_at 0, alarm_at 1, clear_at 2]))"
proof -
  obtain outs s' where h: "handle_all sample_env (\<lambda>_ _. None) sample_rs (NewStore 0) [alarm_at 0, alarm_at 1, clear_at 2] = (outs, s')"
    by fastforce
  have "(0::int) \<le> 0 \<or> int (length [alarm_at 0, alarm_at 1, clear_at 2]) \<le> 0" by simp
  from engine_refines_relay [OF this h] show ?thesis by (simp only: h fst_conv)
qed


lemma sample_room: "has_room (NewStore 0)" "has_room (snd (handle_one sample_env send sample_rs (NewStore 0) e))"
proof -
  obtain res w where h: "HandleEvent sample_env send (Some sample_rs) (start_work (NewStore 0) e) = (res, w)" by fastforce
  have "snd (handle_one sample_env send sample_rs (NewStore 0) e) = wk_store w" by (simp add: handle_one_def h)
  moreover have "st_limit (wk_store w) = st_limit (NewStore 0)" by (rule HandleEvent_out(4) [OF h])
  ultimately show "has_room (snd (handle_one sample_env send sample_rs (NewStore 0) e))"
    by (simp add: has_room_def) (simp add: NewStore_def)
qed (simp add: has_room_def NewStore_def)

lemma sample_window: "windows (NewStore 0) = Map.empty"
  by (simp add: windows_def lookup_def NewStore_def fun_eq_iff)

lemma sample_ttl: "ttl_duration 60 = 60000000000"
  by (simp add: ttl_duration_exact max_ttl_seconds_def)

lemma sample_raised_key: "raised_key sample_env (rs_cfg sample_rs) (alarm_at t) = Some (''link'', sample_hash)"
  using sample_raises [of t] by (auto simp: raises_def raised_key_def sample_alarm_def)

lemma sample_leaves: "leaves sample_env (rs_cfg sample_rs) (''link'', sample_hash) (0, 60, False) (alarm_at 1)"
  using sample_raises [of 1]
  by (simp add: leaves_def raises_def open_window_def sample_ttl) (simp add: alarm_at_def)




text \<open>
  The state of an alarm is stored before it is sent and stays when sending fails: the alarm that could
  not be forwarded and a repetition in its window are lost.
\<close>

lemma failed_send_suppresses:
  assumes "raises W (rs_cfg st) e1 alarm hash" "raises W (rs_cfg st) e2 alarm hash"
    and "\<not> open_window (ev_received_at e1) (windows s (al_id alarm, hash))" "has_room s"
    and "send1 (rs_forwarder st) (ev_raw_bytes e1) = Some er"
    and "ev_received_at e2 < ev_received_at e1 + ttl_duration (dd_ttl_seconds (al_dedup alarm))"
  shows "sends (fst (handle_one W send1 st s e1)) = [(ev_raw_bytes e1, Some er)] \<and>
    sends (fst (handle_one W send2 st (snd (handle_one W send1 st s e1)) e2)) = []"
  using assms
  by (simp add: handle_one_sends handle_one_windows spec_step_raises [OF assms(1)] spec_step_raises [OF assms(2)])
     (simp add: open_window_def)

text \<open>A second alarm whose clear rule has a regular expression that the clear trap does not match.\<close>

definition picky_alarm :: alarm_rule_config where
  "picky_alarm =
     \<lparr>al_id = ''other'', al_match = \<lparr>ms_raw = [(''trap_oid'', YStr ''1.3.6.1.4.1.7'')]\<rparr>,
      al_dedup = \<lparr>dd_ttl_seconds = 60, dd_key_fields = [''source_ip''], dd_hold_until_clear = False,
        dd_clear = Some \<lparr>dc_match = \<lparr>ms_raw = [(''trap_oid'', YStr ''1.3.6.1.4.1.8'')]\<rparr>, dc_key_fields = [],
          dc_varbind_oid = ''1.2'', dc_regex = ''up''\<rparr>\<rparr>\<rparr>"

definition broad_alarm :: alarm_rule_config where
  "broad_alarm = sample_alarm\<lparr>al_match := \<lparr>ms_raw = [(''source_ip'', YStr ''10.0.0.1'')]\<rparr>\<rparr>"

text \<open>
  A clear rule that does not apply revokes an earlier one that did: with the second alarm
  configured behind the first, the trap that cleared the first alarm is treated as an alarm again
  and reopens the window it has just closed.
\<close>

lemma later_rule_revokes_clear:
  "windows (snd (handle_one sample_env (\<lambda>_ _. None)
      (sample_rs\<lparr>rs_cfg := sample_config\<lparr>ac_alarms := [broad_alarm]\<rparr>\<rparr>) (NewStore 0) (clear_at 5)))
      (''link'', sample_hash) = None \<and>
   windows (snd (handle_one sample_env (\<lambda>_ _. None)
      (sample_rs\<lparr>rs_cfg := sample_config\<lparr>ac_alarms := [broad_alarm, picky_alarm]\<rparr>\<rparr>) (NewStore 0) (clear_at 5)))
      (''link'', sample_hash) = Some (5, 60, False)"
proof -
  obtain key where key: "BuildDedupKey sample_env (clear_at 5) [''source_ip''] = Inr key" "complete_key key"
    "dk_hash key = sample_hash" using sample_key [OF sample_fields(3)] by blast
  have v1: "clear_verdict sample_env (clear_at 5) broad_alarm = (Some True, Some (''link'', sample_hash))"
    using key by (simp add: clear_verdict_def broad_alarm_def sample_alarm_def Matches_trap_oid sample_plain sample_fields
        check_clear_regex_def clear_key_fields_def clear_key_event_def dedupKeyTrapOID_def)
  have "check_clear_regex sample_env (clear_at 5)
      \<lparr>dc_match = \<lparr>ms_raw = [(''trap_oid'', YStr ''1.3.6.1.4.1.8'')]\<rparr>, dc_key_fields = [], dc_varbind_oid = ''1.2'', dc_regex = ''up''\<rparr> = RegexMiss"
    by (simp add: check_clear_regex_def sample_env_def str_get_def relay_sample_defs)
  then have v2: "clear_verdict sample_env (clear_at 5) picky_alarm = (Some False, None)"
    by (simp add: clear_verdict_def picky_alarm_def Matches_trap_oid sample_plain sample_fields)
  have m: "Matches sample_env (clear_at 5) \<lparr>ms_raw = [(''source_ip'', YStr ''10.0.0.1'')]\<rparr> = Inr True"
    by (simp add: Matches_def grouped_def yget_def norm_for_def isOIDField_def sample_fields)
  have f: "evaluateFilters W (sample_config\<lparr>ac_alarms := alarms\<rparr>) e = Inr ([], False)" for W alarms e
    by (simp add: evaluateFilters_def sample_config_def)
  have t: "ev_received_at (clear_at 5) = 5" by (simp add: clear_at_def)
  have b: "al_id broad_alarm = ''link''" "al_match broad_alarm = \<lparr>ms_raw = [(''source_ip'', YStr ''10.0.0.1'')]\<rparr>"
    "dd_key_fields (al_dedup broad_alarm) = [''source_ip'']" "dd_ttl_seconds (al_dedup broad_alarm) = 60"
    "dd_hold_until_clear (al_dedup broad_alarm) = False"
    by (simp_all add: broad_alarm_def sample_alarm_def)
  show ?thesis
    using key
    by (simp add: handle_one_sim(2) [OF sample_room(1)] spec_step_def f spec_clear_round_def v1 v2 matchAlarm_def m
        spec_alarm_def sample_window open_window_def t b)
qed

text \<open>The sample alarm with the trap OID as the configuration may spell it and as a key field.\<close>

definition keyed_alarm :: "string \<Rightarrow> alarm_rule_config" where
  "keyed_alarm oid = sample_alarm\<lparr>al_match := \<lparr>ms_raw = [(''trap_oid'', YStr oid)]\<rparr>,
     al_dedup := (al_dedup sample_alarm)\<lparr>dd_key_fields := [''source_ip'', ''trap_oid'']\<rparr>\<rparr>"

definition oid_hash :: "string \<Rightarrow> string" where
  "oid_hash oid = hex_encode (bytes_of_str (key_payload [(''source_ip'', ''10.0.0.1''), (''trap_oid'', oid)]))"

lemma keyed_alarm_simps [simp]:
  "al_id (keyed_alarm oid) = ''link''" "al_match (keyed_alarm oid) = \<lparr>ms_raw = [(''trap_oid'', YStr oid)]\<rparr>"
  "dd_key_fields (al_dedup (keyed_alarm oid)) = [''source_ip'', ''trap_oid'']"
  "dd_ttl_seconds (al_dedup (keyed_alarm oid)) = 60" "dd_hold_until_clear (al_dedup (keyed_alarm oid)) = False"
  "dd_clear (al_dedup (keyed_alarm oid)) = Some \<lparr>dc_match = \<lparr>ms_raw = [(''trap_oid'', YStr ''1.3.6.1.4.1.8'')]\<rparr>,
     dc_key_fields = [], dc_varbind_oid = [], dc_regex = []\<rparr>"
  by (simp_all add: keyed_alarm_def sample_alarm_def)

lemma two_field_key:
  assumes "ResolveField e ''source_ip'' = ''10.0.0.1''" "ResolveField e ''trap_oid'' = oid" "oid \<noteq> []"
  shows "\<exists>key. BuildDedupKey sample_env e [''source_ip'', ''trap_oid''] = Inr key \<and> complete_key key \<and> dk_hash key = oid_hash oid"
  using assms hex_encode_nonempty [OF key_payload_nonempty]
  by (simp add: BuildDedupKey_eq key_complete_def complete_key_def oid_hash_def sample_env_def Let_def)

lemma keyed_clear_verdict:
  assumes "oid \<noteq> []"
  shows "clear_verdict sample_env (clear_at t) (keyed_alarm oid) = (Some True, Some (''link'', oid_hash oid))"
proof -
  let ?e = "cloneEventWithTrapOID (clear_at t) oid"
  have "ResolveField ?e ''source_ip'' = ''10.0.0.1''" "ResolveField ?e ''trap_oid'' = oid"
    using assms by (simp_all add: cloneEventWithTrapOID_def relay_sample_defs ResolveField_def)
  from two_field_key [OF this assms] obtain key where
    "BuildDedupKey sample_env ?e [''source_ip'', ''trap_oid''] = Inr key" "complete_key key" "dk_hash key = oid_hash oid"
    by blast
  then show ?thesis
    by (simp add: clear_verdict_def Matches_trap_oid sample_plain sample_fields check_clear_regex_def
        clear_key_fields_def clear_key_event_def dedupKeyTrapOID_def staticMatchFieldValue_def)
qed

definition keyed_rs :: "string \<Rightarrow> nat runtime_state" where
  "keyed_rs oid = sample_rs\<lparr>rs_cfg := sample_config\<lparr>ac_alarms := [keyed_alarm oid]\<rparr>\<rparr>"

lemma keyed_room: "has_room (snd (handle_one sample_env send (keyed_rs oid) (NewStore 0) e))"
proof -
  obtain res w where h: "HandleEvent sample_env send (Some (keyed_rs oid)) (start_work (NewStore 0) e) = (res, w)" by fastforce
  have "snd (handle_one sample_env send (keyed_rs oid) (NewStore 0) e) = wk_store w" by (simp add: handle_one_def h)
  moreover have "st_limit (wk_store w) = st_limit (NewStore 0)" by (rule HandleEvent_out(4) [OF h])
  ultimately show ?thesis by (simp add: has_room_def) (simp add: NewStore_def)
qed

lemma keyed_raises:
  assumes "Normalize oid = ''1.3.6.1.4.1.7''"
  shows "raises sample_env (rs_cfg (keyed_rs oid)) (alarm_at t) (keyed_alarm oid) (oid_hash ''1.3.6.1.4.1.7'')"
proof -
  have "Matches sample_env (alarm_at t) \<lparr>ms_raw = [(''trap_oid'', YStr oid)]\<rparr> = Inr True"
    using assms by (simp add: Matches_def grouped_def yget_def norm_for_def isOIDField_def sample_fields sample_plain)
  with two_field_key [OF sample_fields(1,2)] sample_kept show ?thesis
    by (simp add: raises_def keyed_rs_def clear_verdict_def Matches_trap_oid sample_plain sample_fields matchAlarm_def)
qed

lemma keyed_closes:
  "oid \<noteq> [] \<Longrightarrow> closes sample_env (rs_cfg (keyed_rs oid)) (clear_at t) (''link'', oid_hash oid)"
  using sample_kept by (intro closesI [where pre = "[]" and a = "keyed_alarm oid" and post = "[]"]) (simp_all add: keyed_rs_def keyed_clear_verdict)

lemma keyed_clear_step:
  assumes "oid \<noteq> []"
  shows "snd (spec_step sample_env (rs_cfg (keyed_rs oid)) (clear_at t) m) = m((''link'', oid_hash oid) := None)"
proof -
  have "evaluateFilters W (sample_config\<lparr>ac_alarms := alarms\<rparr>) e = Inr ([], False)" for W alarms e
    by (simp add: evaluateFilters_def sample_config_def)
  then show ?thesis
    using assms by (simp add: spec_step_def keyed_rs_def spec_clear_round_def keyed_clear_verdict)
qed

lemma oid_hash_dotted: "oid_hash ''.1.3.6.1.4.1.7'' \<noteq> oid_hash ''1.3.6.1.4.1.7''"
proof
  assume "oid_hash ''.1.3.6.1.4.1.7'' = oid_hash ''1.3.6.1.4.1.7''"
  then have "key_payload [(''source_ip'', ''10.0.0.1''), (''trap_oid'', ''.1.3.6.1.4.1.7'')] =
      key_payload [(''source_ip'', ''10.0.0.1''), (''trap_oid'', ''1.3.6.1.4.1.7'')]"
    unfolding oid_hash_def hex_encode_inject by (metis str_of_bytes_of_str)
  then have "[(''source_ip'', ''10.0.0.1''), (''trap_oid'', ''.1.3.6.1.4.1.7'')] =
      [(''source_ip'', ''10.0.0.1''), (''trap_oid'', ''1.3.6.1.4.1.7'')]"
    by (rule key_payload_inject [rotated 4]) (auto simp: valid_items_def is_ascii_def intro!: utf8_valid_ascii)
  then show False by simp
qed

text \<open>
  The key of a clear trap uses the alarm's trap OID as the configuration spells it: with the trap
  OID among the key fields, a clear trap closes the window of its alarm when the OID is written
  plainly and never when it is written with a leading dot, although both spellings match.
\<close>

lemma dotted_trap_oid_not_cleared:
  "windows (snd (handle_one sample_env (\<lambda>_ _. None) (keyed_rs ''1.3.6.1.4.1.7'')
     (snd (handle_one sample_env (\<lambda>_ _. None) (keyed_rs ''1.3.6.1.4.1.7'') (NewStore 0) (alarm_at 0))) (clear_at 1)))
     (''link'', oid_hash ''1.3.6.1.4.1.7'') = None \<and>
   windows (snd (handle_one sample_env (\<lambda>_ _. None) (keyed_rs ''.1.3.6.1.4.1.7'')
     (snd (handle_one sample_env (\<lambda>_ _. None) (keyed_rs ''.1.3.6.1.4.1.7'') (NewStore 0) (alarm_at 0))) (clear_at 1)))
     (''link'', oid_hash ''1.3.6.1.4.1.7'') = Some (0, 60, False)"
proof -
  have n: "Normalize ''1.3.6.1.4.1.7'' = ''1.3.6.1.4.1.7''" "Normalize ''.1.3.6.1.4.1.7'' = ''1.3.6.1.4.1.7''"
    using sample_plain(1) by simp_all
  have t: "ev_received_at (alarm_at 0) = 0" by (simp add: alarm_at_def)
  show ?thesis
    using oid_hash_dotted
    by (simp add: handle_one_sim(2) keyed_room sample_room(1) keyed_clear_step spec_step_raises [OF keyed_raises [OF n(1)]]
        spec_step_raises [OF keyed_raises [OF n(2)]] sample_window open_window_def t)
qed

end
