(* ===== verification/Event_Handler.thy ===== *)
theory Event_Handler
  imports Relay_Engine
begin

text \<open>
  \<open>Engine.HandleEvent\<close> in the steps in which other workers can interleave with it. The handler loads
  the run-time state once; after that the dedup store is all it shares, each of whose operations holds
  the store's mutex, and the forwarder. So a step here makes at most one store operation or one call of
  the forwarder, together with the local computation next to it, and the store may change between two
  steps: other workers can run between the \<open>Put\<close> of a fresh alarm and its \<open>Send\<close>. Run without
  interruption, the steps are \<open>HandleEvent\<close>; the server of \<open>Relay_Server\<close> interleaves those of its workers.
\<close>

section \<open>The steps\<close>

text \<open>
  Where the handler stands: with the clear rules still to apply and the flag \<open>matchedClear\<close>, before
  \<open>Get\<close>, before \<open>Touch\<close>, before \<open>Put\<close>, before the \<open>Send\<close> of a stored alarm, or with its result.
\<close>

datatype handler_pc =
    Rounds bool "alarm_rule_config list"
  | Looking alarm_rule_config dedup_key
  | Touching alarm_rule_config dedup_key
  | Storing alarm_rule_config dedup_key
  | Sending alarm_rule_config dedup_key
  | Answer "outcome \<times> err option"

fun is_answer :: "handler_pc \<Rightarrow> bool" where
  "is_answer (Answer res) = True"
| "is_answer _ = False"

definition filtered_outcome :: "string \<Rightarrow> outcome" where
  "filtered_outcome rule_id =
     \<lparr>oc_accepted = False, oc_forwarded = False, oc_reason = ''filtered'', oc_rule_id = rule_id\<rparr>"

definition duplicate_outcome :: "alarm_rule_config \<Rightarrow> outcome" where
  "duplicate_outcome alarm =
     \<lparr>oc_accepted = False, oc_forwarded = False, oc_reason = ''duplicate'', oc_rule_id = al_id alarm\<rparr>"

text \<open>Up to the first clear rule.\<close>

definition handler_start :: "match_env \<Rightarrow> 'd runtime_state \<Rightarrow> work \<Rightarrow> handler_pc \<times> work" where
  "handler_start W st w =
     (case evaluateFilters W (rs_cfg st) (wk_event w) of
        Inl er \<Rightarrow> (Answer (zero_outcome, Some er), w)
      | Inr (rule_id, matched) \<Rightarrow>
          if matched
          then (Answer (filtered_outcome rule_id, None), emit (Log ''INFO'' ''trap_filtered'' (event_attrs rule_id (wk_event w))) w)
          else (Rounds False (ac_alarms (rs_cfg st)), w))"

definition answer :: "(outcome \<times> err option) \<times> work \<Rightarrow> handler_pc \<times> work" where
  "answer r = (Answer (fst r), snd r)"

text \<open>After the clear rules: forward, or find the alarm and its key.\<close>

definition after_rounds ::
    "match_env \<Rightarrow> sender \<Rightarrow> 'd runtime_state \<Rightarrow> bool \<Rightarrow> work \<Rightarrow> handler_pc \<times> work" where
  "after_rounds W send st cleared w =
     (if cleared then answer (forwardPassThrough send st w)
      else case matchAlarm W (rs_cfg st) (wk_event w) of
          Inl er \<Rightarrow> (Answer (zero_outcome, Some er), w)
        | Inr None \<Rightarrow> answer (forwardPassThrough send st w)
        | Inr (Some alarm) \<Rightarrow>
           (case BuildDedupKey W (wk_event w) (dd_key_fields (al_dedup alarm)) of
              Inl er \<Rightarrow> (Answer (zero_outcome, Some er), w)
            | Inr key \<Rightarrow>
                if dk_missing_fields key \<noteq> [] \<or> dk_hash key = [] then answer (forward_undeduped send st alarm key w)
                else (Looking alarm key, w)))"

definition duplicate_log :: "alarm_rule_config \<Rightarrow> dedup_key \<Rightarrow> trap_event \<Rightarrow> dedup_state \<Rightarrow> emission" where
  "duplicate_log alarm key e ds =
     Log ''INFO'' ''trap_deduplicated''
       ([(''rule'', LStr (al_id alarm)), (''key'', LStr (dk_repr key)), (''source'', LStr (source_text e)),
         (''first_seen'', LTime (ds_first_seen_at ds)),
         (''first_source'', LStr (source_text (ds_first_event ds))),
         (''first_trap_oid'', LStr (fallback (ev_trap_oid (ds_first_event ds)))),
         (''suppressed_count'', LInt (ds_suppressed_count ds))] @ dedupLogFields (al_dedup alarm))"

fun handler_step ::
    "match_env \<Rightarrow> sender \<Rightarrow> 'd runtime_state \<Rightarrow> handler_pc \<times> work \<Rightarrow> handler_pc \<times> work" where
  "handler_step W send st (Rounds flag [], w) = after_rounds W send st flag w"
| "handler_step W send st (Rounds flag (alarm # alarms), w) =
     (let (flag', w') = clear_round W st (flag, w) alarm in (Rounds flag' alarms, w'))"
| "handler_step W send st (Looking alarm key, w) =
     (let (found, store) = Store_Get (wk_store w) (al_id alarm) (dk_hash key) (ev_received_at (wk_event w)) in
      (if found = None then Storing alarm key else Touching alarm key, w\<lparr>wk_store := store\<rparr>))"
| "handler_step W send st (Touching alarm key, w) =
     (let (touched, store) = Store_Touch (wk_store w) (al_id alarm) (dk_hash key) (wk_event w);
          w1 = w\<lparr>wk_store := store\<rparr> in
      case touched of
        None \<Rightarrow> (Storing alarm key, w1)
      | Some ds \<Rightarrow> (Answer (duplicate_outcome alarm, None), emit (duplicate_log alarm key (wk_event w) ds) w1))"
| "handler_step W send st (Storing alarm key, w) = (Sending alarm key, store_alarm alarm key w)"
| "handler_step W send st (Sending alarm key, w) = answer (send_alarm send st alarm key w)"
| "handler_step W send st (Answer res, w) = (Answer res, w)"

lemmas handler_run [run_simps] =
  handler_start_def answer_def after_rounds_def duplicate_log_def filtered_outcome_def duplicate_outcome_def

text \<open>A bound on the steps to come.\<close>

fun steps_left :: "handler_pc \<Rightarrow> nat" where
  "steps_left (Rounds flag alarms) = length alarms + 5"
| "steps_left (Looking alarm key) = 4"
| "steps_left (Touching alarm key) = 3"
| "steps_left (Storing alarm key) = 2"
| "steps_left (Sending alarm key) = 1"
| "steps_left (Answer res) = 0"

lemma steps_left_answer [simp]: "steps_left pc = 0 \<longleftrightarrow> is_answer pc"
  by (cases pc) simp_all

lemma after_rounds_left: "steps_left (fst (after_rounds W send st flag w)) < 5"
  by (auto simp: after_rounds_def answer_def split: sum.splits option.splits)

lemma handler_step_left:
  "\<not> is_answer pc \<Longrightarrow> steps_left (fst (handler_step W send st (pc, w))) < steps_left pc"
  using after_rounds_left [of W send st _ w]
  by (cases "(W, send, st, pc, w)" rule: handler_step.cases)
     (auto simp: answer_def Let_def split: prod.splits option.splits)

lemma handler_start_left: "steps_left (fst (handler_start W st w)) \<le> length (ac_alarms (rs_cfg st)) + 5"
  by (auto simp: handler_start_def split: sum.splits)

section \<open>Uninterrupted\<close>

text \<open>What the handler returns from where it stands when nobody else touches the store.\<close>

fun meaning ::
    "match_env \<Rightarrow> sender \<Rightarrow> 'd runtime_state \<Rightarrow> handler_pc \<times> work \<Rightarrow> (outcome \<times> err option) \<times> work" where
  "meaning W send st (Rounds flag alarms, w) =
     (let (cleared, w1) = foldl (clear_round W st) (flag, w) alarms in
      if cleared then forwardPassThrough send st w1
      else case matchAlarm W (rs_cfg st) (wk_event w1) of
          Inl er \<Rightarrow> ((zero_outcome, Some er), w1)
        | Inr None \<Rightarrow> forwardPassThrough send st w1
        | Inr (Some alarm) \<Rightarrow> handle_alarm_rule W send st alarm w1)"
| "meaning W send st (Looking alarm key, w) = handle_alarm send st alarm key w"
| "meaning W send st (Touching alarm key, w) =
     (let (touched, store) = Store_Touch (wk_store w) (al_id alarm) (dk_hash key) (wk_event w);
          w1 = w\<lparr>wk_store := store\<rparr> in
      case touched of
        None \<Rightarrow> forward_alarm send st alarm key w1
      | Some ds \<Rightarrow> ((duplicate_outcome alarm, None), emit (duplicate_log alarm key (wk_event w) ds) w1))"
| "meaning W send st (Storing alarm key, w) = forward_alarm send st alarm key w"
| "meaning W send st (Sending alarm key, w) = send_alarm send st alarm key w"
| "meaning W send st (Answer res, w) = (res, w)"

lemma meaning_answer [simp]: "meaning W send st (answer r) = r"
  by (simp add: answer_def)

lemma meaning_start: "meaning W send st (handler_start W st w) = HandleEvent W send (Some st) w"
  by (auto simp: handler_start_def HandleEvent_def handle_filtered_def applyAlarmClearRules_def filtered_outcome_def
      split: sum.splits prod.splits)

lemma meaning_step: "meaning W send st (handler_step W send st pw) = meaning W send st pw"
proof (cases "(W, send, st, pw)" rule: handler_step.cases)
  case (1 W' send' st' flag w)
  then show ?thesis
    by (auto simp: after_rounds_def handle_alarm_rule_def split: sum.splits option.splits)
next
  case (3 W' send' st' alarm key w)
  then show ?thesis
    by (auto simp: handle_alarm_def duplicate_outcome_def duplicate_log_def Let_def split: prod.splits option.splits)
qed (auto simp: forward_alarm_def Let_def split: prod.splits option.splits)

lemma handler_steps_done:
  "steps_left pc \<le> n \<Longrightarrow>
   (handler_step W send st ^^ n) (pc, w) =
     (Answer (fst (meaning W send st (pc, w))), snd (meaning W send st (pc, w)))"
proof (induction n arbitrary: pc w)
  case 0
  then show ?case by (cases pc) auto
next
  case (Suc n)
  obtain pc' w' where s: "handler_step W send st (pc, w) = (pc', w')" by fastforce
  have "steps_left pc' \<le> n"
  proof (cases "is_answer pc")
    case True
    with s show ?thesis by (cases pc) auto
  next
    case False
    from handler_step_left [OF this, of W send st w] s Suc.prems show ?thesis by simp
  qed
  from Suc.IH [OF this, of w'] s meaning_step [of W send st "(pc, w)"]
  show ?case by (simp add: funpow_swap1 del: funpow.simps) (simp add: funpow_Suc_right del: funpow.simps)
qed

lemma handler_uninterrupted:
  assumes "length (ac_alarms (rs_cfg st)) + 5 \<le> n"
  shows "(handler_step W send st ^^ n) (handler_start W st w) =
    (Answer (fst (HandleEvent W send (Some st) w)), snd (HandleEvent W send (Some st) w))"
proof -
  obtain pc w' where s: "handler_start W st w = (pc, w')" by fastforce
  with handler_start_left [of W st w] assms have "steps_left pc \<le> n" by simp
  from handler_steps_done [OF this, of W send st w'] s meaning_start [of W send st w] show ?thesis by simp
qed

section \<open>What a step does\<close>

text \<open>The results the handler can return: an error with nothing forwarded, or one of five reasons.\<close>

definition settled_result :: "outcome \<times> err option \<Rightarrow> bool" where
  "settled_result res \<longleftrightarrow>
     (case snd res of
        Some _ \<Rightarrow> \<not> oc_forwarded (fst res)
      | None \<Rightarrow> oc_reason (fst res) \<in> {''filtered'', ''duplicate'', ''pass-through'', ''alarm'', ''dedup_disabled''})"

lemma settled_zero [simp]: "settled_result (zero_outcome, Some er)"
  by (simp add: settled_result_def zero_outcome_def)

lemma settled_unsent [simp]:
  "settled_result (filtered_outcome rule_id, None)" "settled_result (duplicate_outcome alarm, None)"
  by (simp_all add: settled_result_def filtered_outcome_def duplicate_outcome_def)

lemma settled_forwards:
  "settled_result (fst (forwardPassThrough send st w))"
  "settled_result (fst (forward_undeduped send st alarm key w))"
  "settled_result (fst (send_alarm send st alarm key w))"
  by (simp_all add: settled_result_def forwardPassThrough_def forward_undeduped_def send_alarm_def Let_def split_beta
      split: option.splits)

lemma sends_unsent [simp]:
  "result_sends raw (zero_outcome, er) = []" "result_sends raw (filtered_outcome rule_id, er) = []"
  "result_sends raw (duplicate_outcome alarm, er) = []"
  by (simp_all add: result_sends_def zero_outcome_def filtered_outcome_def duplicate_outcome_def)

text \<open>
  The state of a handler in progress: it has sent nothing before its answer, and then what the answer
  says, which is one of the settled results.
\<close>

fun step_sends :: "bytes \<Rightarrow> handler_pc \<Rightarrow> (bytes \<times> err option) list" where
  "step_sends raw (Answer res) = result_sends raw res"
| "step_sends raw _ = []"

fun settled_pc :: "handler_pc \<Rightarrow> bool" where
  "settled_pc (Answer res) = settled_result res"
| "settled_pc _ = True"

definition handler_ok :: "handler_pc \<Rightarrow> work \<Rightarrow> bool" where
  "handler_ok pc w \<longleftrightarrow> settled_pc pc \<and> sends (wk_out w) = step_sends (ev_raw_bytes (wk_event w)) pc"

lemma answer_effect:
  assumes "answer r = (pc, w')" "\<And>res v. r = (res, v) \<Longrightarrow> effect st (result_sends raw res) w v"
  shows "effect st (step_sends raw pc) w w'"
  using assms by (cases r) (auto simp: answer_def)

lemma after_rounds_effect:
  assumes "after_rounds W send st flag w = (pc, w')"
  shows "effect st (step_sends (ev_raw_bytes (wk_event w)) pc) w w'"
  using assms
  by (auto simp: after_rounds_def split: if_splits sum.splits option.splits
      intro: answer_effect forwardPassThrough_effect forward_undeduped_effect)

lemma handler_start_effect:
  assumes "handler_start W st w = (pc, w')"
  shows "effect st (step_sends (ev_raw_bytes (wk_event w)) pc) w w' \<and> settled_pc pc"
  using assms by (auto simp: handler_start_def intro!: effect_rules split: if_splits sum.splits)

lemma kept_Get: "Store_Get s r h now = (found, s') \<Longrightarrow> (store_inv s \<longrightarrow> store_inv s') \<and> st_limit s' = st_limit s"
  using inv_Get [of s r h now] store_limits(2) [of s r h now] by simp

lemma kept_Touch: "Store_Touch s r h e = (touched, s') \<Longrightarrow> (store_inv s \<longrightarrow> store_inv s') \<and> st_limit s' = st_limit s"
  using inv_Touch [of s r h e] store_limits(3) [of s r h e] by simp

lemma handler_step_effect:
  assumes "handler_step W send st (pc, w) = (pc', w')" "\<not> is_answer pc"
  shows "effect st (step_sends (ev_raw_bytes (wk_event w)) pc') w w'"
  using assms
proof (cases "(W, send, st, pc, w)" rule: handler_step.cases)
  case (1 W' send' st' flag v)
  with assms after_rounds_effect show ?thesis by auto
next
  case (2 W' send' st' flag alarm alarms v)
  with assms clear_round_effect [of st w W flag alarm] show ?thesis by (auto split: prod.splits)
next
  case (3 W' send' st' alarm key v)
  then show ?thesis
    using assms
    by (cases "Store_Get (wk_store w) (al_id alarm) (dk_hash key) (ev_received_at (wk_event w))")
       (auto simp: Let_def intro!: effect_rules split: if_splits dest: kept_Get)
next
  case (4 W' send' st' alarm key v)
  then show ?thesis
    using assms
    by (cases "Store_Touch (wk_store w) (al_id alarm) (dk_hash key) (wk_event w)")
       (auto simp: Let_def duplicate_log_def intro!: effect_rules split: option.splits dest: kept_Touch)
next
  case (5 W' send' st' alarm key v)
  with assms store_alarm_effect show ?thesis by auto
next
  case (6 W' send' st' alarm key v)
  with assms show ?thesis by (auto intro: answer_effect send_alarm_effect)
qed auto

lemma handler_step_settled:
  assumes "handler_step W send st (pc, w) = (pc', w')" "\<not> is_answer pc"
  shows "settled_pc pc'"
  using assms
  by (cases "(W, send, st, pc, w)" rule: handler_step.cases)
     (auto simp: after_rounds_def answer_def Let_def settled_forwards
       split: if_splits sum.splits option.splits prod.splits)

lemma handler_start_settled: "handler_start W st w = (pc, w') \<Longrightarrow> settled_pc pc"
  using handler_start_effect [of W st w pc w'] by simp

lemma effect_sends: "effect st ss w w' \<Longrightarrow> sends (wk_out w') = sends (wk_out w) @ ss"
  by (auto simp: effect_def)

lemma effect_store: "effect st ss w w' \<Longrightarrow> store_inv (wk_store w) \<Longrightarrow> store_inv (wk_store w')"
  "effect st ss w w' \<Longrightarrow> st_limit (wk_store w') = st_limit (wk_store w)"
  by (simp_all add: effect_def)

lemma handler_start_ok:
  "handler_start W st (start_work s e) = (pc, w) \<Longrightarrow> handler_ok pc w \<and> ev_raw_bytes (wk_event w) = ev_raw_bytes e"
  using handler_start_effect [of W st "start_work s e" pc w] effect_sends [of st _ "start_work s e" w]
    effect_raw [of st _ "start_work s e" w]
  by (fastforce simp: handler_ok_def)

text \<open>The store may have been changed by others before the step.\<close>

lemma handler_step_ok:
  assumes "handler_step W send st (pc, w\<lparr>wk_store := s\<rparr>) = (pc', w')" "\<not> is_answer pc" "handler_ok pc w"
  shows "handler_ok pc' w'"
proof -
  have "sends (wk_out w) = []" using assms(2,3) by (cases pc) (auto simp: handler_ok_def)
  moreover note e = handler_step_effect [OF assms(1,2)]
  ultimately show ?thesis
    using effect_sends [OF e] effect_raw [OF e] handler_step_settled [OF assms(1,2)] by (simp add: handler_ok_def)
qed

lemma handler_step_frame:
  assumes "handler_step W send st (pc, w\<lparr>wk_store := s\<rparr>) = (pc', w')" "\<not> is_answer pc"
  shows "ev_raw_bytes (wk_event w') = ev_raw_bytes (wk_event w)" "store_inv s \<Longrightarrow> store_inv (wk_store w')"
    "st_limit (wk_store w') = st_limit s"
  using handler_step_effect [OF assms] by (auto dest: effect_raw effect_store)

end
