(* ===== verification/Transition_Systems.thy ===== *)
theory Transition_Systems
  imports Relay_Prelude
begin

text \<open>
  Runs of a labelled step relation, and the contracts by which the components with concurrent
  or long-lived state lift facts about one step to facts about runs: a predicate that every step
  keeps, and a quantity that only the labels account for. A predicate of the trace and the state, and a
  simulation by another step relation, are lifted the same way.
\<close>

inductive run :: "('s \<Rightarrow> 'l \<Rightarrow> 's \<Rightarrow> bool) \<Rightarrow> 's \<Rightarrow> 'l list \<Rightarrow> 's \<Rightarrow> bool" for step where
  run_nil: "run step s [] s"
| run_snoc: "run step s tr s' \<Longrightarrow> step s' l s'' \<Longrightarrow> run step s (tr @ [l]) s''"

inductive_cases run_nilE: "run step s [] s'"
inductive_cases run_snocE: "run step s (tr @ [l]) s'"

lemma run_one: "step s l s' \<Longrightarrow> run step s [l] s'"
  using run_snoc [OF run_nil, of step s l s'] by simp

lemma run_append: "run step s' tr' s'' \<Longrightarrow> run step s tr s' \<Longrightarrow> run step s (tr @ tr') s''"
  by (induction rule: run.induct) (auto intro: run_snoc simp flip: append_assoc)

lemma run_cons: "step s l s' \<Longrightarrow> run step s' tr s'' \<Longrightarrow> run step s (l # tr) s''"
  using run_append [OF _ run_one, of step s' tr s'' s l] by simp

text \<open>A predicate that every step with an admitted label keeps.\<close>

locale stable =
  fixes step :: "'s \<Rightarrow> 'l \<Rightarrow> 's \<Rightarrow> bool"
    and admits :: "'l \<Rightarrow> bool"
    and P :: "'s \<Rightarrow> bool"
  assumes step_stable: "step s l s' \<Longrightarrow> admits l \<Longrightarrow> P s \<Longrightarrow> P s'"
begin

lemma run_stable: "run step s tr s' \<Longrightarrow> \<forall>l \<in> set tr. admits l \<Longrightarrow> P s \<Longrightarrow> P s'"
  by (induction rule: run.induct) (auto intro: step_stable)

end

text \<open>A quantity of the state that grows and shrinks by what the labels say, from states that satisfy \<open>P\<close>.\<close>

locale conserved = stable step "\<lambda>_. True" P
  for step :: "'s \<Rightarrow> 'l \<Rightarrow> 's \<Rightarrow> bool" and P +
  fixes holds :: "'s \<Rightarrow> 'a :: comm_monoid_add"
    and gain :: "'l \<Rightarrow> 'a"
    and loss :: "'l \<Rightarrow> 'a"
  assumes step_conserved: "step s l s' \<Longrightarrow> P s \<Longrightarrow> holds s' + loss l = holds s + gain l"
begin

lemma run_conserved: "run step s tr s' \<Longrightarrow> P s \<Longrightarrow> holds s' + sum_list (map loss tr) = holds s + sum_list (map gain tr)"
proof (induction rule: run.induct)
  case (run_snoc s tr s1 l s2)
  then have inv: "P s1" using run_stable [of s tr s1] by simp
  have "holds s2 + sum_list (map loss (tr @ [l])) = (holds s2 + loss l) + sum_list (map loss tr)"
    by (simp add: ac_simps)
  also have "\<dots> = (holds s1 + sum_list (map loss tr)) + gain l"
    unfolding step_conserved [OF run_snoc(2) inv] by (simp add: ac_simps)
  also have "\<dots> = holds s + sum_list (map gain (tr @ [l]))"
    unfolding run_snoc.IH [OF run_snoc.prems] by (simp add: ac_simps)
  finally show ?case .
qed simp

end

text \<open>A predicate of the labels so far and the state.\<close>

locale traced =
  fixes step :: "'s \<Rightarrow> 'l \<Rightarrow> 's \<Rightarrow> bool"
    and I :: "'l list \<Rightarrow> 's \<Rightarrow> bool"
  assumes step_traced: "step s l s' \<Longrightarrow> I tr s \<Longrightarrow> I (tr @ [l]) s'"
begin

lemma run_traced: "run step s tr s' \<Longrightarrow> I tr0 s \<Longrightarrow> I (tr0 @ tr) s'"
proof (induction rule: run.induct)
  case (run_snoc s tr s1 l s2)
  from step_traced [OF run_snoc(2) run_snoc.IH [OF run_snoc.prems]] show ?case by simp
qed simp

end

text \<open>
  A simulation of \<open>step\<close> by \<open>spec\<close>, which makes the visible steps of \<open>step\<close> and only those. It is
  needed for the runs that \<open>admits\<close> holds of, together with all their prefixes.
\<close>

locale simulation =
  fixes step :: "'s \<Rightarrow> 'l \<Rightarrow> 's \<Rightarrow> bool"
    and spec :: "'a \<Rightarrow> 'l \<Rightarrow> 'a \<Rightarrow> bool"
    and visible :: "'l \<Rightarrow> bool"
    and admits :: "'l list \<Rightarrow> bool"
    and R :: "'l list \<Rightarrow> 's \<Rightarrow> 'a \<Rightarrow> bool"
  assumes admits_prefix: "admits (tr @ [l]) \<Longrightarrow> admits tr"
    and step_simulated: "step s l s' \<Longrightarrow> R tr s a \<Longrightarrow> admits (tr @ [l]) \<Longrightarrow>
      \<exists>a'. (if visible l then spec a l a' else a' = a) \<and> R (tr @ [l]) s' a'"
begin

lemma run_simulated:
  "run step s tr s' \<Longrightarrow> R [] s a \<Longrightarrow> admits tr \<Longrightarrow> \<exists>a'. run spec a (filter visible tr) a' \<and> R tr s' a'"
proof (induction rule: run.induct)
  case (run_nil s)
  with run.run_nil [of spec a] show ?case by auto
next
  case (run_snoc s tr s1 l s2)
  from run_snoc.IH [OF run_snoc.prems(1) admits_prefix [OF run_snoc.prems(2)]]
  obtain a1 where a1: "run spec a (filter visible tr) a1" "R tr s1 a1" by blast
  from step_simulated [OF run_snoc(2) a1(2) run_snoc.prems(2)]
  obtain a2 where a2: "if visible l then spec a1 l a2 else a2 = a1" "R (tr @ [l]) s2 a2" by blast
  have "run spec a (filter visible (tr @ [l])) a2"
    using a1(1) a2(1) run.run_snoc [of spec a "filter visible tr" a1 l a2] by (cases "visible l") simp_all
  with a2(2) show ?case by blast
qed

end

end
