(* ===== verification/Relay_Server.thy ===== *)
theory Relay_Server
  imports Event_Handler Transition_Systems Os_World "HOL-Library.Multiset"
begin

text \<open>
  \<open>internal/server/server.go\<close>: the reader goroutine, the packet queue and the workers, as a step
  relation. A step is one atomic action of one goroutine: a \<open>select\<close>, a read of the socket, one
  operation on an atomic counter, one channel operation, the decoding of a packet, one step of
  \<open>Event_Handler\<close> on the shared dedup store. The scheduler, the network, the clock and the tickers, the cancellation of the
  context and the reloading of the engine choose between the steps. The 64-bit counters wrap.
  A datagram for which the decoder panics has no step (the process ends); the decoder is the one of
  \<open>Receiver\<close>, which never does. The server keeps its logger; the records it writes are left out.
\<close>

section \<open>State\<close>

datatype counter =
    Received | QueueDropped | ParseFailed | HandleFailed | Accepted | Forwarded | Filtered
  | Duplicates | PassThrough | Alarms | DedupDisabled | ForwardFailed

type_synonym runtime_stats = "counter \<Rightarrow> 64 word"

text \<open>\<open>cloneUDPAddr\<close>: a nil address stays nil (\<open>None\<close>), any other is copied field by field.\<close>

definition cloneUDPAddr :: "udp_addr option \<Rightarrow> udp_addr option" where
  "cloneUDPAddr addr =
     (case addr of
        None \<Rightarrow> None
      | Some a \<Rightarrow> Some \<lparr>ua_ip = ua_ip a, ua_port = ua_port a, ua_zone = ua_zone a\<rparr>)"

record queued_packet =
  pk_payload :: bytes
  pk_remote :: udp_addr

text \<open>
  Where the loop of \<open>Run\<close> stands: at the \<open>select\<close>, in \<open>ReadFromUDP\<close>, holding a packet not yet
  counted, about to offer it to the queue, having enqueued it, having found the queue full, waiting for
  the workers with the value it will return, returned.
\<close>

datatype reader_pc =
    Polling
  | Reading
  | Holding queued_packet
  | Offering queued_packet
  | Enqueued
  | Dropping
  | Returning "err option"
  | Finished "err option"

text \<open>
  Where a worker stands: \<open>Running\<close> holds the run-time state that \<open>HandleEvent\<close> loaded, where the handler
  is and its local state, \<open>Counting\<close> the counters still to be incremented.
\<close>

datatype 't worker_pc =
    Waiting
  | Taken queued_packet
  | Parsing queued_packet
  | Handling trap_event
  | Running "'t gosnmp_decoder runtime_state" handler_pc work
  | Counting "counter list"
  | Exited

record 't server =
  sv_cfg :: server_config
  sv_engine :: "'t gosnmp_decoder engine"
  sv_logger :: logger
  sv_stats :: runtime_stats
  sv_queue_depth :: "64 word"
  sv_cancelled :: bool
  sv_chan :: "queued_packet list"
  sv_closed :: bool
  sv_reader :: reader_pc
  sv_workers :: "'t worker_pc list"

record 't server_env =
  se_lib :: "'t gosnmp_lib"
  se_match :: match_env

section \<open>The pieces of straight-line code\<close>

definition bump :: "counter \<Rightarrow> runtime_stats \<Rightarrow> runtime_stats" where
  "bump c stats = stats(c := stats c + 1)"

text \<open>The counters \<open>recordOutcome\<close> increments, in its order.\<close>

definition recordOutcome :: "outcome \<Rightarrow> counter list" where
  "recordOutcome r =
     (if oc_accepted r then [Accepted] else []) @
     (if oc_forwarded r then [Forwarded] else []) @
     (if oc_reason r = ''filtered'' then [Filtered]
      else if oc_reason r = ''duplicate'' then [Duplicates]
      else if oc_reason r = ''pass-through'' then [PassThrough]
      else if oc_reason r = ''alarm'' then [Alarms]
      else if oc_reason r = ''dedup_disabled'' then [DedupDisabled]
      else if oc_reason r = ''forward_failed'' then [ForwardFailed]
      else [])"

text \<open>\<open>processPacket\<close>: decoding, and the counters for what the engine returned.\<close>

definition parse_packet ::
    "'t gosnmp_lib \<Rightarrow> 't gosnmp_decoder engine \<Rightarrow> int \<Rightarrow> queued_packet \<Rightarrow> trap_event res" where
  "parse_packet lib en now p =
     Parse (Decode lib) en now (pk_payload p) (ip_str (ua_ip (pk_remote p))) (ua_port (pk_remote p))"

definition result_counters :: "outcome \<times> err option \<Rightarrow> counter list" where
  "result_counters res =
     (case snd res of
        Some _ \<Rightarrow> HandleFailed # (if oc_reason (fst res) = ''forward_failed'' then [ForwardFailed] else [])
      | None \<Rightarrow> recordOutcome (fst res))"

section \<open>Starting\<close>

text \<open>
  The state \<open>New\<close> makes and the start of \<open>Run\<close>: \<open>time.NewTicker\<close> panics when the interval, a 64-bit
  product of nanoseconds, is not positive, and \<open>make\<close> when a size is negative or needs more than the
  \<open>2^48\<close> bytes of the address space: a channel has a header of 112 bytes and 32 bytes per packet. The
  bounds are those of the Go run time on a 64-bit system; memory suffices for any size below them. The panic of
  the datagram buffer comes when the workers run already, and is held up by the deferred \<open>workers.Wait\<close> until the
  context is cancelled; no packet is read meanwhile.
\<close>

definition New_server :: "server_config \<Rightarrow> 't gosnmp_decoder engine \<Rightarrow> logger \<Rightarrow> 't server" where
  "New_server cfg en lg =
     \<lparr>sv_cfg = cfg, sv_engine = en, sv_logger = lg, sv_stats = (\<lambda>_. 0), sv_queue_depth = 0, sv_cancelled = False,
      sv_chan = [], sv_closed = False, sv_reader = Polling, sv_workers = []\<rparr>"

definition max_alloc :: int where
  "max_alloc = 2 ^ 48"

definition max_chan_size :: int where
  "max_chan_size = (max_alloc - 112) div 32"

definition start_run :: "'t server \<Rightarrow> 't server res" where
  "start_run s =
     (if ttl_duration (sc_cleanup_interval_seconds (sv_cfg s)) \<le> 0 \<or>
         0 < sc_stats_log_interval_secs (sv_cfg s) \<and> ttl_duration (sc_stats_log_interval_secs (sv_cfg s)) \<le> 0
      then Inl (Panic ''non-positive interval for NewTicker'')
      else if sc_queue_size (sv_cfg s) < 0 \<or> max_chan_size < sc_queue_size (sv_cfg s)
      then Inl (Panic ''makechan: size out of range'')
      else if sc_max_datagram_size (sv_cfg s) < 0 \<or> max_alloc < sc_max_datagram_size (sv_cfg s)
      then Inl (Panic ''makeslice: len out of range'')
      else Inr (s\<lparr>sv_workers := replicate (nat (sc_worker_count (sv_cfg s))) Waiting\<rparr>))"

section \<open>Steps\<close>

text \<open>
  What an observer sees of a step. A \<open>Tick\<close> of the cleanup ticker carries its time, one of the statistics
  ticker none. \<open>Handoff\<close> is the rendezvous of an unbuffered queue: the packet is queued and taken at once.
  \<open>Stored\<close> is the \<open>Put\<close> of a fresh alarm, and \<open>Handled\<close>, the last step of \<open>HandleEvent\<close> that anybody
  else can observe, carries the event and the packets handed to the forwarder.
\<close>

datatype label =
    Cancel
  | Reload app_config
  | Tick "int option"
  | Recv queued_packet
  | Enqueue queued_packet
  | Drop queued_packet
  | Take queued_packet
  | Handoff queued_packet
  | Unparsed queued_packet
  | Stored trap_event
  | Handled trap_event "(bytes \<times> err option) list"
  | Tau

fun step_label :: "handler_pc \<Rightarrow> trap_event \<Rightarrow> label" where
  "step_label (Storing alarm key) e = Stored e"
| "step_label _ e = Tau"

definition set_worker :: "'t server \<Rightarrow> nat \<Rightarrow> 't worker_pc \<Rightarrow> 't server" where
  "set_worker s i pc = s\<lparr>sv_workers := (sv_workers s)[i := pc]\<rparr>"

definition worker_at :: "'t server \<Rightarrow> nat \<Rightarrow> 't worker_pc \<Rightarrow> bool" where
  "worker_at s i pc \<longleftrightarrow> i < length (sv_workers s) \<and> sv_workers s ! i = pc"

inductive server_step :: "'t server_env \<Rightarrow> 't server \<Rightarrow> label \<Rightarrow> 't server \<Rightarrow> bool" for E where
  \<comment> \<open>the rest of the program\<close>
  cancel: "server_step E s Cancel (s\<lparr>sv_cancelled := True\<rparr>)"
| reload: "New_decoder (se_lib E) cfg = Inr dec \<Longrightarrow>
    server_step E s (Reload cfg) (s\<lparr>sv_engine := Reload_engine (sv_engine s) cfg forwarder (Some dec) lg writer\<rparr>)"
  \<comment> \<open>the \<open>select\<close> at the top of the loop; \<open>default\<close> is taken only when nothing is ready\<close>
| stop: "sv_reader s = Polling \<Longrightarrow> sv_cancelled s \<Longrightarrow>
    server_step E s Tau (s\<lparr>sv_closed := True, sv_reader := Returning None\<rparr>)"
| tick: "sv_reader s = Polling \<Longrightarrow>
    server_step E s (Tick (Some now)) (s\<lparr>sv_engine := snd (engine_Cleanup (sv_engine s) now), sv_reader := Reading\<rparr>)"
| stats_tick: "sv_reader s = Polling \<Longrightarrow> 0 < sc_stats_log_interval_secs (sv_cfg s) \<Longrightarrow>
    server_step E s (Tick None) (s\<lparr>sv_reader := Reading\<rparr>)"
| pass: "sv_reader s = Polling \<Longrightarrow> \<not> sv_cancelled s \<Longrightarrow> server_step E s Tau (s\<lparr>sv_reader := Reading\<rparr>)"
  \<comment> \<open>\<open>ReadFromUDP\<close>\<close>
| timeout: "sv_reader s = Reading \<Longrightarrow> server_step E s Tau (s\<lparr>sv_reader := Polling\<rparr>)"
| read_error: "sv_reader s = Reading \<Longrightarrow>
    server_step E s Tau (s\<lparr>sv_reader := Returning (if sv_cancelled s then None else Some er)\<rparr>)"
| recv: "sv_reader s = Reading \<Longrightarrow> int (length (pk_payload p)) \<le> sc_max_datagram_size (sv_cfg s) \<Longrightarrow>
    server_step E s (Recv p) (s\<lparr>sv_reader := Holding p\<rparr>)"
| count_received: "sv_reader s = Holding p \<Longrightarrow>
    server_step E s Tau (s\<lparr>sv_stats := bump Received (sv_stats s), sv_reader := Offering p\<rparr>)"
  \<comment> \<open>offering the packet to the queue\<close>
| enqueue: "sv_reader s = Offering p \<Longrightarrow> int (length (sv_chan s)) < sc_queue_size (sv_cfg s) \<Longrightarrow>
    server_step E s (Enqueue p) (s\<lparr>sv_chan := sv_chan s @ [p], sv_reader := Enqueued\<rparr>)"
| full: "sv_reader s = Offering p \<Longrightarrow> sc_queue_size (sv_cfg s) \<le> int (length (sv_chan s)) \<Longrightarrow>
    server_step E s (Drop p) (s\<lparr>sv_reader := Dropping\<rparr>)"
| depth_up: "sv_reader s = Enqueued \<Longrightarrow>
    server_step E s Tau (s\<lparr>sv_queue_depth := sv_queue_depth s + 1, sv_reader := Polling\<rparr>)"
| count_dropped: "sv_reader s = Dropping \<Longrightarrow>
    server_step E s Tau (s\<lparr>sv_stats := bump QueueDropped (sv_stats s), sv_reader := Polling\<rparr>)"
  \<comment> \<open>the deferred \<open>workers.Wait()\<close>\<close>
| finish: "sv_reader s = Returning r \<Longrightarrow> set (sv_workers s) \<subseteq> {Exited} \<Longrightarrow>
    server_step E s Tau (s\<lparr>sv_reader := Finished r\<rparr>)"
  \<comment> \<open>\<open>runWorker\<close> and \<open>processPacket\<close>\<close>
| leave_cancelled: "worker_at s i Waiting \<Longrightarrow> sv_cancelled s \<Longrightarrow> server_step E s Tau (set_worker s i Exited)"
| leave_closed: "worker_at s i Waiting \<Longrightarrow> sv_closed s \<Longrightarrow> sv_chan s = [] \<Longrightarrow>
    server_step E s Tau (set_worker s i Exited)"
| take: "worker_at s i Waiting \<Longrightarrow> sv_chan s = p # ps \<Longrightarrow>
    server_step E s (Take p) (set_worker (s\<lparr>sv_chan := ps\<rparr>) i (Taken p))"
| handoff: "worker_at s i Waiting \<Longrightarrow> sv_reader s = Offering p \<Longrightarrow> sc_queue_size (sv_cfg s) = 0 \<Longrightarrow> sv_chan s = [] \<Longrightarrow>
    server_step E s (Handoff p) (set_worker (s\<lparr>sv_reader := Enqueued\<rparr>) i (Taken p))"
| depth_down: "worker_at s i (Taken p) \<Longrightarrow>
    server_step E s Tau (set_worker (s\<lparr>sv_queue_depth := sv_queue_depth s - 1\<rparr>) i (Parsing p))"
| parse_failed: "worker_at s i (Parsing p) \<Longrightarrow> parse_packet (se_lib E) (sv_engine s) now p = Inl er \<Longrightarrow>
    \<not> is_panic er \<Longrightarrow> server_step E s (Unparsed p) (set_worker s i (Counting [ParseFailed]))"
| parsed: "worker_at s i (Parsing p) \<Longrightarrow> parse_packet (se_lib E) (sv_engine s) now p = Inr e \<Longrightarrow>
    server_step E s Tau (set_worker s i (Handling e))"
| start_failed: "worker_at s i (Handling e) \<Longrightarrow> en_state (sv_engine s) = None \<Longrightarrow>
    server_step E s (Handled e [])
      (set_worker s i (Counting (result_counters (zero_outcome, Some (Errorf ''engine state not initialized'' [])))))"
| start_handler: "worker_at s i (Handling e) \<Longrightarrow> en_state (sv_engine s) = Some st \<Longrightarrow>
    handler_start (se_match E) st (start_work (en_dedup (sv_engine s)) e) = (pc, w) \<Longrightarrow> \<not> is_answer pc \<Longrightarrow>
    server_step E s Tau (set_worker s i (Running st pc w))"
| answered_early: "worker_at s i (Handling e) \<Longrightarrow> en_state (sv_engine s) = Some st \<Longrightarrow>
    handler_start (se_match E) st (start_work (en_dedup (sv_engine s)) e) = (Answer res, w) \<Longrightarrow>
    server_step E s (Handled e (sends (wk_out w))) (set_worker s i (Counting (result_counters res)))"
| advance: "worker_at s i (Running st pc w) \<Longrightarrow> \<not> is_answer pc \<Longrightarrow>
    handler_step (se_match E) (\<lambda>_ _. sent) st (pc, w\<lparr>wk_store := en_dedup (sv_engine s)\<rparr>) = (pc', w') \<Longrightarrow> \<not> is_answer pc' \<Longrightarrow>
    server_step E s (step_label pc (wk_event w))
      (set_worker (s\<lparr>sv_engine := (sv_engine s)\<lparr>en_dedup := wk_store w'\<rparr>\<rparr>) i (Running st pc' w'))"
| answered: "worker_at s i (Running st pc w) \<Longrightarrow> \<not> is_answer pc \<Longrightarrow>
    handler_step (se_match E) (\<lambda>_ _. sent) st (pc, w\<lparr>wk_store := en_dedup (sv_engine s)\<rparr>) = (Answer res, w') \<Longrightarrow>
    server_step E s (Handled (wk_event w') (sends (wk_out w')))
      (set_worker (s\<lparr>sv_engine := (sv_engine s)\<lparr>en_dedup := wk_store w'\<rparr>\<rparr>) i (Counting (result_counters res)))"
| count: "worker_at s i (Counting (c # cs)) \<Longrightarrow>
    server_step E s Tau (set_worker (s\<lparr>sv_stats := bump c (sv_stats s)\<rparr>) i (Counting cs))"
| counted: "worker_at s i (Counting []) \<Longrightarrow> server_step E s Tau (set_worker s i Waiting)"

text \<open>Runs: sequences of steps with their labels.\<close>

abbreviation server_run :: "'t server_env \<Rightarrow> 't server \<Rightarrow> label list \<Rightarrow> 't server \<Rightarrow> bool" where
  "server_run E \<equiv> run (server_step E)"

section \<open>Reading the state\<close>

text \<open>\<open>logStats\<close>, \<open>MetricsSnapshot\<close> and \<open>String\<close>; the snapshot keeps the signed queue depth.\<close>

definition logStats :: "'t server \<Rightarrow> int \<Rightarrow> (string \<times> int) list" where
  "logStats s depth =
     [(''received'', uint (sv_stats s Received)), (''queue_dropped'', uint (sv_stats s QueueDropped)),
      (''queue_depth'', depth), (''parse_failed'', uint (sv_stats s ParseFailed)),
      (''handle_failed'', uint (sv_stats s HandleFailed)), (''accepted'', uint (sv_stats s Accepted)),
      (''forwarded'', uint (sv_stats s Forwarded)), (''filtered'', uint (sv_stats s Filtered)),
      (''duplicates'', uint (sv_stats s Duplicates)), (''pass_through'', uint (sv_stats s PassThrough)),
      (''alarms'', uint (sv_stats s Alarms)), (''dedup_disabled'', uint (sv_stats s DedupDisabled)),
      (''forward_failed'', uint (sv_stats s ForwardFailed))]"

record metrics_snapshot =
  sn_counters :: runtime_stats
  sn_queue_depth :: int
  sn_queue_capacity :: int
  sn_worker_count :: int

definition MetricsSnapshot :: "'t server \<Rightarrow> metrics_snapshot" where
  "MetricsSnapshot s =
     \<lparr>sn_counters = sv_stats s, sn_queue_depth = sint (sv_queue_depth s),
      sn_queue_capacity = sc_queue_size (sv_cfg s), sn_worker_count = sc_worker_count (sv_cfg s)\<rparr>"

definition server_String :: "'t server \<Rightarrow> string" where
  "server_String s = sc_host (sv_cfg s) @ '':'' @ int_str (sc_port (sv_cfg s))"

section \<open>What the engine's results count\<close>

text \<open>The counters that settle a packet: every packet a worker finishes adds one to exactly one of them.\<close>

definition settling :: "counter list" where
  "settling = [ParseFailed, HandleFailed, Filtered, Duplicates, PassThrough, Alarms, DedupDisabled]"

definition settles :: "counter \<Rightarrow> bool" where
  "settles c \<longleftrightarrow> c \<in> set settling"

lemma settles_simps [simp]:
  "\<not> settles Received" "\<not> settles QueueDropped" "settles ParseFailed" "settles HandleFailed" "\<not> settles Accepted"
  "\<not> settles Forwarded" "settles Filtered" "settles Duplicates" "settles PassThrough" "settles Alarms"
  "settles DedupDisabled" "\<not> settles ForwardFailed"
  by (simp_all add: settles_def settling_def)

lemma result_counters_settle: "settled_result res \<Longrightarrow> length (filter settles (result_counters res)) = 1"
  by (cases res) (auto simp: settled_result_def result_counters_def recordOutcome_def split: option.splits)

lemma result_counters_length: "length (result_counters res) \<le> 3"
  by (auto simp: result_counters_def recordOutcome_def split: option.splits)

lemma result_counters_not_reader [simp]:
  "Received \<notin> set (result_counters res)" "QueueDropped \<notin> set (result_counters res)"
  by (auto simp: result_counters_def recordOutcome_def split: option.splits)

section \<open>Sums over the workers\<close>

lemma sum_update:
  fixes f :: "'b \<Rightarrow> 'a :: comm_monoid_add"
  shows "i < length xs \<Longrightarrow> sum_list (map f (xs[i := x])) + f (xs ! i) = sum_list (map f xs) + f x"
proof (induction xs arbitrary: i)
  case (Cons y ys)
  show ?case
  proof (cases i)
    case (Suc j)
    with Cons have "sum_list (map f (ys[j := x])) + f (ys ! j) = sum_list (map f ys) + f x" by simp
    with Suc show ?thesis by (simp add: ac_simps)
  qed (simp add: ac_simps)
qed simp

definition workers_sum :: "('t worker_pc \<Rightarrow> 'a :: comm_monoid_add) \<Rightarrow> 't server \<Rightarrow> 'a" where
  "workers_sum f s = sum_list (map f (sv_workers s))"

lemma set_worker_simps [simp]:
  "sv_cfg (set_worker s i pc) = sv_cfg s" "sv_engine (set_worker s i pc) = sv_engine s"
  "sv_stats (set_worker s i pc) = sv_stats s" "sv_queue_depth (set_worker s i pc) = sv_queue_depth s"
  "sv_cancelled (set_worker s i pc) = sv_cancelled s" "sv_chan (set_worker s i pc) = sv_chan s"
  "sv_closed (set_worker s i pc) = sv_closed s" "sv_reader (set_worker s i pc) = sv_reader s"
  "length (sv_workers (set_worker s i pc)) = length (sv_workers s)"
  by (simp_all add: set_worker_def)

lemma workers_sum_move:
  "worker_at s i pc \<Longrightarrow> sv_workers s' = sv_workers s \<Longrightarrow>
   workers_sum f (set_worker s' i pc') + f pc = workers_sum f s + f pc'"
  by (auto simp: workers_sum_def set_worker_def worker_at_def dest: sum_update [of i "sv_workers s" f])

lemma workers_sum_frame [simp]:
  "workers_sum f (s\<lparr>sv_engine := en\<rparr>) = workers_sum f s" "workers_sum f (s\<lparr>sv_stats := st\<rparr>) = workers_sum f s"
  "workers_sum f (s\<lparr>sv_queue_depth := d\<rparr>) = workers_sum f s" "workers_sum f (s\<lparr>sv_cancelled := b\<rparr>) = workers_sum f s"
  "workers_sum f (s\<lparr>sv_chan := q\<rparr>) = workers_sum f s" "workers_sum f (s\<lparr>sv_closed := b\<rparr>) = workers_sum f s"
  "workers_sum f (s\<lparr>sv_reader := r\<rparr>) = workers_sum f s"
  by (simp_all add: workers_sum_def)

lemma workers_sum_word:
  assumes "worker_at s i pc" "sv_workers s' = sv_workers s"
  shows "(of_nat (workers_sum f (set_worker s' i pc')) :: 64 word) =
    of_nat (workers_sum f s) + of_nat (f pc') - of_nat (f pc)"
proof -
  have "of_nat (workers_sum f (set_worker s' i pc') + f pc) = (of_nat (workers_sum f s + f pc') :: 64 word)"
    using workers_sum_move [OF assms, of f pc'] by simp
  then show ?thesis by (simp add: algebra_simps)
qed

section \<open>The invariant\<close>

text \<open>How many packets a goroutine holds that no settling counter has counted yet.\<close>

fun worker_load :: "'t worker_pc \<Rightarrow> nat" where
  "worker_load (Taken p) = 1"
| "worker_load (Parsing p) = 1"
| "worker_load (Handling e) = 1"
| "worker_load (Running st pc w) = 1"
| "worker_load (Counting cs) = length (filter settles cs)"
| "worker_load Waiting = 0"
| "worker_load Exited = 0"

fun reader_load :: "reader_pc \<Rightarrow> nat" where
  "reader_load (Offering p) = 1"
| "reader_load Dropping = 1"
| "reader_load _ = 0"

fun taken_load :: "'t worker_pc \<Rightarrow> nat" where
  "taken_load (Taken p) = 1"
| "taken_load _ = 0"

definition settled_sum :: "runtime_stats \<Rightarrow> 64 word" where
  "settled_sum st = sum_list (map st settling)"

definition in_flight :: "'t server \<Rightarrow> nat" where
  "in_flight s = length (sv_chan s) + reader_load (sv_reader s) + workers_sum worker_load s"

definition accounted :: "'t server \<Rightarrow> bool" where
  "accounted s \<longleftrightarrow>
     sv_stats s Received = sv_stats s QueueDropped + settled_sum (sv_stats s) + of_nat (in_flight s)"

definition depth_exact :: "'t server \<Rightarrow> bool" where
  "depth_exact s \<longleftrightarrow>
     sv_queue_depth s + of_bool (sv_reader s = Enqueued) = of_nat (length (sv_chan s) + workers_sum taken_load s)"

fun worker_counts :: "'t worker_pc \<Rightarrow> counter set" where
  "worker_counts (Counting cs) = set cs"
| "worker_counts _ = {}"

definition workers_free :: "counter \<Rightarrow> 't server \<Rightarrow> bool" where
  "workers_free c s \<longleftrightarrow> (\<forall>pc \<in> set (sv_workers s). c \<notin> worker_counts pc)"

text \<open>Handlers in progress are in order.\<close>

fun task_ok :: "'t worker_pc \<Rightarrow> bool" where
  "task_ok (Running st pc w) \<longleftrightarrow> \<not> is_answer pc \<and> handler_ok pc w"
| "task_ok _ = True"

definition tasks_ok :: "'t server \<Rightarrow> bool" where
  "tasks_ok s \<longleftrightarrow> (\<forall>pc \<in> set (sv_workers s). task_ok pc)"

definition server_inv :: "'t server \<Rightarrow> bool" where
  "server_inv s \<longleftrightarrow>
     accounted s \<and> depth_exact s \<and> int (length (sv_chan s)) \<le> max 0 (sc_queue_size (sv_cfg s)) \<and>
     workers_free Received s \<and> workers_free QueueDropped s \<and> tasks_ok s \<and>
     (sv_closed s \<longrightarrow> sv_reader s = Returning None \<or> sv_reader s = Finished None)"

lemma settled_sum_bump [simp]: "settled_sum (bump c st) = settled_sum st + of_bool (settles c)"
  by (cases c) (simp_all add: settled_sum_def settling_def bump_def)

lemma bump_simps [simp]: "bump c st c = st c + 1" "c \<noteq> c' \<Longrightarrow> bump c st c' = st c'"
  by (simp_all add: bump_def)

lemma workers_free_set:
  "workers_free c s \<Longrightarrow> c \<notin> worker_counts pc \<Longrightarrow> workers_free c (set_worker s i pc)"
  using set_update_subset_insert [of "sv_workers s" i pc] by (auto simp: workers_free_def set_worker_def)

lemma workers_free_frame [simp]:
  "workers_free c (s\<lparr>sv_engine := en\<rparr>) = workers_free c s" "workers_free c (s\<lparr>sv_stats := st\<rparr>) = workers_free c s"
  "workers_free c (s\<lparr>sv_queue_depth := d\<rparr>) = workers_free c s" "workers_free c (s\<lparr>sv_cancelled := b\<rparr>) = workers_free c s"
  "workers_free c (s\<lparr>sv_chan := q\<rparr>) = workers_free c s" "workers_free c (s\<lparr>sv_closed := b\<rparr>) = workers_free c s"
  "workers_free c (s\<lparr>sv_reader := r\<rparr>) = workers_free c s"
  by (simp_all add: workers_free_def)

lemma tasks_ok_set: "tasks_ok s \<Longrightarrow> task_ok pc \<Longrightarrow> tasks_ok (set_worker s i pc)"
  using set_update_subset_insert [of "sv_workers s" i pc] by (auto simp: tasks_ok_def set_worker_def)

lemma tasks_ok_frame [simp]:
  "tasks_ok (s\<lparr>sv_engine := en\<rparr>) = tasks_ok s" "tasks_ok (s\<lparr>sv_stats := st\<rparr>) = tasks_ok s"
  "tasks_ok (s\<lparr>sv_queue_depth := d\<rparr>) = tasks_ok s" "tasks_ok (s\<lparr>sv_cancelled := b\<rparr>) = tasks_ok s"
  "tasks_ok (s\<lparr>sv_chan := q\<rparr>) = tasks_ok s" "tasks_ok (s\<lparr>sv_closed := b\<rparr>) = tasks_ok s"
  "tasks_ok (s\<lparr>sv_reader := r\<rparr>) = tasks_ok s"
  by (simp_all add: tasks_ok_def)

lemma worker_at_mem: "worker_at s i pc \<Longrightarrow> pc \<in> set (sv_workers s)"
  by (auto simp: worker_at_def)

lemma worker_task: "tasks_ok s \<Longrightarrow> worker_at s i (Running st pc w) \<Longrightarrow> \<not> is_answer pc \<and> handler_ok pc w"
  by (auto simp: tasks_ok_def dest!: worker_at_mem)

lemma step_frame:
  "server_step E s l s' \<Longrightarrow> sv_cfg s' = sv_cfg s \<and> length (sv_workers s') = length (sv_workers s)"
  by (induction rule: server_step.induct) auto

lemma step_accounted: "server_step E s l s' \<Longrightarrow> server_inv s \<Longrightarrow> accounted s'"
proof (induction rule: server_step.induct)
  case (start_failed s i e)
  then show ?case
    using result_counters_settle [of "(zero_outcome, Some (Errorf ''engine state not initialized'' []))"]
    by (simp add: server_inv_def accounted_def in_flight_def workers_sum_word [OF start_failed(1)] algebra_simps)
next
  case (start_handler s i e st pc w)
  then show ?case
    by (simp add: server_inv_def accounted_def in_flight_def workers_sum_word [OF start_handler(1)] algebra_simps)
next
  case (answered_early s i e st res w)
  then have "settled_result res" by (auto dest: handler_start_settled)
  with answered_early show ?case
    using result_counters_settle [of res]
    by (simp add: server_inv_def accounted_def in_flight_def workers_sum_word [OF answered_early(1)] algebra_simps)
next
  case (advance s i st pc w sent pc' w')
  then show ?case
    by (simp add: server_inv_def accounted_def in_flight_def workers_sum_word [OF advance(1)] algebra_simps)
next
  case (answered s i st pc w sent res w')
  then have "settled_result res" by (auto dest: handler_step_settled)
  with answered show ?case
    using result_counters_settle [of res]
    by (simp add: server_inv_def accounted_def in_flight_def workers_sum_word [OF answered(1)] algebra_simps)
next
  case (count s i c cs)
  have "c \<noteq> Received" "c \<noteq> QueueDropped"
    using count(2) worker_at_mem [OF count(1)] by (auto simp: server_inv_def workers_free_def)
  then show ?case
    using count
    by (cases "settles c")
       (simp_all add: server_inv_def accounted_def in_flight_def workers_sum_word [OF count(1)] algebra_simps)
qed (auto simp: server_inv_def accounted_def in_flight_def workers_sum_word algebra_simps)

lemma step_depth_exact: "server_step E s l s' \<Longrightarrow> server_inv s \<Longrightarrow> depth_exact s'"
proof (induction rule: server_step.induct)
  case (start_handler s i e st pc w)
  then show ?case
    by (simp add: server_inv_def depth_exact_def workers_sum_word [OF start_handler(1)] algebra_simps)
next
  case (advance s i st pc w sent pc' w')
  then show ?case
    by (simp add: server_inv_def depth_exact_def workers_sum_word [OF advance(1)] algebra_simps)
next
  case (answered_early s i e st res w)
  then show ?case
    by (simp add: server_inv_def depth_exact_def workers_sum_word [OF answered_early(1)] algebra_simps)
next
  case (answered s i st pc w sent res w')
  then show ?case
    by (simp add: server_inv_def depth_exact_def workers_sum_word [OF answered(1)] algebra_simps)
qed (auto simp: server_inv_def depth_exact_def workers_sum_word algebra_simps)

lemma step_workers_free:
  assumes "server_step E s l s'" "c = Received \<or> c = QueueDropped" "workers_free c s"
  shows "workers_free c s'"
  using assms
proof (induction rule: server_step.induct)
  case (count s i d ds)
  then have "c \<notin> set (d # ds)"
    using bspec [OF _ worker_at_mem [OF count(1)], of "\<lambda>pc. c \<notin> worker_counts pc"] by (simp add: workers_free_def)
  with count show ?case by (simp add: workers_free_set)
next
  case (start_failed s i e)
  then show ?case by (auto simp: workers_free_set)
next
  case (answered_early s i e st res w)
  then show ?case by (auto simp: workers_free_set)
next
  case (answered s i st pc w sent res w')
  then show ?case by (auto simp: workers_free_set)
next
  case (parse_failed s i p now er)
  then show ?case by (auto simp: workers_free_set)
qed (simp_all add: workers_free_set)

lemma step_tasks: "server_step E s l s' \<Longrightarrow> tasks_ok s \<Longrightarrow> tasks_ok s'"
proof (induction rule: server_step.induct)
  case (start_handler s i e st pc w)
  then show ?case using handler_start_ok [OF start_handler(3)] by (simp add: tasks_ok_set)
next
  case (advance s i st pc w sent pc' w')
  then show ?case using handler_step_ok [OF advance(3,2)] worker_task [OF _ advance(1)] by (simp add: tasks_ok_set)
qed (simp_all add: tasks_ok_set)

lemma step_rest:
  assumes "server_step E s l s'" "server_inv s"
  shows "int (length (sv_chan s')) \<le> max 0 (sc_queue_size (sv_cfg s')) \<and>
    (sv_closed s' \<longrightarrow> sv_reader s' = Returning None \<or> sv_reader s' = Finished None)"
  using assms by (induction rule: server_step.induct) (auto simp: server_inv_def)

lemma step_inv: "server_step E s l s' \<Longrightarrow> server_inv s \<Longrightarrow> server_inv s'"
  using step_accounted [of E s l s'] step_depth_exact [of E s l s'] step_rest [of E s l s'] step_tasks [of E s l s']
    step_workers_free [of E s l s' Received] step_workers_free [of E s l s' QueueDropped]
  by (simp add: server_inv_def)

interpretation invariant: stable "server_step E" "\<lambda>_. True" server_inv for E
  by unfold_locales (rule step_inv)

interpretation frame: stable "server_step E" "\<lambda>_. True" "\<lambda>s. sv_cfg s = cfg \<and> length (sv_workers s) = n" for E cfg n
  by unfold_locales (auto dest: step_frame)

lemma run_inv: "server_run E s tr s' \<Longrightarrow> server_inv s \<Longrightarrow> server_inv s'"
  by (rule invariant.run_stable) simp_all

lemma run_frame: "server_run E s tr s' \<Longrightarrow> sv_cfg s' = sv_cfg s \<and> length (sv_workers s') = length (sv_workers s)"
  by (rule frame.run_stable) simp_all

text \<open>The state in which \<open>Run\<close> starts.\<close>

definition started :: "'t server \<Rightarrow> bool" where
  "started s \<longleftrightarrow> (\<exists>cfg en lg. start_run (New_server cfg en lg) = Inr s)"

lemma started_inv: "started s \<Longrightarrow> server_inv s"
  by (auto simp: started_def start_run_def New_server_def server_inv_def accounted_def depth_exact_def in_flight_def
      workers_sum_def workers_free_def tasks_ok_def settled_sum_def settling_def sum_list_replicate split: if_splits)

end
