(* ===== verification/Server_Runs.thy ===== *)
theory Server_Runs
  imports Relay_Server
begin

text \<open>
  What the runs of the server guarantee: packets are taken in the order in which they were queued,
  none is invented or handled twice, the metrics count what the forwarder did, the counters add up,
  and a cancelled server stops. The properties follow at the end.
\<close>

section \<open>Order\<close>

fun enqueued :: "label \<Rightarrow> queued_packet list" where
  "enqueued (Enqueue p) = [p]"
| "enqueued (Handoff p) = [p]"
| "enqueued _ = []"

fun taken :: "label \<Rightarrow> queued_packet list" where
  "taken (Take p) = [p]"
| "taken (Handoff p) = [p]"
| "taken _ = []"

lemma step_label_queue [simp]: "enqueued (step_label pc e) = []" "taken (step_label pc e) = []"
  by (cases pc; simp)+

definition trace_of :: "(label \<Rightarrow> 'a list) \<Rightarrow> label list \<Rightarrow> 'a list" where
  "trace_of f tr = concat (map f tr)"

lemma trace_of_simps [simp]:
  "trace_of f [] = []" "trace_of f [l] = f l" "trace_of f (tr @ tr') = trace_of f tr @ trace_of f tr'"
  by (simp_all add: trace_of_def)

lemma step_fifo: "server_step E s l s' \<Longrightarrow> sv_chan s @ enqueued l = taken l @ sv_chan s'"
  by (induction rule: server_step.induct) auto

lemma run_fifo:
  "server_run E s tr s' \<Longrightarrow> sv_chan s @ trace_of enqueued tr = trace_of taken tr @ sv_chan s'"
proof (induction rule: run.induct)
  case (run_snoc s tr s1 l s2)
  then have "sv_chan s @ trace_of enqueued tr @ enqueued l = trace_of taken tr @ sv_chan s1 @ enqueued l"
    by (metis append.assoc)
  with step_fifo [OF run_snoc(2)] show ?case by simp
qed simp

section \<open>Conservation of datagrams\<close>

lemma sum_list_zeros: "sum_list (replicate n (0 :: 'a :: comm_monoid_add)) = 0"
  by (induction n) simp_all

text \<open>The datagrams read, those whose journey ended with a step, and those still on their way.\<close>

fun read_of :: "label \<Rightarrow> bytes list" where
  "read_of (Recv p) = [pk_payload p]"
| "read_of _ = []"

fun ended_of :: "label \<Rightarrow> bytes list" where
  "ended_of (Drop p) = [pk_payload p]"
| "ended_of (Unparsed p) = [pk_payload p]"
| "ended_of (Handled e ss) = [ev_raw_bytes e]"
| "ended_of _ = []"

fun sent_of :: "label \<Rightarrow> (bytes \<times> err option) list" where
  "sent_of (Handled e ss) = ss"
| "sent_of _ = []"

lemma step_label_traffic [simp]:
  "read_of (step_label pc e) = []" "ended_of (step_label pc e) = []" "sent_of (step_label pc e) = []"
  by (cases pc; simp)+

fun reader_holds :: "reader_pc \<Rightarrow> bytes multiset" where
  "reader_holds (Holding p) = {#pk_payload p#}"
| "reader_holds (Offering p) = {#pk_payload p#}"
| "reader_holds _ = {#}"

fun worker_holds :: "'t worker_pc \<Rightarrow> bytes multiset" where
  "worker_holds (Taken p) = {#pk_payload p#}"
| "worker_holds (Parsing p) = {#pk_payload p#}"
| "worker_holds (Handling e) = {#ev_raw_bytes e#}"
| "worker_holds (Running st pc w) = {#ev_raw_bytes (wk_event w)#}"
| "worker_holds _ = {#}"

definition held :: "'t server \<Rightarrow> bytes multiset" where
  "held s = reader_holds (sv_reader s) + mset (map pk_payload (sv_chan s)) + workers_sum worker_holds s"

lemma parse_packet_raw: "parse_packet lib en now p = Inr e \<Longrightarrow> ev_raw_bytes e = pk_payload p"
  by (auto simp: parse_packet_def Parse_def split: option.splits dest: gosnmp.decode_raw)

lemma held_move:
  assumes "worker_at s i pc" "sv_workers s' = sv_workers s" "sv_reader s' = sv_reader s"
    and "mset (map pk_payload (sv_chan s')) + worker_holds pc' + x = mset (map pk_payload (sv_chan s)) + worker_holds pc + y"
  shows "held (set_worker s' i pc') + x = held s + y"
proof -
  have "held (set_worker s' i pc') + x + worker_holds pc =
    reader_holds (sv_reader s) + mset (map pk_payload (sv_chan s')) + (workers_sum worker_holds s + worker_holds pc') + x"
    using workers_sum_move [OF assms(1,2), of worker_holds pc'] assms(3) by (simp add: held_def ac_simps)
  also have "\<dots> = reader_holds (sv_reader s) + workers_sum worker_holds s +
    (mset (map pk_payload (sv_chan s')) + worker_holds pc' + x)" by (simp only: ac_simps)
  also have "\<dots> = held s + y + worker_holds pc" unfolding assms(4) by (simp add: held_def ac_simps)
  finally show ?thesis by simp
qed

lemma step_conserves:
  "server_step E s l s' \<Longrightarrow> held s' + mset (ended_of l) = held s + mset (read_of l)"
proof (induction rule: server_step.induct)
  case (take s i p ps)
  then show ?case by (intro held_move) auto
next
  case (handoff s i p)
  then show ?case
    using workers_sum_move [OF handoff(1), of "s\<lparr>sv_reader := Enqueued\<rparr>" worker_holds "Taken p"] by (simp add: held_def ac_simps)
next
  case (depth_down s i p)
  then show ?case by (intro held_move) auto
next
  case (parse_failed s i p now er)
  then show ?case by (intro held_move) auto
next
  case (parsed s i p now e)
  then show ?case by (intro held_move) (auto simp: parse_packet_raw)
next
  case (start_failed s i e)
  then show ?case by (intro held_move) auto
next
  case (start_handler s i e st pc w)
  with handler_start_ok [OF start_handler(3)] show ?case
    by (auto intro: held_move [where x = "{#}" and y = "{#}", simplified])
next
  case (answered_early s i e st res w)
  then show ?case by (intro held_move) auto
next
  case (advance s i st pc w sent pc' w')
  with handler_step_frame(1) [OF advance(3,2)] show ?case
    by (auto intro: held_move [where x = "{#}" and y = "{#}", simplified])
next
  case (answered s i st pc w sent res w')
  with handler_step_frame(1) [OF answered(3,2)] show ?case by (intro held_move) auto
next
  case (leave_cancelled s i)
  then show ?case by (auto intro: held_move [where x = "{#}" and y = "{#}", simplified])
next
  case (leave_closed s i)
  then show ?case by (auto intro: held_move [where x = "{#}" and y = "{#}", simplified])
next
  case (count s i c cs)
  then show ?case by (auto intro: held_move [where x = "{#}" and y = "{#}", simplified])
next
  case (counted s i)
  then show ?case by (auto intro: held_move [where x = "{#}" and y = "{#}", simplified])
qed (auto simp: held_def)

interpretation datagrams: conserved "server_step E" "\<lambda>_. True" held "\<lambda>l. mset (read_of l)" "\<lambda>l. mset (ended_of l)" for E
  by unfold_locales (simp_all add: step_conserves)

lemma trace_of_mset: "sum_list (map (\<lambda>l. mset (f l)) tr) = mset (trace_of f tr)"
  by (induction tr) (simp_all add: trace_of_def)

lemma run_conserves:
  "server_run E s tr s' \<Longrightarrow> held s' + mset (trace_of ended_of tr) = held s + mset (trace_of read_of tr)"
  using datagrams.run_conserved [of E s tr s'] by (simp only: trace_of_mset)

text \<open>What is sent for an event is its datagram, at most once.\<close>

lemma step_sends:
  "server_step E s l s' \<Longrightarrow> tasks_ok s \<Longrightarrow> sent_of l = [] \<or> (\<exists>raw r. ended_of l = [raw] \<and> sent_of l = [(raw, r)])"
proof (induction rule: server_step.induct)
  case (answered_early s i e st res w)
  with handler_start_ok [OF answered_early(3)] show ?case by (simp add: handler_ok_def result_sends_def)
next
  case (answered s i st pc w sent res w')
  with handler_step_ok [OF answered(3,2)] worker_task [OF _ answered(1)] show ?case
    by (simp add: handler_ok_def result_sends_def)
qed auto

interpretation tasks: stable "server_step E" "\<lambda>_. True" tasks_ok for E
  by unfold_locales (rule step_tasks)

lemma run_sends:
  "server_run E s tr s' \<Longrightarrow> tasks_ok s \<Longrightarrow> mset (map fst (trace_of sent_of tr)) \<subseteq># mset (trace_of ended_of tr)"
proof (induction rule: run.induct)
  case (run_snoc s tr s1 l s2)
  then have "tasks_ok s1" using tasks.run_stable [of E s tr s1] by simp
  with step_sends [OF run_snoc(2)] have "mset (map fst (sent_of l)) \<subseteq># mset (ended_of l)" by auto
  with run_snoc.IH run_snoc.prems show ?case by (simp add: subset_mset.add_mono)
qed simp

section \<open>The metrics of the forwarder\<close>

text \<open>The packets the forwarder accepted, and those it failed to send.\<close>

definition delivered :: "label list \<Rightarrow> nat" where
  "delivered tr = length (filter (\<lambda>(b, r). r = None) (trace_of sent_of tr))"

definition undelivered :: "label list \<Rightarrow> nat" where
  "undelivered tr = length (filter (\<lambda>(b, r). r \<noteq> None) (trace_of sent_of tr))"

fun pending :: "counter \<Rightarrow> 't worker_pc \<Rightarrow> nat" where
  "pending c (Counting cs) = count_list cs c"
| "pending c _ = 0"

lemma result_counters_sends:
  assumes "settled_result res"
  shows "count_list (result_counters res) Forwarded = length (filter (\<lambda>(b, r). r = None) (result_sends raw res))"
    and "count_list (result_counters res) ForwardFailed = length (filter (\<lambda>(b, r). r \<noteq> None) (result_sends raw res))"
  using assms
  by (cases "snd res"; auto simp: settled_result_def result_counters_def recordOutcome_def result_sends_def)+

text \<open>The results among those sent that count for \<open>c\<close>.\<close>

definition metric_of :: "counter \<Rightarrow> (bytes \<times> err option) list \<Rightarrow> nat" where
  "metric_of c ss = length (filter (\<lambda>(b, r). (r = None) = (c = Forwarded)) ss)"

definition metric_total :: "counter \<Rightarrow> 't server \<Rightarrow> 64 word" where
  "metric_total c s = sv_stats s c + of_nat (workers_sum (pending c) s)"

lemma step_metric:
  assumes "server_step E s l s'" "tasks_ok s" "c = Forwarded \<or> c = ForwardFailed"
  shows "metric_total c s' = metric_total c s + of_nat (metric_of c (sent_of l))"
  using assms
proof (induction rule: server_step.induct)
  case (start_failed s i e)
  then show ?case
    by (auto simp: metric_total_def metric_of_def workers_sum_word [OF start_failed(1)] result_counters_def zero_outcome_def)
next
  case (answered_early s i e st res w)
  then have "settled_result res" "sends (wk_out w) = result_sends (ev_raw_bytes (wk_event w)) res"
    using handler_start_ok [OF answered_early(3)] by (simp_all add: handler_ok_def)
  with answered_early(5) result_counters_sends [of res "ev_raw_bytes (wk_event w)"] show ?case
    by (auto simp: metric_total_def metric_of_def workers_sum_word [OF answered_early(1)])
next
  case (answered s i st pc w sent res w')
  then have "settled_result res" "sends (wk_out w') = result_sends (ev_raw_bytes (wk_event w')) res"
    using handler_step_ok [OF answered(3,2)] worker_task [OF _ answered(1)] by (simp_all add: handler_ok_def)
  with answered(5) result_counters_sends [of res "ev_raw_bytes (wk_event w')"] show ?case
    by (auto simp: metric_total_def metric_of_def workers_sum_word [OF answered(1)])
next
  case (count s i d ds)
  then show ?case
    by (cases "d = c") (auto simp: metric_total_def metric_of_def workers_sum_word [OF count(1)] algebra_simps)
qed (auto simp: metric_total_def metric_of_def workers_sum_word)

interpretation forwarded: conserved "server_step E" tasks_ok "metric_total Forwarded"
  "\<lambda>l. of_nat (metric_of Forwarded (sent_of l))" "\<lambda>l. 0" for E
  by unfold_locales (simp add: step_metric)

interpretation forward_failed: conserved "server_step E" tasks_ok "metric_total ForwardFailed"
  "\<lambda>l. of_nat (metric_of ForwardFailed (sent_of l))" "\<lambda>l. 0" for E
  by unfold_locales (simp add: step_metric)

lemma metric_of_trace:
  "sum_list (map (\<lambda>l. of_nat (metric_of c (sent_of l))) tr) = (of_nat (metric_of c (trace_of sent_of tr)) :: 64 word)"
  by (induction tr) (simp_all add: trace_of_def metric_of_def)

lemma run_metric:
  assumes "server_run E s tr s'" "tasks_ok s"
  shows "metric_total Forwarded s' = metric_total Forwarded s + of_nat (delivered tr)"
    and "metric_total ForwardFailed s' = metric_total ForwardFailed s + of_nat (undelivered tr)"
  using forwarded.run_conserved [OF assms] forward_failed.run_conserved [OF assms]
  unfolding metric_of_trace by (simp_all add: delivered_def undelivered_def metric_of_def)

section \<open>Shutdown\<close>

text \<open>The steps the server does not take by itself: the environment's, and the tickers' firing.\<close>

definition outside :: "label \<Rightarrow> bool" where
  "outside l \<longleftrightarrow> l = Cancel \<or> l \<in> range Reload \<or> l \<in> range Tick"

lemma step_label_inside [simp]: "\<not> outside (step_label pc e)" "step_label pc e \<notin> range Tick"
  by (cases pc; auto simp: outside_def)+

text \<open>
  A bound on the steps a cancelled server has still to make, where \<open>k\<close> bounds those a packet needs from
  the moment a worker takes it; \<open>job_bound a\<close> is such a \<open>k\<close> for configurations of at most \<open>a\<close> alarms.
\<close>

definition job_bound :: "nat \<Rightarrow> nat" where
  "job_bound a = a + 13"

fun reader_rank :: "nat \<Rightarrow> reader_pc \<Rightarrow> nat" where
  "reader_rank k (Finished r) = 0"
| "reader_rank k (Returning r) = 1"
| "reader_rank k Polling = 2"
| "reader_rank k Enqueued = 3"
| "reader_rank k Dropping = 3"
| "reader_rank k (Offering p) = k + 4"
| "reader_rank k (Holding p) = k + 5"
| "reader_rank k Reading = k + 6"

fun worker_rank :: "nat \<Rightarrow> 't worker_pc \<Rightarrow> nat" where
  "worker_rank k Exited = 0"
| "worker_rank k Waiting = 1"
| "worker_rank k (Counting cs) = 2 + length cs"
| "worker_rank k (Running st pc w) = 5 + steps_left pc"
| "worker_rank k (Handling e) = k - 2"
| "worker_rank k (Parsing p) = k - 1"
| "worker_rank k (Taken p) = k"

definition rank :: "nat \<Rightarrow> 't server \<Rightarrow> nat" where
  "rank k s = reader_rank k (sv_reader s) + k * length (sv_chan s) + workers_sum (worker_rank k) s"

text \<open>The configurations in use have at most \<open>a\<close> alarms, and so the steps of a worker are bounded.\<close>

definition few_alarms :: "nat \<Rightarrow> 't gosnmp_decoder engine \<Rightarrow> bool" where
  "few_alarms a en \<longleftrightarrow> (\<forall>st. en_state en = Some st \<longrightarrow> length (ac_alarms (rs_cfg st)) \<le> a)"

fun loads_few :: "nat \<Rightarrow> label \<Rightarrow> bool" where
  "loads_few a (Reload cfg) = (length (ac_alarms cfg) \<le> a)"
| "loads_few a _ = True"

lemma step_few: "server_step E s l s' \<Longrightarrow> loads_few a l \<Longrightarrow> few_alarms a (sv_engine s) \<Longrightarrow> few_alarms a (sv_engine s')"
  by (induction rule: server_step.induct)
     (auto simp: few_alarms_def Reload_engine_def engine_Cleanup_def split_beta)

text \<open>A step moves one worker, or none.\<close>

lemma rank_move:
  assumes "worker_at s i pc" "sv_workers s' = sv_workers s" "sv_reader s' = sv_reader s"
  shows "rank k (set_worker s' i pc') + k * length (sv_chan s) + worker_rank k pc =
    rank k s + k * length (sv_chan s') + worker_rank k pc'"
  using workers_sum_move [OF assms(1,2), of "worker_rank k" pc'] assms(3) by (simp add: rank_def)

lemma step_cancelled: "server_step E s l s' \<Longrightarrow> sv_cancelled s \<Longrightarrow> sv_cancelled s'"
  by (induction rule: server_step.induct) auto

lemma step_rank:
  assumes "server_step E s l s'" "sv_cancelled s" "few_alarms a (sv_engine s)" "k = job_bound a"
  shows "rank k s' + of_bool (\<not> outside l) \<le> rank k s + (k + 4) * of_bool (l \<in> range Tick)"
  using assms
proof (induction rule: server_step.induct)
  case (leave_cancelled s i)
  then show ?case using rank_move [OF leave_cancelled(1), of s k Exited] by (simp add: outside_def)
next
  case (leave_closed s i)
  then show ?case using rank_move [OF leave_closed(1), of s k Exited] by (simp add: outside_def)
next
  case (take s i p ps)
  then show ?case using rank_move [OF take(1), of "s\<lparr>sv_chan := ps\<rparr>" k "Taken p"] by (simp add: outside_def)
next
  case (handoff s i p)
  then show ?case
    using workers_sum_move [OF handoff(1), of "s\<lparr>sv_reader := Enqueued\<rparr>" "worker_rank k" "Taken p"]
    by (auto simp: rank_def outside_def)
next
  case (depth_down s i p)
  then show ?case
    using rank_move [OF depth_down(1), of "s\<lparr>sv_queue_depth := sv_queue_depth s - 1\<rparr>" k "Parsing p"]
    by (simp add: outside_def job_bound_def)
next
  case (parse_failed s i p now er)
  then show ?case using rank_move [OF parse_failed(1), of s k "Counting [ParseFailed]"]
    by (simp add: outside_def job_bound_def)
next
  case (parsed s i p now e)
  then show ?case using rank_move [OF parsed(1), of s k "Handling e"] by (simp add: outside_def job_bound_def)
next
  case (start_failed s i e)
  then show ?case
    using rank_move [OF start_failed(1), of s k "Counting (result_counters (zero_outcome, Some (Errorf ''engine state not initialized'' [])))"]
      result_counters_length [of "(zero_outcome, Some (Errorf ''engine state not initialized'' []))"]
    by (simp add: outside_def job_bound_def)
next
  case (start_handler s i e st pc w)
  then have "steps_left pc \<le> a + 5"
    using handler_start_left [of "se_match E" st "start_work (en_dedup (sv_engine s)) e"] by (fastforce simp: few_alarms_def)
  with start_handler show ?case using rank_move [OF start_handler(1), of s k "Running st pc w"]
    by (simp add: outside_def job_bound_def)
next
  case (advance s i st pc w sent pc' w')
  let ?w = "w\<lparr>wk_store := en_dedup (sv_engine s)\<rparr>"
  have "steps_left pc' < steps_left pc"
    using handler_step_left [OF advance(2), of "se_match E" "\<lambda>_ _. sent" st ?w] advance(3) by simp
  then show ?case
    using rank_move [OF advance(1), of "s\<lparr>sv_engine := (sv_engine s)\<lparr>en_dedup := wk_store w'\<rparr>\<rparr>" k "Running st pc' w'"]
    by simp
next
  case (answered_early s i e st res w)
  then show ?case
    using rank_move [OF answered_early(1), of s k "Counting (result_counters res)"] result_counters_length [of res]
    by (auto simp: outside_def job_bound_def)
next
  case (answered s i st pc w sent res w')
  have "0 < steps_left pc" using steps_left_answer [of pc] answered(2) by blast
  with answered show ?case
    using rank_move [OF answered(1), of "s\<lparr>sv_engine := (sv_engine s)\<lparr>en_dedup := wk_store w'\<rparr>\<rparr>" k "Counting (result_counters res)"]
      result_counters_length [of res] by (auto simp: outside_def simp del: steps_left_answer)
next
  case (count s i c cs)
  then show ?case
    using rank_move [OF count(1), of "s\<lparr>sv_stats := bump c (sv_stats s)\<rparr>" k "Counting cs"] by (simp add: outside_def)
next
  case (counted s i)
  then show ?case using rank_move [OF counted(1), of s k Waiting] by (simp add: outside_def)
qed (auto simp: rank_def outside_def)

definition own_steps :: "label list \<Rightarrow> nat" where
  "own_steps tr = length (filter (\<lambda>l. \<not> outside l) tr)"

definition ticks :: "label list \<Rightarrow> nat" where
  "ticks tr = length (filter (\<lambda>l. l \<in> range Tick) tr)"

lemma run_rank:
  "server_run E s tr s' \<Longrightarrow> sv_cancelled s \<Longrightarrow> few_alarms a (sv_engine s) \<Longrightarrow> \<forall>l \<in> set tr. loads_few a l \<Longrightarrow>
   sv_cancelled s' \<and> few_alarms a (sv_engine s') \<and>
   rank (job_bound a) s' + own_steps tr \<le> rank (job_bound a) s + (job_bound a + 4) * ticks tr"
proof (induction rule: run.induct)
  case (run_snoc s tr s1 l s2)
  then have s1: "sv_cancelled s1" "few_alarms a (sv_engine s1)"
    and r: "rank (job_bound a) s1 + own_steps tr \<le> rank (job_bound a) s + (job_bound a + 4) * ticks tr" by simp_all
  have "(job_bound a + 4) * ticks (tr @ [l]) = (job_bound a + 4) * ticks tr + (job_bound a + 4) * of_bool (l \<in> range Tick)"
    by (simp add: ticks_def)
  moreover have "own_steps (tr @ [l]) = own_steps tr + of_bool (\<not> outside l)" by (simp add: own_steps_def)
  ultimately show ?case
    using step_rank [OF run_snoc(2) s1 refl] step_cancelled [OF run_snoc(2) s1(1)] r
      step_few [OF run_snoc(2) _ s1(2)] run_snoc.prems by simp
qed (simp add: own_steps_def ticks_def)

lemma sum_list_bound: "(\<And>x. x \<in> set xs \<Longrightarrow> f x \<le> (b :: nat)) \<Longrightarrow> sum_list (map f xs) \<le> b * length xs"
  by (induction xs) (auto intro: add_mono)

text \<open>A decoder that was built by \<open>New\<close> is always in place, so no packet makes the process panic.\<close>

definition engine_ready :: "'t gosnmp_decoder engine \<Rightarrow> bool" where
  "engine_ready en \<longleftrightarrow>
     (\<exists>st d. en_state en = Some st \<and> rs_decoder st = Some d \<and> dec_cfg d \<noteq> None)"

lemma New_decoder_cfg: "New_decoder lib cfg = Inr d \<Longrightarrow> dec_cfg d \<noteq> None"
  by (auto simp: New_decoder_def Reload_decoder_def Let_def split: if_splits sum.splits prod.splits)

lemma step_ready: "server_step E s l s' \<Longrightarrow> engine_ready (sv_engine s) \<Longrightarrow> engine_ready (sv_engine s')"
  by (induction rule: server_step.induct)
     (auto simp: engine_ready_def Reload_engine_def engine_Cleanup_def split_beta dest: New_decoder_cfg)

interpretation ready: stable "server_step E" "\<lambda>_. True" "\<lambda>s. engine_ready (sv_engine s)" for E
  by unfold_locales (rule step_ready)

lemma parse_ready:
  assumes "engine_ready en" "parse_packet lib en now p = Inl er"
  shows "\<not> is_panic er"
proof -
  obtain st d where "en_state en = Some st" "rs_decoder st = Some d" "dec_cfg d \<noteq> None"
    using assms(1) by (auto simp: engine_ready_def)
  with assms(2) gosnmp.decode_no_panic [of d lib] show ?thesis
    by (auto simp: parse_packet_def Parse_def) (metis no_panic_simps(2))
qed

lemma advanced: "server_step E s (step_label pc e) s' \<Longrightarrow> \<exists>l s'. server_step E s l s' \<and> \<not> outside l"
  by (intro exI conjI) (assumption, simp)

lemma worker_progress:
  assumes "worker_at s i pc" "pc \<noteq> Exited" "sv_cancelled s" "engine_ready (sv_engine s)" "tasks_ok s"
  shows "\<exists>l s'. server_step E s l s' \<and> \<not> outside l"
proof (cases pc)
  case Waiting
  with assms server_step.leave_cancelled [of s i E] show ?thesis by (auto simp: outside_def)
next
  case (Taken p)
  with assms server_step.depth_down [of s i p E] show ?thesis by (auto simp: outside_def)
next
  case (Parsing p)
  show ?thesis
  proof (cases "parse_packet (se_lib E) (sv_engine s) 0 p")
    case (Inl er)
    with Parsing assms server_step.parse_failed [of s i p E 0 er] parse_ready [OF assms(4) Inl]
    show ?thesis by (auto simp: outside_def)
  next
    case (Inr e)
    with Parsing assms server_step.parsed [of s i p E 0 e] show ?thesis by (auto simp: outside_def)
  qed
next
  case (Handling e)
  obtain st where st: "en_state (sv_engine s) = Some st" using assms(4) by (auto simp: engine_ready_def)
  obtain pc' w where "handler_start (se_match E) st (start_work (en_dedup (sv_engine s)) e) = (pc', w)" by fastforce
  with Handling assms st server_step.start_handler [of s i e st E pc' w] server_step.answered_early [of s i e st E _ w]
  show ?thesis by (cases pc') (auto simp: outside_def)
next
  case (Running st pc' w)
  then have run: "\<not> is_answer pc'" using worker_task [OF assms(5)] assms(1) by blast
  obtain p v where step:
    "handler_step (se_match E) (\<lambda>_ _. None) st (pc', w\<lparr>wk_store := en_dedup (sv_engine s)\<rparr>) = (p, v)" by fastforce
  show ?thesis
  proof (cases p)
    case (Answer res)
    with run step Running assms(1) server_step.answered [of s i st pc' w E None res v] show ?thesis by (auto simp: outside_def)
  qed (use run step Running assms(1) server_step.advance [of s i st pc' w E None p v] in \<open>auto dest: advanced\<close>)
next
  case (Counting cs)
  have w: "worker_at s i (Counting cs)" using assms(1) Counting by simp
  show ?thesis
  proof (cases cs)
    case Nil
    with w server_step.counted [of s i E] show ?thesis by (auto simp: outside_def)
  next
    case (Cons c ds)
    with w server_step.count [of s i c ds E] show ?thesis by (auto simp: outside_def)
  qed
qed (use assms in simp)

lemma reader_progress:
  assumes "sv_cancelled s" "\<forall>r. sv_reader s \<noteq> Finished r" "\<forall>r. sv_reader s \<noteq> Returning r"
  shows "\<exists>l s'. server_step E s l s' \<and> \<not> outside l"
proof (cases "sv_reader s")
  case Polling
  with assms server_step.stop [of s E] show ?thesis by (auto simp: outside_def)
next
  case Reading
  with server_step.timeout [of s E] show ?thesis by (auto simp: outside_def)
next
  case (Holding p)
  with server_step.count_received [of s p E] show ?thesis by (auto simp: outside_def)
next
  case (Offering p)
  with server_step.enqueue [of s p E] server_step.full [of s p E] show ?thesis
    by (cases "int (length (sv_chan s)) < sc_queue_size (sv_cfg s)") (auto simp: outside_def)
next
  case Enqueued
  with server_step.depth_up [of s E] show ?thesis by (auto simp: outside_def)
next
  case Dropping
  with server_step.count_dropped [of s E] show ?thesis by (auto simp: outside_def)
qed (use assms in auto)

lemma progress:
  assumes "sv_cancelled s" "engine_ready (sv_engine s)" "tasks_ok s" "\<forall>r. sv_reader s \<noteq> Finished r"
  shows "\<exists>l s'. server_step E s l s' \<and> \<not> outside l"
proof (cases "\<exists>r. sv_reader s = Returning r")
  case True
  then obtain r where r: "sv_reader s = Returning r" ..
  show ?thesis
  proof (cases "set (sv_workers s) \<subseteq> {Exited}")
    case True
    with r server_step.finish [of s r E] show ?thesis by (auto simp: outside_def)
  next
    case False
    then obtain pc where "pc \<in> set (sv_workers s)" and e: "pc \<noteq> Exited" by blast
    then obtain i where "worker_at s i pc" by (auto simp: worker_at_def in_set_conv_nth)
    with e assms show ?thesis by (blast intro: worker_progress)
  qed
next
  case False
  with assms show ?thesis by (intro reader_progress) auto
qed

definition ranked :: "nat \<Rightarrow> 't server \<Rightarrow> bool" where
  "ranked k s \<longleftrightarrow> (\<forall>pc \<in> set (sv_workers s). worker_rank k pc \<le> k)"

lemma ranked_set: "ranked k s \<Longrightarrow> worker_rank k pc \<le> k \<Longrightarrow> ranked k (set_worker s i pc)"
  using set_update_subset_insert [of "sv_workers s" i pc] by (auto simp: ranked_def set_worker_def)

lemma ranked_frame [simp]:
  "ranked k (s\<lparr>sv_engine := en\<rparr>) = ranked k s" "ranked k (s\<lparr>sv_stats := st\<rparr>) = ranked k s"
  "ranked k (s\<lparr>sv_queue_depth := d\<rparr>) = ranked k s" "ranked k (s\<lparr>sv_cancelled := b\<rparr>) = ranked k s"
  "ranked k (s\<lparr>sv_chan := q\<rparr>) = ranked k s" "ranked k (s\<lparr>sv_closed := b\<rparr>) = ranked k s"
  "ranked k (s\<lparr>sv_reader := r\<rparr>) = ranked k s"
  by (simp_all add: ranked_def)

lemma ranked_worker: "ranked k s \<Longrightarrow> worker_at s i pc \<Longrightarrow> worker_rank k pc \<le> k"
  by (auto simp: ranked_def dest: worker_at_mem)

lemma step_ranked:
  assumes "server_step E s l s'" "few_alarms a (sv_engine s)" "ranked (job_bound a) s"
  shows "ranked (job_bound a) s'"
  using assms
proof (induction rule: server_step.induct)
  case (count s i c cs)
  then show ?case using ranked_worker [OF _ count(1)] by (fastforce intro: ranked_set)
next
  case (start_failed s i e)
  then show ?case
    using result_counters_length [of "(zero_outcome, Some (Errorf ''engine state not initialized'' []))"]
    by (simp add: ranked_set job_bound_def)
next
  case (start_handler s i e st pc w)
  then have "steps_left pc \<le> a + 5"
    using handler_start_left [of "se_match E" st "start_work (en_dedup (sv_engine s)) e"] by (fastforce simp: few_alarms_def)
  with start_handler show ?case by (simp add: ranked_set job_bound_def)
next
  case (advance s i st pc w sent pc' w')
  let ?w = "w\<lparr>wk_store := en_dedup (sv_engine s)\<rparr>"
  have "steps_left pc' < steps_left pc"
    using handler_step_left [OF advance(2), of "se_match E" "\<lambda>_ _. sent" st ?w] advance(3) by simp
  with advance ranked_worker [OF _ advance(1)] show ?case by (fastforce intro: ranked_set)
next
  case (answered_early s i e st res w)
  then show ?case using result_counters_length [of res] by (simp add: ranked_set job_bound_def)
next
  case (answered s i st pc w sent res w')
  then show ?case using result_counters_length [of res] by (simp add: ranked_set job_bound_def)
qed (simp_all add: ranked_set job_bound_def)

interpretation ranked: stable "server_step E" "loads_few a"
  "\<lambda>s. few_alarms a (sv_engine s) \<and> ranked (job_bound a) s" for E a
  by unfold_locales (auto intro: step_ranked step_few)

lemma started_ranked: "started s \<Longrightarrow> ranked (job_bound a) s"
  by (auto simp: started_def start_run_def New_server_def ranked_def job_bound_def split: if_splits)

lemma rank_bound:
  assumes "ranked k s" "server_inv s"
  shows "rank k s \<le> k + 6 + k * (nat (sc_queue_size (sv_cfg s)) + length (sv_workers s))"
proof -
  have "reader_rank k (sv_reader s) \<le> k + 6" by (cases "sv_reader s") auto
  moreover have "k * length (sv_chan s) \<le> k * nat (sc_queue_size (sv_cfg s))"
    using assms(2) unfolding server_inv_def by (intro mult_le_mono2) linarith
  moreover have "workers_sum (worker_rank k) s \<le> k * length (sv_workers s)"
    using assms(1) by (auto simp: workers_sum_def ranked_def intro: sum_list_bound)
  ultimately show ?thesis unfolding rank_def distrib_left by linarith
qed

section \<open>A failed read\<close>

text \<open>As long as nobody cancels the context, workers stay and the channel is open or the loop goes on.\<close>

definition attended :: "'t server \<Rightarrow> bool" where
  "attended s \<longleftrightarrow> \<not> sv_cancelled s \<and> \<not> sv_closed s \<and> Exited \<notin> set (sv_workers s) \<and> sv_workers s \<noteq> []"

lemma attended_set: "attended s \<Longrightarrow> pc \<noteq> Exited \<Longrightarrow> attended (set_worker s i pc)"
  using set_update_subset_insert [of "sv_workers s" i pc] by (auto simp: attended_def set_worker_def)

lemma attended_frame [simp]:
  "attended (s\<lparr>sv_engine := en\<rparr>) = attended s" "attended (s\<lparr>sv_stats := st\<rparr>) = attended s"
  "attended (s\<lparr>sv_queue_depth := d\<rparr>) = attended s" "attended (s\<lparr>sv_chan := q\<rparr>) = attended s"
  "attended (s\<lparr>sv_reader := r\<rparr>) = attended s"
  by (simp_all add: attended_def)

lemma step_attended: "server_step E s l s' \<Longrightarrow> l \<noteq> Cancel \<Longrightarrow> attended s \<Longrightarrow> attended s'"
proof (induction rule: server_step.induct)
  case (leave_cancelled s i)
  then show ?case by (simp add: attended_def)
next
  case (leave_closed s i)
  then show ?case by (simp add: attended_def)
next
  case (stop s)
  then show ?case by (simp add: attended_def)
qed (simp_all add: attended_set)

interpretation attended: stable "server_step E" "\<lambda>l. l \<noteq> Cancel" attended for E
  by unfold_locales (rule step_attended)

lemma step_blocked:
  "server_step E s l s' \<Longrightarrow> attended s \<Longrightarrow> sv_reader s = Returning r \<Longrightarrow> sv_reader s' = Returning r"
proof (induction rule: server_step.induct)
  case (finish s r')
  then show ?case by (cases "sv_workers s") (auto simp: attended_def)
qed (auto simp: attended_def)

interpretation blocked: stable "server_step E" "\<lambda>l. l \<noteq> Cancel" "\<lambda>s. attended s \<and> sv_reader s = Returning r" for E r
  by unfold_locales (auto intro: step_attended step_blocked)

lemma started_attended: "started s \<Longrightarrow> 0 < sc_worker_count (sv_cfg s) \<Longrightarrow> attended s"
  by (auto simp: started_def start_run_def New_server_def attended_def split: if_splits)

section \<open>A sample run\<close>

definition sample_packet :: queued_packet where
  "sample_packet = \<lparr>pk_payload = [48], pk_remote = \<lparr>ua_ip = [10, 0, 0, 1], ua_port = 5000, ua_zone = []\<rparr>\<rparr>"

definition sample_server :: "(string \<times> usm_params) list server" where
  "sample_server =
     (New_server (ac_server sample_config)
       (New_engine sample_config [sample_target] (Some \<lparr>dec_g = Some None, dec_cfg = Some sample_config\<rparr>) sample_logger None) sample_logger)\<lparr>sv_workers := [Waiting]\<rparr>"

definition sample_senv :: "(string \<times> usm_params) list server_env" where
  "sample_senv = \<lparr>se_lib = sample_lib, se_match = sample_env\<rparr>"

lemma sample_start_run:
  "start_run (New_server (ac_server sample_config)
     (New_engine sample_config [sample_target] (Some \<lparr>dec_g = Some None, dec_cfg = Some sample_config\<rparr>) sample_logger None) sample_logger) = Inr sample_server"
proof -
  have "ttl_duration 30 = 30000000000" "ttl_duration 60 = 60000000000"
    by (simp_all add: ttl_duration_exact max_ttl_seconds_def)
  then show ?thesis
    by (simp add: start_run_def New_server_def sample_server_def sample_config_def max_chan_size_def max_alloc_def)
qed

lemma sample_started: "started sample_server"
  using sample_start_run by (auto simp: started_def)

lemma sample_server_simps [simp]:
  "sv_cfg sample_server = ac_server sample_config" "sv_reader sample_server = Polling"
  "sv_workers sample_server = [Waiting]" "sv_chan sample_server = []" "\<not> sv_cancelled sample_server"
  "sc_queue_size (ac_server sample_config) = 8" "sc_max_datagram_size (ac_server sample_config) = 8192"
  "sc_worker_count (ac_server sample_config) = 1" "sv_stats sample_server c = 0" "sv_queue_depth sample_server = 0"
  by (simp_all add: sample_server_def New_server_def sample_config_def)

lemma sample_ready: "engine_ready (sv_engine sample_server)"
  by (simp add: sample_server_def New_server_def New_engine_def engine_ready_def)

lemma sample_alarms: "few_alarms 1 (sv_engine sample_server)"
  by (simp add: sample_server_def New_server_def New_engine_def few_alarms_def sample_config_def)

text \<open>One datagram is read, queued and taken by the worker; a shorter run ends with a failed read.\<close>

definition sample_trace :: "label list" where
  "sample_trace = [Tau, Recv sample_packet, Tau, Enqueue sample_packet, Take sample_packet]"

lemma sample_run:
  "\<exists>s'. server_run sample_senv sample_server sample_trace s' \<and> sv_chan s' = [] \<and> sv_reader s' = Enqueued \<and>
     sv_workers s' = [Taken sample_packet] \<and> sv_queue_depth s' = 0"
proof -
  let ?s1 = "sample_server\<lparr>sv_reader := Reading\<rparr>"
  let ?s2 = "?s1\<lparr>sv_reader := Holding sample_packet\<rparr>"
  let ?s3 = "?s2\<lparr>sv_stats := bump Received (sv_stats ?s2), sv_reader := Offering sample_packet\<rparr>"
  let ?s4 = "?s3\<lparr>sv_chan := sv_chan ?s3 @ [sample_packet], sv_reader := Enqueued\<rparr>"
  let ?s5 = "set_worker (?s4\<lparr>sv_chan := []\<rparr>) 0 (Taken sample_packet)"
  have "server_step sample_senv sample_server Tau ?s1"
    by (rule server_step.pass) simp_all
  moreover have "server_step sample_senv ?s1 (Recv sample_packet) ?s2"
    by (rule server_step.recv) (simp_all add: sample_packet_def)
  moreover have "server_step sample_senv ?s2 Tau ?s3"
    by (rule server_step.count_received) simp
  moreover have "server_step sample_senv ?s3 (Enqueue sample_packet) ?s4"
    by (rule server_step.enqueue) simp_all
  moreover have "server_step sample_senv ?s4 (Take sample_packet) ?s5"
    by (rule server_step.take) (simp_all add: worker_at_def)
  ultimately have "server_run sample_senv sample_server sample_trace ?s5"
    unfolding sample_trace_def by (blast intro: run_cons run_nil)
  then show ?thesis by (intro exI [of _ ?s5]) (simp add: set_worker_def)
qed

lemma failed_read_run:
  "server_run sample_senv sample_server [Tau, Tau] (sample_server\<lparr>sv_reader := Returning (Some (EnvError ''read''))\<rparr>)"
proof -
  let ?s1 = "sample_server\<lparr>sv_reader := Reading\<rparr>"
  have "server_step sample_senv sample_server Tau ?s1"
    by (rule server_step.pass) simp_all
  moreover have "server_step sample_senv ?s1 Tau (?s1\<lparr>sv_reader := Returning (if sv_cancelled ?s1 then None else Some (EnvError ''read''))\<rparr>)"
    by (rule server_step.read_error) simp
  ultimately show ?thesis
    using run_cons [OF _ run_one] by simp
qed

section \<open>Properties\<close>

text \<open>
  C8. Under every interleaving of the reader and the workers, reloads, ticks and cancellation: a
  datagram that was read is held by one goroutine or by the queue, or its journey has ended in exactly
  one of a full queue, a failed decoding or the engine; what is handed to the forwarder is a
  sub-multiset of the datagrams read, each unchanged; and workers take packets in the order in which
  the reader queued them.
\<close>

theorem datagrams_conserved:
  assumes "started s" "server_run E s tr s'"
  shows "mset (trace_of read_of tr) = held s' + mset (trace_of ended_of tr) \<and>
    mset (map fst (trace_of sent_of tr)) \<subseteq># mset (trace_of read_of tr) \<and>
    trace_of enqueued tr = trace_of taken tr @ sv_chan s'"
proof -
  have "held s = {#}" "sv_chan s = []"
    using assms(1) by (auto simp: started_def start_run_def New_server_def held_def workers_sum_def
        sum_list_zeros split: if_splits)
  then have read: "mset (trace_of read_of tr) = held s' + mset (trace_of ended_of tr)"
    and fifo: "trace_of enqueued tr = trace_of taken tr @ sv_chan s'"
    using run_conserves [OF assms(2)] run_fifo [OF assms(2)] by simp_all
  have ok: "tasks_ok s" using started_inv [OF assms(1)] by (simp add: server_inv_def)
  have "mset (trace_of ended_of tr) \<subseteq># mset (trace_of read_of tr)"
    unfolding read by (rule mset_subset_eq_add_right)
  with run_sends [OF assms(2) ok] have "mset (map fst (trace_of sent_of tr)) \<subseteq># mset (trace_of read_of tr)"
    by (rule subset_mset.order_trans)
  with read fifo show ?thesis by blast
qed

lemma datagrams_conserved_witness:
  "\<exists>s'. server_run sample_senv sample_server sample_trace s' \<and> held s' = {#[48]#}"
proof -
  obtain s' where s': "server_run sample_senv sample_server sample_trace s'" using sample_run by blast
  have "held s' = {#[48]#}"
    using datagrams_conserved [OF sample_started s']
    by (simp add: sample_trace_def trace_of_def sample_packet_def)
  with s' show ?thesis by blast
qed

text \<open>
  C9. The counters add up in every reachable state, modulo the \<open>2^64\<close> of their width: received is
  queue-dropped plus the counters of the seven ways a packet is settled (parse failed, handle failed,
  filtered, duplicate, pass-through, alarm, dedup disabled) plus the packets in the queue and in the
  hands of the goroutines; with nothing in flight they balance exactly.
\<close>

theorem server_accounts:
  assumes "started s" "server_run E s tr s'"
  shows "sv_stats s' Received =
    sv_stats s' QueueDropped + sum_list (map (sv_stats s') settling) + of_nat (in_flight s')"
  using run_inv [OF assms(2) started_inv [OF assms(1)]]
  by (simp add: server_inv_def accounted_def settled_sum_def)

lemma server_accounts_witness:
  "\<exists>s'. server_run sample_senv sample_server sample_trace s' \<and> sv_stats s' Received =
    sv_stats s' QueueDropped + sum_list (map (sv_stats s') settling) + 1"
proof -
  obtain s' where s': "server_run sample_senv sample_server sample_trace s'" "in_flight s' = 1"
    using sample_run by (auto simp: in_flight_def workers_sum_def)
  with server_accounts [OF sample_started s'(1)] show ?thesis by auto
qed

lemma taken_le_workers: "workers_sum taken_load s \<le> length (sv_workers s)"
proof -
  have "sum_list (map taken_load (sv_workers s)) \<le> 1 * length (sv_workers s)"
  proof (rule sum_list_bound)
    fix pc show "taken_load pc \<le> 1" by (cases pc) simp_all
  qed
  then show ?thesis by (simp add: workers_sum_def)
qed

lemma depth_signed:
  assumes "depth_exact s" "int (length (sv_chan s) + length (sv_workers s)) < max_int64"
  shows "sint (sv_queue_depth s) =
    int (length (sv_chan s)) + int (workers_sum taken_load s) - of_bool (sv_reader s = Enqueued)"
    (is "_ = ?d")
proof -
  have "sv_queue_depth s = word_of_int ?d"
    using assms(1) by (simp add: depth_exact_def algebra_simps)
  moreover have "in_int64 ?d"
    using assms(2) taken_le_workers [of s] by (simp add: in_int64_def min_int64_def max_int64_def)
  ultimately show ?thesis by (simp only: sint_in_range)
qed

text \<open>
  C33. The queue never exceeds its configured size, and the queue-depth gauge is its true length, plus the
  workers that have taken a packet and not yet counted it out, less one while the reader has queued a
  packet and not yet counted it in: so it is never below -1 nor above the capacity plus the number of
  workers, and exact whenever no goroutine is in between.
\<close>

theorem queue_depth_bounds:
  assumes "started s" "server_run E s tr s'"
    and "sc_queue_size (sv_cfg s) + int (length (sv_workers s)) < max_int64"
  shows "int (length (sv_chan s')) \<le> sc_queue_size (sv_cfg s) \<and>
    sn_queue_depth (MetricsSnapshot s') =
      int (length (sv_chan s')) + int (workers_sum taken_load s') - of_bool (sv_reader s' = Enqueued) \<and>
    -1 \<le> sn_queue_depth (MetricsSnapshot s') \<and>
    sn_queue_depth (MetricsSnapshot s') \<le> sc_queue_size (sv_cfg s) + int (length (sv_workers s)) \<and>
    (sv_reader s' \<noteq> Enqueued \<and> workers_sum taken_load s' = 0 \<longrightarrow>
       sn_queue_depth (MetricsSnapshot s') = int (length (sv_chan s')))"
proof -
  note inv = run_inv [OF assms(2) started_inv [OF assms(1)]]
  have "0 \<le> sc_queue_size (sv_cfg s)"
    using assms(1) by (auto simp: started_def start_run_def New_server_def split: if_splits)
  then have chan: "int (length (sv_chan s')) \<le> sc_queue_size (sv_cfg s)"
    using inv run_frame [OF assms(2)] by (simp add: server_inv_def)
  then have "sint (sv_queue_depth s') =
      int (length (sv_chan s')) + int (workers_sum taken_load s') - of_bool (sv_reader s' = Enqueued)"
    using inv run_frame [OF assms(2)] assms(3) by (intro depth_signed) (simp_all add: server_inv_def)
  with chan taken_le_workers [of s'] run_frame [OF assms(2)] show ?thesis
    by (simp add: MetricsSnapshot_def of_bool_def)
qed

lemma queue_depth_bounds_witness:
  "\<exists>s'. server_run sample_senv sample_server sample_trace s' \<and> sn_queue_depth (MetricsSnapshot s') = 0"
proof -
  obtain s' where s': "server_run sample_senv sample_server sample_trace s'" "sv_chan s' = []" "sv_reader s' = Enqueued"
    "workers_sum taken_load s' = 1"
    using sample_run by (auto simp: workers_sum_def)
  then show ?thesis
    using queue_depth_bounds [OF sample_started s'(1)] by (auto simp: max_int64_def)
qed

text \<open>
  C31. The metrics of the forwarder are exact: in every reachable state the forwarded counter, with the
  increments that workers have still to make, is the number of datagrams the forwarder accepted, and
  the forward-failed counter the number it refused (modulo \<open>2^64\<close>).
\<close>

theorem forward_metrics_exact:
  assumes "started s" "server_run E s tr s'"
  shows "sv_stats s' Forwarded + of_nat (workers_sum (pending Forwarded) s') = of_nat (delivered tr) \<and>
    sv_stats s' ForwardFailed + of_nat (workers_sum (pending ForwardFailed) s') = of_nat (undelivered tr)"
proof -
  have "metric_total c s = 0" for c
    using assms(1) by (auto simp: started_def start_run_def New_server_def metric_total_def workers_sum_def
        sum_list_zeros split: if_splits)
  with run_metric [OF assms(2)] started_inv [OF assms(1)] show ?thesis by (simp add: metric_total_def server_inv_def)
qed

lemma forward_metrics_exact_witness:
  "\<exists>s'. server_run sample_senv sample_server sample_trace s' \<and> sv_stats s' Forwarded = 0"
proof -
  obtain s' where s': "server_run sample_senv sample_server sample_trace s'" "workers_sum (pending Forwarded) s' = 0"
    using sample_run by (auto simp: workers_sum_def)
  with forward_metrics_exact [OF sample_started s'(1)] show ?thesis
    by (auto simp: delivered_def sample_trace_def trace_of_def)
qed

text \<open>
  C23. A cancelled server stops under every schedule: with at most \<open>a\<close> alarms in the configurations it
  loads, from any reachable state with the context cancelled it makes at most \<open>19 + a\<close> steps, plus
  \<open>13 + a\<close> for every place of the queue and every worker, plus \<open>17 + a\<close> for every ticker that fires, and
  as long as \<open>Run\<close> has not returned one of its goroutines can make a step.
\<close>

theorem shutdown_terminates:
  assumes "started s0" "engine_ready (sv_engine s0)" "few_alarms a (sv_engine s0)"
    and "server_run E s0 tr0 s" "sv_cancelled s" "server_run E s tr s'" "\<forall>l \<in> set (tr0 @ tr). loads_few a l"
  shows "own_steps tr \<le> 19 + a + (13 + a) * (nat (sc_queue_size (sv_cfg s)) + length (sv_workers s)) + (17 + a) * ticks tr \<and>
    ((\<forall>l s''. server_step E s' l s'' \<longrightarrow> outside l) \<longrightarrow> (\<exists>r. sv_reader s' = Finished r))"
proof -
  have s: "few_alarms a (sv_engine s)" "ranked (job_bound a) s"
    using ranked.run_stable [OF assms(4), of a] started_ranked [OF assms(1)] assms(3,7) by simp_all
  then have "rank (job_bound a) s \<le>
      job_bound a + 6 + job_bound a * (nat (sc_queue_size (sv_cfg s)) + length (sv_workers s))"
    using run_inv [OF assms(4) started_inv [OF assms(1)]] by (intro rank_bound) simp_all
  moreover have "sv_cancelled s'"
    "rank (job_bound a) s' + own_steps tr \<le> rank (job_bound a) s + (job_bound a + 4) * ticks tr"
    using run_rank [OF assms(6,5) s(1)] assms(7) by simp_all
  moreover have "engine_ready (sv_engine s')"
    using ready.run_stable [OF assms(6)] ready.run_stable [OF assms(4)] assms(2) by simp
  moreover have "tasks_ok s'"
    using run_inv [OF run_append [OF assms(6,4)] started_inv [OF assms(1)]] by (simp add: server_inv_def)
  ultimately show ?thesis using progress [of s' E] by (fastforce simp: job_bound_def add.commute)
qed

lemma shutdown_terminates_witness:
  "\<exists>s. server_run sample_senv sample_server [Cancel] s \<and>
     (\<forall>tr s'. server_run sample_senv s tr s' \<and> (\<forall>cfg. Reload cfg \<notin> set tr) \<longrightarrow>
        own_steps tr \<le> 146 + 18 * ticks tr)"
proof -
  have r: "server_run sample_senv sample_server [Cancel] (sample_server\<lparr>sv_cancelled := True\<rparr>)"
    by (rule run_one, rule server_step.cancel)
  show ?thesis
  proof (intro exI conjI allI impI; (elim conjE)?)
    fix tr s' assume run: "server_run sample_senv (sample_server\<lparr>sv_cancelled := True\<rparr>) tr s'"
      and no: "\<forall>cfg. Reload cfg \<notin> set tr"
    have "loads_few 1 l" if "l \<in> set tr" for l using no that by (cases l) auto
    then have "\<forall>l \<in> set ([Cancel] @ tr). loads_few 1 l" by simp
    from shutdown_terminates [OF sample_started sample_ready sample_alarms r _ run this]
    show "own_steps tr \<le> 146 + 18 * ticks tr" by simp
  qed (rule r)
qed

text \<open>
  C34. A read that fails for another reason than its deadline, with nobody cancelling the context,
  blocks the server for good: the loop returns without closing the queue, the workers wait on it
  and \<open>Run\<close> waits for the workers, so it never returns its error.
\<close>

theorem read_error_blocks:
  assumes "started s0" "0 < sc_worker_count (sv_cfg s0)" "server_run E s0 tr s" "Cancel \<notin> set tr"
    and "sv_reader s = Returning (Some er)" "server_run E s tr' s'" "Cancel \<notin> set tr'"
  shows "sv_reader s' = Returning (Some er)"
proof -
  have "attended s"
    using attended.run_stable [OF assms(3)] assms(4) started_attended [OF assms(1,2)] by blast
  with blocked.run_stable [OF assms(6), of "Some er"] assms(5,7) show ?thesis by blast
qed

lemma read_error_blocks_witness:
  "\<exists>s. server_run sample_senv sample_server [Tau, Tau] s \<and>
     (\<forall>tr' s'. server_run sample_senv s tr' s' \<and> Cancel \<notin> set tr' \<longrightarrow>
        sv_reader s' = Returning (Some (EnvError ''read'')))"
  using read_error_blocks [OF sample_started _ failed_read_run] failed_read_run by (intro exI conjI) auto

end
