(* ===== verification/Metrics_Server.thy ===== *)
theory Metrics_Server
  imports Server_Runs
begin

text \<open>
  \<open>internal/metrics/server.go\<close>: the metrics endpoint. The Prometheus registry is the list of the
  collectors registered so far and the request multiplexer the list of its patterns, with the two
  documented behaviours the code meets: registering a name twice panics, and so does
  registering a pattern twice or a malformed one. Serving HTTP is left out.
\<close>

definition healthPath :: string where
  "healthPath = ''/healthz''"

text \<open>A collector: its name, its help text and how it reads a snapshot.\<close>

record collector =
  cl_name :: string
  cl_help :: string
  cl_read :: "metrics_snapshot \<Rightarrow> int"

definition MustRegister :: "collector \<Rightarrow> collector list \<Rightarrow> collector list res" where
  "MustRegister c reg =
     (if cl_name c \<in> cl_name ` set reg then Inl (Panic ''duplicate metrics collector registration attempted'')
      else Inr (reg @ [c]))"

fun register_all :: "collector list \<Rightarrow> collector list \<Rightarrow> collector list res" where
  "register_all [] reg = Inr reg"
| "register_all (c # cs) reg = rbind (MustRegister c reg) (register_all cs)"

text \<open>
  The conversion to \<open>float64\<close>: 53 bits of the magnitude are kept, the rest is rounded to the nearest,
  to the even one of two neighbours at the same distance. \<open>excess_bits\<close> counts the bits that do not fit,
  at most 11 of a 64-bit integer.
\<close>

fun excess_bits :: "nat \<Rightarrow> int \<Rightarrow> nat" where
  "excess_bits 0 a = 0"
| "excess_bits (Suc k) a = (if a < 2 ^ 53 then 0 else Suc (excess_bits k (a div 2)))"

definition round_to_even :: "int \<Rightarrow> nat \<Rightarrow> int" where
  "round_to_even a s =
     (let q = a div 2 ^ s; r = a mod 2 ^ s
      in (if 2 ^ s < 2 * r \<or> 2 * r = 2 ^ s \<and> odd q then q + 1 else q) * 2 ^ s)"

definition float64_of :: "int \<Rightarrow> int" where
  "float64_of n = sgn n * round_to_even \<bar>n\<bar> (excess_bits 11 \<bar>n\<bar>)"

text \<open>\<open>registerCounter\<close> and \<open>registerGauge\<close>: a counter is unsigned, a gauge may be negative.\<close>

definition counter_of :: "string \<Rightarrow> string \<Rightarrow> counter \<Rightarrow> collector" where
  "counter_of name help c = \<lparr>cl_name = name, cl_help = help, cl_read = (\<lambda>s. float64_of (uint (sn_counters s c)))\<rparr>"

definition gauge_of :: "string \<Rightarrow> string \<Rightarrow> (metrics_snapshot \<Rightarrow> int) \<Rightarrow> collector" where
  "gauge_of name help f = \<lparr>cl_name = name, cl_help = help, cl_read = f\<rparr>"

definition collectors :: "collector list" where
  "collectors =
     [counter_of ''snmptrap_relay_received_total'' ''Total UDP traps read by the relay.'' Received,
      counter_of ''snmptrap_relay_queue_dropped_total'' ''Total traps dropped because the internal queue was full.'' QueueDropped,
      counter_of ''snmptrap_relay_parse_failed_total'' ''Total traps that failed parsing.'' ParseFailed,
      counter_of ''snmptrap_relay_handle_failed_total'' ''Total traps that failed during handling after parsing.'' HandleFailed,
      counter_of ''snmptrap_relay_accepted_total'' ''Total accepted events.'' Accepted,
      counter_of ''snmptrap_relay_forwarded_total'' ''Total forwarded events.'' Forwarded,
      counter_of ''snmptrap_relay_filtered_total'' ''Total filtered events.'' Filtered,
      counter_of ''snmptrap_relay_duplicates_total'' ''Total duplicate events suppressed by deduplication.'' Duplicates,
      counter_of ''snmptrap_relay_pass_through_total'' ''Total pass-through events forwarded without matching an alarm.'' PassThrough,
      counter_of ''snmptrap_relay_alarms_total'' ''Total alarm events forwarded as first-seen alarms.'' Alarms,
      counter_of ''snmptrap_relay_dedup_disabled_total'' ''Total events forwarded with dedup disabled due to missing key fields.'' DedupDisabled,
      counter_of ''snmptrap_relay_forward_failed_total'' ''Total events whose forwarding failed.'' ForwardFailed,
      gauge_of ''snmptrap_relay_queue_depth'' ''Current number of events waiting in the internal queue.'' (\<lambda>s. float64_of (sn_queue_depth s)),
      gauge_of ''snmptrap_relay_queue_capacity'' ''Configured internal queue capacity.'' (\<lambda>s. float64_of (sn_queue_capacity s)),
      gauge_of ''snmptrap_relay_worker_count'' ''Configured worker count for trap processing.'' (\<lambda>s. float64_of (sn_worker_count s))]"

definition registerStats :: "collector list \<Rightarrow> collector list res" where
  "registerStats reg = register_all collectors reg"

text \<open>What a scrape reports: each collector reads a snapshot of its own.\<close>

definition scrape :: "collector list \<Rightarrow> metrics_snapshot \<Rightarrow> (string \<rightharpoonup> int)" where
  "scrape reg s = map_of (map (\<lambda>c. (cl_name c, cl_read c s)) reg)"

text \<open>\<open>mux.Handle\<close>; which patterns are malformed is a matter of \<open>net/http\<close>.\<close>

definition mux_handle :: "(string \<Rightarrow> bool) \<Rightarrow> string \<Rightarrow> string list \<Rightarrow> string list res" where
  "mux_handle malformed p mux =
     (if malformed p \<or> p \<in> set mux then Inl (Panic ''http: pattern'') else Inr (mux @ [p]))"

text \<open>A server is its configuration, its listener, its logger and what it serves; a nil server is \<open>None\<close>.\<close>

record metrics_server =
  ms_cfg :: metrics_config
  ms_listener :: handle
  ms_logger :: logger
  ms_registry :: "collector list"
  ms_mux :: "string list"

definition New_metrics ::
    "os_env \<Rightarrow> (string \<Rightarrow> bool) \<Rightarrow> metrics_config \<Rightarrow> logger \<Rightarrow> os \<Rightarrow> metrics_server res \<times> os" where
  "New_metrics E malformed cfg lg w =
     (case sys_open E (ListenTCP (JoinHostPort (mc_host cfg) (int_str (mc_port cfg)))) w of
        (Inl e, w1) \<Rightarrow> (Inl e, w1)
      | (Inr h, w1) \<Rightarrow>
          (rbind (registerStats []) (\<lambda>reg.
           rbind (mux_handle malformed (mc_path cfg) []) (\<lambda>mux.
           rbind (mux_handle malformed healthPath mux) (\<lambda>mux'.
           Inr \<lparr>ms_cfg = cfg, ms_listener = h, ms_logger = lg, ms_registry = reg, ms_mux = mux'\<rparr>))), w1))"

text \<open>\<open>http.Server.Close\<close> closes the listener; closing twice returns nil.\<close>

definition Close_metrics :: "os_env \<Rightarrow> metrics_server option \<Rightarrow> os \<Rightarrow> os" where
  "Close_metrics E m w =
     (case m of
        None \<Rightarrow> w
      | Some s \<Rightarrow> if ms_listener s \<in> set (os_open w) then snd (sys_close E (ms_listener s) w) else w)"

text \<open>The address the listener got is the library's.\<close>

definition Addr :: "(handle \<Rightarrow> string) \<Rightarrow> metrics_server option \<Rightarrow> string" where
  "Addr listener_addr m = (case m of None \<Rightarrow> [] | Some s \<Rightarrow> listener_addr (ms_listener s))"

definition DescribeConfig :: "metrics_config \<Rightarrow> string" where
  "DescribeConfig cfg = mc_host cfg @ '':'' @ int_str (mc_port cfg) @ mc_path cfg"

definition HealthPath :: string where
  "HealthPath = healthPath"

section \<open>Registration\<close>

lemma register_all_distinct:
  "distinct (map cl_name (reg @ cs)) \<Longrightarrow> register_all cs reg = Inr (reg @ cs)"
  by (induction cs arbitrary: reg) (auto simp: MustRegister_def)

text \<open>The names after their common prefix.\<close>

definition metric_names :: "string list" where
  "metric_names =
     [''received_total'', ''queue_dropped_total'', ''parse_failed_total'', ''handle_failed_total'', ''accepted_total'',
      ''forwarded_total'', ''filtered_total'', ''duplicates_total'', ''pass_through_total'', ''alarms_total'',
      ''dedup_disabled_total'', ''forward_failed_total'', ''queue_depth'', ''queue_capacity'', ''worker_count'']"

lemma metric_names_distinct: "distinct metric_names"
  by (simp add: metric_names_def)

lemma collector_names: "distinct (map cl_name collectors)"
proof -
  have "map cl_name collectors = map ((@) ''snmptrap_relay_'') metric_names"
    by (simp add: collectors_def counter_of_def gauge_of_def metric_names_def)
  moreover have "inj_on ((@) ''snmptrap_relay_'') (set metric_names)"
    by (rule inj_onI) (simp only: same_append_eq)
  ultimately show ?thesis using metric_names_distinct by (simp only: distinct_map simp_thms)
qed

lemma registerStats_all: "registerStats [] = Inr collectors"
  unfolding registerStats_def using register_all_distinct [of "[]" collectors] collector_names by simp

lemma scrape_collector: "c \<in> set collectors \<Longrightarrow> scrape collectors s (cl_name c) = Some (cl_read c s)"
proof -
  have "distinct (map fst (map (\<lambda>c. (cl_name c, cl_read c s)) collectors))"
    using collector_names by (simp add: o_def)
  then show "c \<in> set collectors \<Longrightarrow> scrape collectors s (cl_name c) = Some (cl_read c s)"
    unfolding scrape_def by (intro map_of_is_SomeI) auto
qed

text \<open>What is reported: the exact value up to 53 bits, and always one within a relative error of \<open>2 ^ -53\<close>.\<close>

lemma excess_bits_small: "a < 2 ^ 53 \<Longrightarrow> excess_bits k a = 0"
  by (cases k) simp_all

lemma excess_bits_large: "0 < excess_bits k a \<Longrightarrow> 2 ^ (52 + excess_bits k a) \<le> a"
proof (induction k arbitrary: a)
  case (Suc k)
  then have a: "2 ^ 53 \<le> a" "excess_bits (Suc k) a = Suc (excess_bits k (a div 2))" by (auto split: if_splits)
  show ?case
  proof (cases "excess_bits k (a div 2) = 0")
    case True
    with a show ?thesis by simp
  next
    case False
    with Suc.IH have "2 ^ (52 + excess_bits k (a div 2)) \<le> a div 2" by simp
    then have "2 * 2 ^ (52 + excess_bits k (a div 2)) \<le> a" by linarith
    then show ?thesis unfolding a(2) by (simp add: algebra_simps power_add)
  qed
qed simp

lemma round_to_even_near: "2 * \<bar>round_to_even a s - a\<bar> \<le> 2 ^ s"
proof -
  have q: "a = a div 2 ^ s * 2 ^ s + a mod 2 ^ s" by (rule div_mult_mod_eq [symmetric])
  have r: "0 \<le> a mod 2 ^ s" "a mod 2 ^ s < 2 ^ s" by simp_all
  have "round_to_even a s - a = - (a mod 2 ^ s) \<and> 2 * (a mod 2 ^ s) \<le> 2 ^ s \<or>
    round_to_even a s - a = 2 ^ s - a mod 2 ^ s \<and> 2 ^ s \<le> 2 * (a mod 2 ^ s)"
    using q by (auto simp: round_to_even_def Let_def algebra_simps)
  moreover have "2 * \<bar>x\<bar> \<le> p" if "0 \<le> k" "k < p" "x = - k \<and> 2 * k \<le> p \<or> x = p - k \<and> p \<le> 2 * k" for x k p :: int
    using that by linarith
  ultimately show ?thesis using r by blast
qed

lemma float64_of_exact: "\<bar>n\<bar> < 2 ^ 53 \<Longrightarrow> float64_of n = n"
  by (simp only: float64_of_def excess_bits_small) (simp add: round_to_even_def sgn_mult_abs)

lemma float64_of_near: "2 ^ 53 * \<bar>float64_of n - n\<bar> \<le> \<bar>n\<bar>"
proof (cases "excess_bits 11 \<bar>n\<bar> = 0")
  case True
  then show ?thesis by (simp add: float64_of_def round_to_even_def sgn_mult_abs)
next
  case False
  let ?s = "excess_bits 11 \<bar>n\<bar>" and ?r = "round_to_even \<bar>n\<bar> (excess_bits 11 \<bar>n\<bar>)"
  have "float64_of n - n = sgn n * (?r - \<bar>n\<bar>)"
    by (simp add: float64_of_def right_diff_distrib sgn_mult_abs)
  then have "\<bar>float64_of n - n\<bar> \<le> \<bar>?r - \<bar>n\<bar>\<bar>" by (simp add: abs_mult abs_sgn_eq)
  then have "2 ^ 53 * \<bar>float64_of n - n\<bar> \<le> 2 ^ 52 * (2 * \<bar>?r - \<bar>n\<bar>\<bar>)" by simp
  also have "\<dots> \<le> 2 ^ 52 * 2 ^ ?s" by (rule mult_left_mono [OF round_to_even_near]) simp
  also have "\<dots> = 2 ^ (52 + ?s)" by (simp only: power_add)
  also have "\<dots> \<le> \<bar>n\<bar>" using excess_bits_large False by blast
  finally show ?thesis .
qed

text \<open>After the listener is open, only the patterns can stop the construction, with a panic.\<close>

lemma New_metrics_opened:
  assumes "sys_open E (ListenTCP (JoinHostPort (mc_host cfg) (int_str (mc_port cfg)))) w = (Inr h, w1)"
  shows "New_metrics E malformed cfg lg w =
    (if malformed (mc_path cfg) \<or> malformed healthPath \<or> mc_path cfg = healthPath then Inl (Panic ''http: pattern'')
     else Inr \<lparr>ms_cfg = cfg, ms_listener = h, ms_logger = lg, ms_registry = collectors, ms_mux = [mc_path cfg, healthPath]\<rparr>, w1)"
  by (simp add: New_metrics_def assms registerStats_all mux_handle_def)

definition metrics_handles :: "metrics_server res \<Rightarrow> handle set" where
  "metrics_handles r = (case r of Inl _ \<Rightarrow> {} | Inr m \<Rightarrow> {ms_listener m})"

text \<open>A panic ends the process with the listener still open; otherwise a failure leaves nothing.\<close>

lemma New_metrics_result:
  assumes "New_metrics E malformed cfg lg w = (r, w')" "os_inv w"
  shows "(\<exists>e. r = Inl e \<and> is_panic e) \<or>
    opened w (metrics_handles r) w' \<and> (\<forall>m. r = Inr m \<longrightarrow> ms_cfg m = cfg \<and> ms_logger m = lg \<and> ms_registry m = collectors)"
proof -
  obtain x w1 where s: "sys_open E (ListenTCP (JoinHostPort (mc_host cfg) (int_str (mc_port cfg)))) w = (x, w1)"
    by fastforce
  note w1 = opened_open [OF assms(2) s]
  show ?thesis
  proof (cases x)
    case (Inl e)
    with w1 s assms(1) show ?thesis by (auto simp: New_metrics_def metrics_handles_def)
  next
    case (Inr h)
    with w1 s assms(1) New_metrics_opened [of E cfg w h w1 malformed lg] show ?thesis
      by (auto simp: metrics_handles_def split: if_splits)
  qed
qed

lemma Close_metrics_open [simp]:
  "set (os_open (Close_metrics E m w)) = set (os_open w) - ms_listener ` set_option m"
  "os_inv w \<Longrightarrow> os_inv (Close_metrics E m w)"
  "os_calls w \<le> os_calls (Close_metrics E m w)"
  by (auto simp: Close_metrics_def sys_close_open sys_close_inv split: option.splits)

end
