(* ===== verification/Relay_Main.thy ===== *)
theory Relay_Main
  imports Relay_Config Udp_Forward Logging_Conf Metrics_Server
begin

text \<open>
  \<open>cmd/snmptrap-relay/main.go\<close>: start-up, the check of a configuration, and the reload on SIGHUP, which
  replaces the logger, the alerts writer, the forwarder, the decoder and the metrics server of the
  running daemon. The functions thread the operating system's state, so that every open and close is
  seen. A panic ends the process and is the left value; the goroutine of the server is the subject of
  \<open>Relay_Server\<close>. Writing log records is left out, apart from the message of the record that ends a reload.
\<close>

section \<open>State\<close>

text \<open>The file system is read at a time, the number of calls made before.\<close>

record 't main_env =
  me_os :: os_env
  me_read :: "nat \<Rightarrow> string \<Rightarrow> bytes res"
  me_unmarshal :: "bytes \<Rightarrow> app_config res"
  me_lib :: "'t gosnmp_lib"
  me_malformed :: "string \<Rightarrow> bool"

text \<open>
  The local variables of \<open>run\<close> once the server runs, and the memory limit of the Go runtime. Of the server
  itself the socket and the logger are kept, which it is given at start-up and never loses.
\<close>

record 't daemon =
  dm_os :: os
  dm_logger :: logger
  dm_closer :: "handle option"
  dm_alerts :: "handle option"
  dm_forwarder :: "target list"
  dm_metrics :: "metrics_server option"
  dm_metrics_cfg :: metrics_config
  dm_socket :: handle
  dm_server_logger :: logger
  dm_engine :: "'t gosnmp_decoder engine"
  dm_memory_limit :: "int option"

definition load_config :: "'t main_env \<Rightarrow> string \<Rightarrow> os \<Rightarrow> app_config res" where
  "load_config M path w = Load (me_read M (os_calls w)) (me_unmarshal M) path"

text \<open>\<open>applyRuntimeConfig\<close>: its error and the limit in force afterwards.\<close>

definition applyRuntimeConfig :: "app_config \<Rightarrow> int option \<Rightarrow> err option \<times> int option" where
  "applyRuntimeConfig cfg limit =
     (let v = get_runtime_memory_limit (Some cfg) in
      if v = [] then (None, limit)
      else case ParseMemoryLimit v of
          Inl e \<Rightarrow> (Some e, limit)
        | Inr n \<Rightarrow> (None, Some n))"

section \<open>Reload\<close>

text \<open>Closing what a failing reload has opened: the forwarder, the alerts writer, the log file.\<close>

definition discard :: "os_env \<Rightarrow> target list \<Rightarrow> handle option \<Rightarrow> handle option \<Rightarrow> os \<Rightarrow> os" where
  "discard E ts alerts_h closer w = close_opt E closer (close_opt E alerts_h (snd (Close_forwarder E ts w)))"

text \<open>
  The metrics part: the server to use from now on or the error, what \<open>metricsServer\<close> holds then (a
  restored server after a failure that could be repaired), and the state of the system. A new server gets
  the new logger, a restored one the current logger.
\<close>

definition swap_metrics ::
    "'t main_env \<Rightarrow> metrics_config \<Rightarrow> metrics_config \<Rightarrow> logger \<Rightarrow> logger \<Rightarrow> metrics_server option \<Rightarrow> os \<Rightarrow>
     metrics_server option res \<times> metrics_server option \<times> os" where
  "swap_metrics M cur next next_lg lg old w =
     (if next = cur then (Inr old, old, w)
      else
        let w1 = Close_metrics (me_os M) old w in
        if \<not> mc_enabled next then (Inr None, old, w1)
        else case New_metrics (me_os M) (me_malformed M) next next_lg w1 of
            (Inr m, w2) \<Rightarrow> (Inr (Some m), old, w2)
          | (Inl e, w2) \<Rightarrow>
              if is_panic e then (Inl e, old, w2)
              else if mc_enabled cur
              then (case New_metrics (me_os M) (me_malformed M) cur lg w2 of
                      (Inr m, w3) \<Rightarrow> (Inl e, Some m, w3)
                    | (Inl e', w3) \<Rightarrow> (if is_panic e' then Inl e' else Inl e, old, w3))
              else (Inl e, old, w2))"

text \<open>The end of a successful reload: the engine and the variables are switched, the old resources closed.\<close>

definition install ::
    "'t main_env \<Rightarrow> app_config \<Rightarrow> log_resource \<Rightarrow> handle option \<Rightarrow> target list \<Rightarrow> 't gosnmp_decoder \<Rightarrow>
     metrics_server option \<Rightarrow> 't daemon \<Rightarrow> 't daemon" where
  "install M next lr alerts_h ts dec m d =
     (let w1 = close_opt (me_os M) (dm_closer d) (dm_os d);
          w2 = close_opt (me_os M) (dm_alerts d) w1;
          w3 = snd (Close_forwarder (me_os M) (dm_forwarder d) w2);
          w4 = (if dm_metrics d \<noteq> m then Close_metrics (me_os M) (dm_metrics d) w3 else w3)
      in d\<lparr>dm_os := w4, dm_logger := lr_logger lr, dm_closer := lr_closer lr, dm_alerts := alerts_h,
           dm_forwarder := ts, dm_metrics := m, dm_metrics_cfg := ac_metrics next,
           dm_engine := Reload_engine (dm_engine d) next ts (Some dec) (lr_logger lr) alerts_h\<rparr>)"

definition reload_metrics ::
    "'t main_env \<Rightarrow> app_config \<Rightarrow> log_resource \<Rightarrow> handle option \<Rightarrow> target list \<Rightarrow> 't gosnmp_decoder \<Rightarrow>
     't daemon \<Rightarrow> (string \<times> 't daemon) res" where
  "reload_metrics M next lr alerts_h ts dec d =
     (case swap_metrics M (dm_metrics_cfg d) (ac_metrics next) (lr_logger lr) (dm_logger d) (dm_metrics d) (dm_os d) of
        (Inl e, m, w) \<Rightarrow>
          if is_panic e then Inl e
          else Inr (''metrics_reload_failed'',
                    d\<lparr>dm_os := discard (me_os M) ts alerts_h (lr_closer lr) w, dm_metrics := m\<rparr>)
      | (Inr m, _, w) \<Rightarrow> Inr (''config_reloaded'', install M next lr alerts_h ts dec m (d\<lparr>dm_os := w\<rparr>)))"

definition reload_outputs :: "'t main_env \<Rightarrow> app_config \<Rightarrow> log_resource \<Rightarrow> 't daemon \<Rightarrow> (string \<times> 't daemon) res" where
  "reload_outputs M next lr d =
     (case NewAlertsWriter (me_os M) (ac_logging next) (dm_os d) of
        (Inl e, w1) \<Rightarrow> Inr (''alerts_log_reload_failed'', d\<lparr>dm_os := discard (me_os M) [] None (lr_closer lr) w1\<rparr>)
      | (Inr alerts_h, w1) \<Rightarrow>
         (case NewUDP (me_os M) (ac_forwarders next) w1 of
            (Inl e, w2) \<Rightarrow> Inr (''forwarder_reload_failed'', d\<lparr>dm_os := discard (me_os M) [] alerts_h (lr_closer lr) w2\<rparr>)
          | (Inr ts, w2) \<Rightarrow>
             (case New_decoder (me_lib M) next of
                Inl e \<Rightarrow> Inr (''decoder_reload_failed'', d\<lparr>dm_os := discard (me_os M) ts alerts_h (lr_closer lr) w2\<rparr>)
              | Inr dec \<Rightarrow> reload_metrics M next lr alerts_h ts dec (d\<lparr>dm_os := w2\<rparr>))))"

definition reload :: "'t main_env \<Rightarrow> string \<Rightarrow> 't daemon \<Rightarrow> (string \<times> 't daemon) res" where
  "reload M path d =
     (case load_config M path (dm_os d) of
        Inl e \<Rightarrow> Inr (''config_reload_failed'', d)
      | Inr next \<Rightarrow>
         (case NewResource (me_os M) (ac_logging next) (dm_os d) of
            (Inl e, w1) \<Rightarrow> Inr (''logging_reload_failed'', d\<lparr>dm_os := w1\<rparr>)
          | (Inr lr, w1) \<Rightarrow>
             (case applyRuntimeConfig next (dm_memory_limit d) of
                (Some e, _) \<Rightarrow> Inr (''runtime_reload_failed'', d\<lparr>dm_os := close_opt (me_os M) (lr_closer lr) w1\<rparr>)
              | (None, limit) \<Rightarrow> reload_outputs M next lr (d\<lparr>dm_memory_limit := limit, dm_os := w1\<rparr>))))"

section \<open>Start-up\<close>

text \<open>\<open>server.New\<close>: resolving and opening the socket.\<close>

definition New_socket :: "os_env \<Rightarrow> server_config \<Rightarrow> os \<Rightarrow> handle res \<times> os" where
  "New_socket E cfg w =
     (case oe_resolve E ''udp'' (JoinHostPort (sc_host cfg) (int_str (sc_port cfg))) of
        Inl e \<Rightarrow> (Inl e, w)
      | Inr addr \<Rightarrow> sys_open E (ListenUDP ''udp'' (Some addr)) w)"

interpretation listener: opener "New_socket E cfg" handle_of for E cfg
proof
  fix w r w' assume "New_socket E cfg w = (r, w')" "os_inv w"
  then show "opened w (handle_of r) w'"
    by (cases "oe_resolve E ''udp'' (JoinHostPort (sc_host cfg) (int_str (sc_port cfg)))")
       (auto simp: New_socket_def handle_of_def opened_refl dest: device.acquires)
qed

text \<open>\<open>run\<close> returns an exit code, or the daemon runs; the deferred calls of an exit have been made.\<close>

datatype 't run_result = Exit int os | Up "'t daemon"

definition check_config ::
    "'t main_env \<Rightarrow> app_config \<Rightarrow> handle option \<Rightarrow> log_resource \<Rightarrow> os \<Rightarrow> 't run_result res" where
  "check_config M cfg alerts_h lr w =
     (let E = me_os M; leave = (\<lambda>code v. Inr (Exit code (close_opt E (lr_closer lr) (close_opt E alerts_h v)))) in
      case NewUDP E (ac_forwarders cfg) w of
        (Inl e, w1) \<Rightarrow> leave 1 w1
      | (Inr ts, w1) \<Rightarrow>
         (let w2 = snd (Close_forwarder E ts w1) in
          case New_decoder (me_lib M) cfg of
            Inl e \<Rightarrow> leave 1 w2
          | Inr dec \<Rightarrow>
              if \<not> mc_enabled (ac_metrics cfg) then leave 0 w2
              else case New_socket E (ac_server cfg) w2 of
                  (Inl e, w3) \<Rightarrow> leave 1 w3
                | (Inr socket, w3) \<Rightarrow>
                   (case New_metrics E (me_malformed M) (ac_metrics cfg) (lr_logger lr) w3 of
                      (Inl e, w4) \<Rightarrow> if is_panic e then Inl e else leave 1 w4
                    | (Inr m, w4) \<Rightarrow> leave 0 (Close_metrics E (Some m) w4))))"

definition serve ::
    "'t main_env \<Rightarrow> app_config \<Rightarrow> log_resource \<Rightarrow> int option \<Rightarrow> handle option \<Rightarrow> os \<Rightarrow> 't run_result res" where
  "serve M cfg lr limit alerts_h w =
     (let E = me_os M;
          leave = (\<lambda>v. Inr (Exit 1 (close_opt E (lr_closer lr) (close_opt E alerts_h v)))) in
      case NewUDP E (ac_forwarders cfg) w of
        (Inl e, w1) \<Rightarrow> leave w1
      | (Inr ts, w1) \<Rightarrow>
         (case New_decoder (me_lib M) cfg of
            Inl e \<Rightarrow> leave (snd (Close_forwarder E ts w1))
          | Inr dec \<Rightarrow>
             (case New_socket E (ac_server cfg) w1 of
                (Inl e, w2) \<Rightarrow> leave (snd (Close_forwarder E ts w2))
              | (Inr socket, w2) \<Rightarrow>
                 (let d = \<lparr>dm_os = w2, dm_logger = lr_logger lr, dm_closer = lr_closer lr, dm_alerts = alerts_h,
                           dm_forwarder = ts, dm_metrics = None, dm_metrics_cfg = ac_metrics cfg, dm_socket = socket,
                           dm_server_logger = lr_logger lr,
                           dm_engine = New_engine cfg ts (Some dec) (lr_logger lr) alerts_h, dm_memory_limit = limit\<rparr> in
                  if \<not> mc_enabled (ac_metrics cfg) then Inr (Up d)
                  else case New_metrics E (me_malformed M) (ac_metrics cfg) (lr_logger lr) w2 of
                      (Inl e, w3) \<Rightarrow> if is_panic e then Inl e else leave (snd (Close_forwarder E ts w3))
                    | (Inr m, w3) \<Rightarrow> Inr (Up (d\<lparr>dm_os := w3, dm_metrics := Some m\<rparr>))))))"

text \<open>\<open>run\<close> up to the loop: the flags are the path (empty when missing) and whether only to check.\<close>

definition run_start :: "'t main_env \<Rightarrow> string \<Rightarrow> bool \<Rightarrow> int option \<Rightarrow> os \<Rightarrow> 't run_result res" where
  "run_start M path check_only limit w =
     (if path = [] then Inr (Exit 2 w)
      else case load_config M path w of
          Inl e \<Rightarrow> Inr (Exit 1 w)
        | Inr cfg \<Rightarrow>
           (case NewResource (me_os M) (ac_logging cfg) w of
              (Inl e, w1) \<Rightarrow> Inr (Exit 1 w1)
            | (Inr lr, w1) \<Rightarrow>
               (case applyRuntimeConfig cfg limit of
                  (Some e, _) \<Rightarrow> Inr (Exit 1 (close_opt (me_os M) (lr_closer lr) w1))
                | (None, limit') \<Rightarrow>
                   (case NewAlertsWriter (me_os M) (ac_logging cfg) w1 of
                      (Inl e, w2) \<Rightarrow> Inr (Exit 1 (close_opt (me_os M) (lr_closer lr) w2))
                    | (Inr alerts_h, w2) \<Rightarrow>
                        if check_only then check_config M cfg alerts_h lr w2
                        else serve M cfg lr limit' alerts_h w2))))"

section \<open>The loop\<close>

text \<open>
  What the \<open>select\<close> receives: SIGHUP; another signal, with what the cancelled server then returns; or
  the result of a server that stopped by itself.
\<close>

datatype main_event = Hup | Terminate "err option" | ServerDone "err option"

definition canceled :: err where
  "canceled = EnvError ''context canceled''"

definition exit_code :: "err option \<Rightarrow> int" where
  "exit_code r = (if r \<noteq> None \<and> r \<noteq> Some canceled then 1 else 0)"

fun main_loop :: "'t main_env \<Rightarrow> string \<Rightarrow> 't daemon \<Rightarrow> main_event list \<Rightarrow> (int option \<times> 't daemon) res" where
  "main_loop M path d [] = Inr (None, d)"
| "main_loop M path d (Hup # evs) = rbind (reload M path d) (\<lambda>(_, d'). main_loop M path d' evs)"
| "main_loop M path d (Terminate r # evs) = Inr (Some (exit_code r), d)"
| "main_loop M path d (ServerDone r # evs) = Inr (Some (exit_code r), d)"

lemmas main_run [run_simps] =
  load_config_def applyRuntimeConfig_def discard_def swap_metrics_def install_def reload_metrics_def
  reload_outputs_def reload_def New_socket_def check_config_def serve_def run_start_def canceled_def exit_code_def

section \<open>The resources of the daemon\<close>

definition listeners :: "metrics_server option \<Rightarrow> handle set" where
  "listeners m = ms_listener ` set_option m"

text \<open>The handles the daemon needs to work, apart from the metrics listener.\<close>

definition owned :: "'t daemon \<Rightarrow> handle set" where
  "owned d = insert (dm_socket d) (set_option (dm_closer d) \<union> set_option (dm_alerts d) \<union> conns (dm_forwarder d))"

text \<open>
  Every handle it needs is open, everything open is one of these or the metrics listener, and no
  handle serves two purposes. The recorded listener may be closed: a failed reload that cannot
  restore the metrics server leaves it so.
\<close>

definition daemon_inv :: "'t daemon \<Rightarrow> bool" where
  "daemon_inv d \<longleftrightarrow>
     os_inv (dm_os d) \<and> owned d \<subseteq> set (os_open (dm_os d)) \<and>
     set (os_open (dm_os d)) \<subseteq> owned d \<union> listeners (dm_metrics d) \<and>
     owned d \<inter> listeners (dm_metrics d) = {} \<and> (\<forall>h \<in> listeners (dm_metrics d). h < os_calls (dm_os d)) \<and>
     dm_socket d \<notin> set_option (dm_closer d) \<union> set_option (dm_alerts d) \<union> conns (dm_forwarder d)"

lemma discard_simps [simp]:
  "set (os_open (discard E ts a c w)) = set (os_open w) - (conns ts \<union> set_option a \<union> set_option c)"
  "os_inv w \<Longrightarrow> os_inv (discard E ts a c w)"
  "os_calls w \<le> os_calls (discard E ts a c w)"
proof -
  show "set (os_open (discard E ts a c w)) = set (os_open w) - (conns ts \<union> set_option a \<union> set_option c)"
    by (auto simp: discard_def)
  show "os_inv w \<Longrightarrow> os_inv (discard E ts a c w)" by (simp add: discard_def)
  have "os_calls w \<le> os_calls (snd (Close_forwarder E ts w))" by simp
  also have "\<dots> \<le> os_calls (close_opt E a (snd (Close_forwarder E ts w)))" by simp
  also have "\<dots> \<le> os_calls (discard E ts a c w)" by (simp add: discard_def)
  finally show "os_calls w \<le> os_calls (discard E ts a c w)" .
qed

lemma discard_opened:
  assumes "opened w0 (conns ts \<union> set_option a \<union> set_option c) w"
  shows "opened w0 {} (discard E ts a c w)"
  using opened_closed [OF assms subset_refl, of "discard E ts a c w"] openedD(1) [OF assms] by simp

text \<open>Nothing is opened under an old handle.\<close>

definition newer :: "os \<Rightarrow> os \<Rightarrow> bool" where
  "newer w w' \<longleftrightarrow> os_calls w \<le> os_calls w' \<and> (\<forall>h \<in> set (os_open w'). h \<in> set (os_open w) \<or> os_calls w \<le> h)"

lemma newer_refl [simp]: "newer w w"
  by (simp add: newer_def)

lemma newer_trans: "newer u v \<Longrightarrow> newer v w \<Longrightarrow> newer u w"
  by (fastforce simp: newer_def)

lemma opened_newer: "opened w H w' \<Longrightarrow> newer w w'"
  by (auto simp: opened_def newer_def)

lemma newer_closed: "newer w w' \<Longrightarrow> h < os_calls w \<Longrightarrow> h \<notin> set (os_open w) \<Longrightarrow> h < os_calls w' \<and> h \<notin> set (os_open w')"
  by (auto simp: newer_def)

lemma daemon_inv_os:
  assumes "daemon_inv d" "opened (dm_os d) {} w"
  shows "daemon_inv (d\<lparr>dm_memory_limit := l, dm_os := w\<rparr>)" "daemon_inv (d\<lparr>dm_os := w\<rparr>)"
  using assms openedD(5) [OF assms(2)] by (auto simp: daemon_inv_def owned_def opened_def)

text \<open>
  The metrics swap: \<open>N\<close> is what is open of the server that is recorded afterwards, either what was
  open of the old one or a new listener.
\<close>

definition swapped :: "os \<Rightarrow> metrics_server option \<Rightarrow> metrics_server option \<Rightarrow> os \<Rightarrow> bool" where
  "swapped w old m w' \<longleftrightarrow>
     os_inv w' \<and> os_calls w \<le> os_calls w' \<and>
     (\<exists>N. set (os_open w') = (set (os_open w) - listeners old) \<union> N \<and>
        (m = old \<and> N \<subseteq> listeners old \<inter> set (os_open w) \<or>
         listeners m = N \<and> (\<forall>h \<in> N. os_calls w \<le> h \<and> h < os_calls w')))"

lemma swapped_newer: "swapped w old m w' \<Longrightarrow> newer w w'"
  by (auto simp: swapped_def newer_def)

text \<open>The old server has been closed, and nothing else happened.\<close>

definition unlistened :: "os \<Rightarrow> metrics_server option \<Rightarrow> os \<Rightarrow> bool" where
  "unlistened w old v \<longleftrightarrow>
     os_inv v \<and> os_calls w \<le> os_calls v \<and> set (os_open v) = set (os_open w) - listeners old"

lemma unlistened_swapped:
  "unlistened w old v \<Longrightarrow> swapped w old old v" "unlistened w old v \<Longrightarrow> swapped w old None v"
  by (auto simp: unlistened_def swapped_def listeners_def)

lemma Close_unlistened: "os_inv w \<Longrightarrow> unlistened w old (Close_metrics E old w)"
  by (simp add: unlistened_def listeners_def)

lemma New_metrics_unlistened:
  assumes "New_metrics E malformed cfg lg v = (x, v')" "unlistened w old v"
  shows "case x of Inl e \<Rightarrow> is_panic e \<or> unlistened w old v' | Inr m \<Rightarrow> swapped w old (Some m) v'"
proof -
  have v: "os_inv v" "os_calls w \<le> os_calls v" "set (os_open v) = set (os_open w) - listeners old"
    using assms(2) by (simp_all add: unlistened_def)
  show ?thesis
  proof (cases x)
    case (Inl e)
    with New_metrics_result [OF assms(1) v(1)] have "is_panic e \<or> opened v {} v'"
      by (auto simp: metrics_handles_def)
    with Inl v show ?thesis by (auto simp: opened_def unlistened_def)
  next
    case (Inr m)
    with New_metrics_result [OF assms(1) v(1)] have o': "opened v {ms_listener m} v'"
      by (auto simp: metrics_handles_def)
    have "os_inv v'" "set (os_open v') = (set (os_open w) - listeners old) \<union> {ms_listener m}"
      "os_calls w \<le> ms_listener m" "os_calls w \<le> os_calls v'"
      using openedD [OF o'] v by auto
    with Inr show ?thesis by (auto simp: swapped_def listeners_def os_inv_def)
  qed
qed

lemma swap_metrics_swapped:
  assumes "swap_metrics M cur cfg next_lg lg old w = (r, m, w')" "os_inv w"
  shows "(\<exists>e. r = Inl e \<and> is_panic e) \<or> swapped w old (case r of Inl _ \<Rightarrow> m | Inr m' \<Rightarrow> m') w'"
proof (cases "cfg = cur")
  case True
  with assms show ?thesis
    by (auto simp: swap_metrics_def swapped_def intro: exI [of _ "listeners old \<inter> set (os_open w)"])
next
  case False
  let ?New = "New_metrics (me_os M) (me_malformed M)"
  let ?w1 = "Close_metrics (me_os M) old w"
  obtain x w2 where x: "?New cfg next_lg ?w1 = (x, w2)" by fastforce
  obtain y w3 where y: "?New cur lg w2 = (y, w3)" by fastforce
  note w1 = Close_unlistened [OF assms(2), of old "me_os M"]
  note new = New_metrics_unlistened [OF x w1]
  have again: "unlistened w old w2 \<Longrightarrow> case y of Inl e \<Rightarrow> is_panic e \<or> unlistened w old w3 | Inr m \<Rightarrow> swapped w old (Some m) w3"
    by (rule New_metrics_unlistened [OF y])
  show ?thesis
    using False assms(1) x y new again unlistened_swapped [of w old] w1
    by (auto simp: swap_metrics_def Let_def split: if_splits sum.splits)
qed

section \<open>Reloads keep the resources\<close>

lemma daemon_invD:
  assumes "daemon_inv d"
  shows "os_inv (dm_os d)" "owned d \<subseteq> set (os_open (dm_os d))"
    "set (os_open (dm_os d)) \<subseteq> owned d \<union> listeners (dm_metrics d)"
    "owned d \<inter> listeners (dm_metrics d) = {}" "h \<in> listeners (dm_metrics d) \<Longrightarrow> h < os_calls (dm_os d)"
    "dm_socket d \<notin> set_option (dm_closer d) \<union> set_option (dm_alerts d) \<union> conns (dm_forwarder d)"
  using assms by (simp_all add: daemon_inv_def)

text \<open>What has been opened for the new configuration overlaps with nothing the daemon has.\<close>

lemma new_handles_apart:
  assumes "daemon_inv d" "opened (dm_os d) H w"
  shows "H \<inter> owned d = {}" "H \<inter> listeners (dm_metrics d) = {}"
  using daemon_invD(2,5) [OF assms(1)] openedD(3,4) [OF assms(2)] by fastforce+

lemma swapped_apart:
  assumes "daemon_inv d" "opened (dm_os d) H w" "swapped w (dm_metrics d) m w'"
  obtains N where "set (os_open w') = (set (os_open (dm_os d)) - listeners (dm_metrics d)) \<union> H \<union> N"
    "N \<subseteq> listeners m" "listeners m \<inter> H = {}" "listeners m \<inter> owned d = {}" "os_inv w'"
    "\<forall>h \<in> listeners m. h < os_calls w'"
proof -
  obtain N where N: "set (os_open w') = (set (os_open w) - listeners (dm_metrics d)) \<union> N"
    "m = dm_metrics d \<and> N \<subseteq> listeners (dm_metrics d) \<inter> set (os_open w) \<or>
     listeners m = N \<and> (\<forall>h \<in> N. os_calls w \<le> h \<and> h < os_calls w')"
    "os_inv w'" "os_calls w \<le> os_calls w'"
    using assms(3) by (auto simp: swapped_def)
  note ow = openedD [OF assms(2)]
  note apart = new_handles_apart [OF assms(1,2)]
  have fresh: "listeners m \<inter> set (os_open w) = {}" if "listeners m = N" "\<forall>h \<in> N. os_calls w \<le> h"
    using ow(1) that by (fastforce simp: os_inv_def)
  show ?thesis
  proof (rule that)
    show "set (os_open w') = (set (os_open (dm_os d)) - listeners (dm_metrics d)) \<union> H \<union> N"
      using N(1) ow(2) apart(2) by blast
    show "N \<subseteq> listeners m" using N(2) by blast
    show "listeners m \<inter> H = {}" using N(2) fresh apart(2) ow(2) by blast
    show "listeners m \<inter> owned d = {}"
      using N(2) fresh daemon_invD(2,4) [OF assms(1)] ow(2) by blast
    show "os_inv w'" by (rule N(3))
    show "\<forall>h \<in> listeners m. h < os_calls w'"
      using N(2,4) daemon_invD(5) [OF assms(1)] ow(5) by fastforce
  qed
qed

lemma install_inv:
  assumes "daemon_inv d" "opened (dm_os d) (conns ts \<union> set_option a \<union> set_option (lr_closer lr)) w"
    and "swapped w (dm_metrics d) m w'"
  shows "daemon_inv (install M cfg lr a ts dec m (d\<lparr>dm_memory_limit := l, dm_os := w'\<rparr>)) \<and>
    newer (dm_os d) (dm_os (install M cfg lr a ts dec m (d\<lparr>dm_memory_limit := l, dm_os := w'\<rparr>)))"
    (is "daemon_inv ?d \<and> _")
proof -
  let ?H = "conns ts \<union> set_option a \<union> set_option (lr_closer lr)"
  obtain N where N: "set (os_open w') = (set (os_open (dm_os d)) - listeners (dm_metrics d)) \<union> ?H \<union> N"
    "N \<subseteq> listeners m" "listeners m \<inter> ?H = {}" "listeners m \<inter> owned d = {}" "os_inv w'" "\<forall>h \<in> listeners m. h < os_calls w'"
    using swapped_apart [OF assms] .
  note apart = new_handles_apart [OF assms(1,2)]
  note d = daemon_invD [OF assms(1)]
  let ?old = "set_option (dm_closer d) \<union> set_option (dm_alerts d) \<union> conns (dm_forwarder d)"
  have own: "owned ?d = insert (dm_socket d) ?H" "dm_metrics ?d = m" "dm_socket ?d = dm_socket d"
    by (auto simp: install_def owned_def Let_def)
  have op: "set (os_open (dm_os ?d)) = set (os_open w') - ?old - (if dm_metrics d \<noteq> m then listeners (dm_metrics d) else {})"
    by (auto simp: install_def Let_def listeners_def)
  have inv: "os_inv (dm_os ?d)" using N(5) by (simp add: install_def Let_def)
  have calls: "os_calls w' \<le> os_calls (dm_os ?d)"
  proof -
    let ?w1 = "close_opt (me_os M) (dm_alerts d) (close_opt (me_os M) (dm_closer d) w')"
    have "os_calls w' \<le> os_calls ?w1" by (meson close_opt_simps(3) order.trans)
    also have "\<dots> \<le> os_calls (snd (Close_forwarder (me_os M) (dm_forwarder d) ?w1))" by simp
    also have "\<dots> \<le> os_calls (dm_os ?d)" by (simp add: install_def Let_def)
    finally show ?thesis .
  qed
  have "newer w' (dm_os ?d)" using calls op by (auto simp: newer_def)
  then have newer: "newer (dm_os d) (dm_os ?d)"
    using newer_trans opened_newer [OF assms(2)] swapped_newer [OF assms(3)] by blast
  have socket: "dm_socket d \<in> owned d" "?old \<subseteq> owned d" "owned d = insert (dm_socket d) ?old"
    by (auto simp: owned_def)
  have "owned ?d \<subseteq> set (os_open (dm_os ?d))"
    unfolding own op N(1) using apart d(2,4,6) socket by (auto split: if_splits)
  moreover have "set (os_open (dm_os ?d)) \<subseteq> owned ?d \<union> listeners (dm_metrics ?d)"
    unfolding own op N(1) using d(3) N(2) socket(3) by (auto split: if_splits)
  moreover have "owned ?d \<inter> listeners (dm_metrics ?d) = {}"
    unfolding own using N(3,4) socket(1) by blast
  moreover have "dm_socket ?d \<notin> set_option (dm_closer ?d) \<union> set_option (dm_alerts ?d) \<union> conns (dm_forwarder ?d)"
    using apart(1) socket(1) by (auto simp: install_def Let_def)
  ultimately show ?thesis
    using inv calls N(6) own(2) newer by (auto simp: daemon_inv_def)
qed

lemma discard_inv:
  assumes "daemon_inv d" "opened (dm_os d) (conns ts \<union> set_option a \<union> set_option c) w"
    and "swapped w (dm_metrics d) m w'"
  shows "daemon_inv (d\<lparr>dm_memory_limit := l, dm_os := discard E ts a c w', dm_metrics := m\<rparr>) \<and>
    newer (dm_os d) (discard E ts a c w')" (is "daemon_inv ?d \<and> _")
proof -
  let ?H = "conns ts \<union> set_option a \<union> set_option c"
  obtain N where N: "set (os_open w') = (set (os_open (dm_os d)) - listeners (dm_metrics d)) \<union> ?H \<union> N"
    "N \<subseteq> listeners m" "listeners m \<inter> ?H = {}" "listeners m \<inter> owned d = {}" "os_inv w'" "\<forall>h \<in> listeners m. h < os_calls w'"
    using swapped_apart [OF assms] .
  note apart = new_handles_apart [OF assms(1,2)]
  note d = daemon_invD [OF assms(1)]
  have own: "owned ?d = owned d" by (simp add: owned_def)
  have op: "set (os_open (dm_os ?d)) = (set (os_open (dm_os d)) - listeners (dm_metrics d)) \<union> N"
    using N(1,2,3) openedD(3) [OF assms(2)] by auto
  have "\<forall>h \<in> listeners m. h < os_calls (discard E ts a c w')"
    using N(6) discard_simps(3) [of w' E ts a c] by (meson order.strict_trans2)
  with own op N(2,4,5) d have "daemon_inv ?d"
    unfolding daemon_inv_def by (intro conjI) auto
  moreover have "newer w' (discard E ts a c w')" using discard_simps(3) [of w' E ts a c] by (auto simp: newer_def)
  ultimately show ?thesis
    using newer_trans opened_newer [OF assms(2)] swapped_newer [OF assms(3)] by blast
qed

lemma reload_metrics_inv:
  assumes "daemon_inv d" "opened (dm_os d) (conns ts \<union> set_option a \<union> set_option (lr_closer lr)) w"
    and "reload_metrics M cfg lr a ts dec (d\<lparr>dm_memory_limit := l, dm_os := w\<rparr>) = Inr (ev, d')"
  shows "daemon_inv d' \<and> newer (dm_os d) (dm_os d')"
proof -
  obtain r m w' where s: "swap_metrics M (dm_metrics_cfg d) (ac_metrics cfg) (lr_logger lr) (dm_logger d) (dm_metrics d) w = (r, m, w')"
    by (metis prod_cases3)
  note sw = swap_metrics_swapped [OF s openedD(1) [OF assms(2)]]
  show ?thesis
  proof (cases r)
    case (Inl e)
    with sw discard_inv [OF assms(1,2), where m = m and w' = w' and E = "me_os M" and l = l] assms(3) s show ?thesis
      by (auto simp: reload_metrics_def split: if_splits)
  next
    case (Inr m')
    with sw install_inv [OF assms(1,2), where m = m' and w' = w' and M = M and cfg = cfg and dec = dec and l = l] assms(3) s show ?thesis
      by (auto simp: reload_metrics_def)
  qed
qed

lemma reload_outputs_inv:
  assumes "daemon_inv d" "opened (dm_os d) (set_option (lr_closer lr)) w"
    and "reload_outputs M cfg lr (d\<lparr>dm_memory_limit := l, dm_os := w\<rparr>) = Inr (ev, d')"
  shows "daemon_inv d' \<and> newer (dm_os d) (dm_os d')"
proof -
  let ?E = "me_os M"
  obtain ar w1 where ar: "NewAlertsWriter ?E (ac_logging cfg) w = (ar, w1)" by fastforce
  obtain fr w2 where fr: "NewUDP ?E (ac_forwarders cfg) w1 = (fr, w2)" by fastforce
  have w1: "opened (dm_os d) (set_option (lr_closer lr) \<union> writer_handles ar) w1"
    by (rule alerts_file.acquires_more [OF ar assms(2)])
  have w2: "opened (dm_os d) (set_option (lr_closer lr) \<union> writer_handles ar \<union> target_handles fr) w2"
    by (rule udp.acquires_more [OF fr w1])
  have drop: "daemon_inv (d\<lparr>dm_memory_limit := l, dm_os := discard ?E ts a (lr_closer lr) v\<rparr>) \<and>
      newer (dm_os d) (discard ?E ts a (lr_closer lr) v)"
    if "opened (dm_os d) H v" "H = conns ts \<union> set_option a \<union> set_option (lr_closer lr)" for ts a v H
    using daemon_inv_os(1) [OF assms(1) discard_opened] opened_newer [OF discard_opened] that by blast
  show ?thesis
  proof (cases ar)
    case (Inl e)
    with assms(3) ar drop [OF w1, of "[]" None] show ?thesis
      by (auto simp: reload_outputs_def writer_handles_def)
  next
    case ar': (Inr a)
    show ?thesis
    proof (cases fr)
      case (Inl e)
      with ar' drop [OF w2, of "[]" a] have "daemon_inv (d\<lparr>dm_memory_limit := l, dm_os := discard ?E [] a (lr_closer lr) w2\<rparr>) \<and>
          newer (dm_os d) (discard ?E [] a (lr_closer lr) w2)"
        by (simp add: writer_handles_def target_handles_def Un_commute)
      with Inl assms(3) ar ar' fr show ?thesis by (auto simp: reload_outputs_def)
    next
      case (Inr ts)
      then have H: "set_option (lr_closer lr) \<union> writer_handles ar \<union> target_handles fr = conns ts \<union> set_option a \<union> set_option (lr_closer lr)"
        using ar' by (auto simp: writer_handles_def target_handles_def)
      with assms(3) ar ar' fr Inr drop [OF w2 H] reload_metrics_inv [OF assms(1) w2 [unfolded H], of M cfg _ l ev d']
      show ?thesis by (auto simp: reload_outputs_def split: sum.splits)
    qed
  qed
qed

lemma reload_inv:
  assumes "daemon_inv d" "reload M path d = Inr (ev, d')"
  shows "daemon_inv d' \<and> newer (dm_os d) (dm_os d')"
proof (cases "load_config M path (dm_os d)")
  case (Inl e)
  with assms show ?thesis by (simp add: reload_def)
next
  case loaded: (Inr cfg)
  obtain r w1 where r: "NewResource (me_os M) (ac_logging cfg) (dm_os d) = (r, w1)" by fastforce
  note w1 = NewResource_opened [OF r daemon_invD(1) [OF assms(1)]]
  show ?thesis
  proof (cases r)
    case (Inl e)
    with loaded r assms(2) w1 daemon_inv_os(2) [OF assms(1), of w1] opened_newer show ?thesis
      by (auto simp: reload_def logger_handles_def)
  next
    case (Inr lr)
    then have o1: "opened (dm_os d) (set_option (lr_closer lr)) w1" using w1 by (simp add: logger_handles_def)
    have "opened (dm_os d) {} (close_opt (me_os M) (lr_closer lr) w1)"
      using opened_closed [OF o1 subset_refl, of "close_opt (me_os M) (lr_closer lr) w1"] openedD(1) [OF o1] by simp
    then have abort: "daemon_inv (d\<lparr>dm_os := close_opt (me_os M) (lr_closer lr) w1\<rparr>)"
      "newer (dm_os d) (close_opt (me_os M) (lr_closer lr) w1)"
      by (rule daemon_inv_os(2) [OF assms(1)], rule opened_newer)
    with loaded r Inr assms(2) reload_outputs_inv [OF assms(1) o1, of M cfg _ ev d'] show ?thesis
      by (auto simp: reload_def split: prod.splits option.splits)
  qed
qed

section \<open>A failed reload changes nothing but two things\<close>

definition same_service :: "'t daemon \<Rightarrow> 't daemon \<Rightarrow> bool" where
  "same_service d d' \<longleftrightarrow>
     dm_engine d' = dm_engine d \<and> dm_logger d' = dm_logger d \<and> dm_closer d' = dm_closer d \<and>
     dm_alerts d' = dm_alerts d \<and> dm_forwarder d' = dm_forwarder d \<and> dm_socket d' = dm_socket d \<and>
     dm_server_logger d' = dm_server_logger d \<and> dm_metrics_cfg d' = dm_metrics_cfg d"

text \<open>
  The engine uses what the daemon owns: its run-time state has the forwarder, the logger and the alerts
  writer of the variables, the logger writes to the file that is to be closed with it, and every target has
  a connection of its own.
\<close>

definition wired :: "'t daemon \<Rightarrow> bool" where
  "wired d \<longleftrightarrow>
     (\<exists>st. en_state (dm_engine d) = Some st \<and> rs_forwarder st = dm_forwarder d \<and> rs_logger st = dm_logger d \<and>
        rs_alerts st = dm_alerts d) \<and>
     lg_writer (dm_logger d) = dm_closer d \<and>
     (\<forall>t \<in> set (dm_forwarder d). tg_conn t \<noteq> None) \<and> distinct (map tg_conn (dm_forwarder d))"

lemma same_service_wired: "same_service d d' \<Longrightarrow> wired d \<Longrightarrow> wired d'"
  by (simp add: same_service_def wired_def)

text \<open>What a configuration asks of the logger and of the alerts writer.\<close>

definition logs_as :: "logging_config \<Rightarrow> logger \<Rightarrow> handle option \<Rightarrow> bool" where
  "logs_as cfg lg closer \<longleftrightarrow>
     log_format_of (lc_format cfg) = Some (lg_format lg) \<and> lg_level lg = parseLevel (lc_level cfg) \<and>
     lg_writer lg = closer \<and> (closer = None \<longleftrightarrow> lc_file cfg = [])"

lemma NewResource_logs: "NewResource E cfg w = (Inr lr, w') \<Longrightarrow> logs_as cfg (lr_logger lr) (lr_closer lr)"
  by (auto simp: NewResource_def logs_as_def split: if_splits sum.splits option.splits prod.splits)

lemma NewAlertsWriter_asked: "NewAlertsWriter E cfg w = (Inr a, w') \<Longrightarrow> a = None \<longleftrightarrow> lc_alerts_file cfg = []"
  by (auto simp: NewAlertsWriter_def split: if_splits sum.splits prod.splits)

lemma NewUDP_targets:
  assumes "NewUDP E cfg w = (Inr ts, w')" "os_inv w"
  shows "map tg_config ts = filter fc_enabled cfg" "\<forall>t \<in> set ts. tg_conn t \<noteq> None" "distinct (map tg_conn ts)"
  using open_targets_configs [of E cfg "[]" w ts w'] open_targets_distinct [of E cfg "[]" w ts w'] assms
  by (simp_all add: NewUDP_def)

text \<open>The state after a successful reload of the configuration \<open>cfg\<close>.\<close>

definition serves :: "'t main_env \<Rightarrow> app_config \<Rightarrow> 't daemon \<Rightarrow> bool" where
  "serves M cfg d \<longleftrightarrow>
     (\<exists>st dec. en_state (dm_engine d) = Some st \<and> rs_cfg st = cfg \<and> rs_decoder st = Some dec \<and>
        New_decoder (me_lib M) cfg = Inr dec) \<and>
     map tg_config (dm_forwarder d) = filter fc_enabled (ac_forwarders cfg) \<and>
     logs_as (ac_logging cfg) (dm_logger d) (dm_closer d) \<and>
     (dm_alerts d = None \<longleftrightarrow> lc_alerts_file (ac_logging cfg) = []) \<and> dm_metrics_cfg d = ac_metrics cfg"

text \<open>What \<open>install\<close> is given to come to that state.\<close>

definition built ::
    "'t main_env \<Rightarrow> app_config \<Rightarrow> log_resource \<Rightarrow> handle option \<Rightarrow> target list \<Rightarrow> 't gosnmp_decoder \<Rightarrow> bool" where
  "built M cfg lr a ts dec \<longleftrightarrow>
     New_decoder (me_lib M) cfg = Inr dec \<and> map tg_config ts = filter fc_enabled (ac_forwarders cfg) \<and>
     (\<forall>t \<in> set ts. tg_conn t \<noteq> None) \<and> distinct (map tg_conn ts) \<and>
     logs_as (ac_logging cfg) (lr_logger lr) (lr_closer lr) \<and> (a = None \<longleftrightarrow> lc_alerts_file (ac_logging cfg) = [])"

text \<open>The socket and the dedup states stay; the old log file, alerts file and forwarder sockets are closed.\<close>

definition replaces :: "'t daemon \<Rightarrow> 't daemon \<Rightarrow> bool" where
  "replaces d d' \<longleftrightarrow>
     dm_socket d' = dm_socket d \<and> dm_server_logger d' = dm_server_logger d \<and>
     en_dedup (dm_engine d') = en_dedup (dm_engine d) \<and>
     (set_option (dm_closer d) \<union> set_option (dm_alerts d) \<union> conns (dm_forwarder d)) \<inter> set (os_open (dm_os d')) = {}"

lemma install_installs:
  assumes "built M cfg lr a ts dec"
  shows "serves M cfg (install M cfg lr a ts dec m d) \<and> wired (install M cfg lr a ts dec m d) \<and>
    replaces d (install M cfg lr a ts dec m d)"
  using assms
  by (auto simp: built_def install_def Let_def serves_def wired_def replaces_def Reload_engine_def logs_as_def)

lemma reload_metrics_outcome:
  assumes "reload_metrics M cfg lr a ts dec d = Inr (ev, d')"
  shows "ev \<noteq> ''config_reloaded'' \<and> same_service d d' \<or>
    ev = ''config_reloaded'' \<and> (built M cfg lr a ts dec \<longrightarrow> serves M cfg d' \<and> wired d' \<and> replaces d d')"
proof -
  obtain r m w where s: "swap_metrics M (dm_metrics_cfg d) (ac_metrics cfg) (lr_logger lr) (dm_logger d) (dm_metrics d) (dm_os d) = (r, m, w)"
    by (metis prod_cases3)
  show ?thesis
  proof (cases r)
    case (Inl e)
    with assms s show ?thesis by (auto simp: reload_metrics_def same_service_def split: if_splits)
  next
    case (Inr m')
    with assms s have "ev = ''config_reloaded''" "d' = install M cfg lr a ts dec m' (d\<lparr>dm_os := w\<rparr>)"
      by (simp_all add: reload_metrics_def)
    with install_installs [of M cfg lr a ts dec m' "d\<lparr>dm_os := w\<rparr>"] show ?thesis by (auto simp: replaces_def)
  qed
qed

text \<open>The messages of the failing branches, which touch the operating system only.\<close>

definition reload_failures :: "string list" where
  "reload_failures =
     [''config_reload_failed'', ''logging_reload_failed'', ''runtime_reload_failed'', ''alerts_log_reload_failed'',
      ''forwarder_reload_failed'', ''decoder_reload_failed'']"

lemma failed_same_service:
  assumes "ev \<in> set reload_failures" "d' = d\<lparr>dm_os := w\<rparr>"
  shows "ev \<noteq> ''config_reloaded'' \<and> same_service d d'"
proof -
  have "''config_reloaded'' \<notin> set reload_failures" by (simp add: reload_failures_def)
  with assms show ?thesis by (auto simp: same_service_def)
qed

lemma failure_messages:
  "''config_reload_failed'' \<in> set reload_failures" "''logging_reload_failed'' \<in> set reload_failures"
  "''runtime_reload_failed'' \<in> set reload_failures" "''alerts_log_reload_failed'' \<in> set reload_failures"
  "''forwarder_reload_failed'' \<in> set reload_failures" "''decoder_reload_failed'' \<in> set reload_failures"
  by (simp_all add: reload_failures_def)

lemma reload_outputs_outcome:
  assumes "reload_outputs M cfg lr d = Inr (ev, d')" "logs_as (ac_logging cfg) (lr_logger lr) (lr_closer lr)"
  shows "ev \<noteq> ''config_reloaded'' \<and> same_service d d' \<or>
    ev = ''config_reloaded'' \<and> (os_inv (dm_os d) \<longrightarrow> serves M cfg d' \<and> wired d' \<and> replaces d d')"
proof -
  obtain ar w1 where ar: "NewAlertsWriter (me_os M) (ac_logging cfg) (dm_os d) = (ar, w1)" by fastforce
  obtain fr w2 where fr: "NewUDP (me_os M) (ac_forwarders cfg) w1 = (fr, w2)" by fastforce
  show ?thesis
  proof (cases "\<exists>a ts dec. ar = Inr a \<and> fr = Inr ts \<and> New_decoder (me_lib M) cfg = Inr dec")
    case False
    with assms(1) ar fr have "ev \<in> set reload_failures \<and> (\<exists>w. d' = d\<lparr>dm_os := w\<rparr>)"
      by (cases ar; cases fr; cases "New_decoder (me_lib M) cfg"; clarsimp simp: reload_outputs_def failure_messages; blast)
    then show ?thesis using failed_same_service by blast
  next
    case True
    then obtain a ts dec where ok: "ar = Inr a" "fr = Inr ts" "New_decoder (me_lib M) cfg = Inr dec" by blast
    then have "reload_metrics M cfg lr a ts dec (d\<lparr>dm_os := w2\<rparr>) = Inr (ev, d')"
      using assms(1) ar fr by (simp add: reload_outputs_def)
    moreover have "os_inv (dm_os d) \<Longrightarrow> built M cfg lr a ts dec"
      using NewUDP_targets [of "me_os M" "ac_forwarders cfg" w1 ts w2] fr ok assms(2)
        NewAlertsWriter_asked [of "me_os M" "ac_logging cfg" "dm_os d" a w1] ar
        openedD(1) [OF NewAlertsWriter_opened [OF ar]]
      by (simp add: built_def)
    ultimately show ?thesis
      using reload_metrics_outcome [of M cfg lr a ts dec "d\<lparr>dm_os := w2\<rparr>" ev d']
      unfolding same_service_def replaces_def by (simp del: de_Morgan_conj) blast
  qed
qed

lemma reload_outcome:
  assumes "reload M path d = Inr (ev, d')"
  shows "ev \<noteq> ''config_reloaded'' \<and> same_service d d' \<or>
    ev = ''config_reloaded'' \<and> (\<exists>cfg. load_config M path (dm_os d) = Inr cfg \<and>
      (os_inv (dm_os d) \<longrightarrow> serves M cfg d' \<and> wired d' \<and> replaces d d'))"
proof (cases "load_config M path (dm_os d)")
  case (Inl e)
  with assms have "ev = ''config_reload_failed''" "d' = d\<lparr>dm_os := dm_os d\<rparr>" by (simp_all add: reload_def)
  then show ?thesis using failed_same_service failure_messages(1) by blast
next
  case cfg: (Inr cfg)
  obtain r w1 where r: "NewResource (me_os M) (ac_logging cfg) (dm_os d) = (r, w1)" by fastforce
  obtain err l where l: "applyRuntimeConfig cfg (dm_memory_limit d) = (err, l)" by fastforce
  show ?thesis
  proof (cases "\<exists>lr. r = Inr lr \<and> err = None")
    case False
    with assms cfg r l have "ev \<in> set reload_failures \<and> (\<exists>w. d' = d\<lparr>dm_os := w\<rparr>)"
      by (cases r; cases err; clarsimp simp: reload_def failure_messages; blast)
    then show ?thesis using failed_same_service by blast
  next
    case True
    then obtain lr where lr: "r = Inr lr" "err = None" by blast
    with assms cfg r l have "reload_outputs M cfg lr (d\<lparr>dm_memory_limit := l, dm_os := w1\<rparr>) = Inr (ev, d')"
      by (simp add: reload_def)
    note out = reload_outputs_outcome [OF this NewResource_logs [OF r [unfolded lr]]]
    moreover have "os_inv (dm_os d) \<Longrightarrow> os_inv w1" using openedD(1) [OF NewResource_opened [OF r]] .
    ultimately show ?thesis using cfg by (auto simp: same_service_def replaces_def)
  qed
qed

section \<open>The daemon that start-up leaves\<close>

lemma serve_up:
  assumes "serve M cfg lr limit a w = Inr (Up d)" "opened w0 (set_option a \<union> set_option (lr_closer lr)) w" "os_open w0 = []"
    and "logs_as (ac_logging cfg) (lr_logger lr) (lr_closer lr)" "a = None \<longleftrightarrow> lc_alerts_file (ac_logging cfg) = []"
  shows "daemon_inv d \<and> serves M cfg d \<and> wired d \<and> dm_server_logger d = dm_logger d \<and> en_dedup (dm_engine d) = NewStore (sc_max_dedup_entries (ac_server cfg))"
proof -
  let ?E = "me_os M" and ?a = "set_option a \<union> set_option (lr_closer lr)"
  obtain fr w1 where fr: "NewUDP ?E (ac_forwarders cfg) w = (fr, w1)" by fastforce
  obtain sr w2 where sr: "New_socket ?E (ac_server cfg) w1 = (sr, w2)" by fastforce
  obtain mr w3 where mr: "New_metrics ?E (me_malformed M) (ac_metrics cfg) (lr_logger lr) w2 = (mr, w3)" by fastforce
  from assms(1) fr sr mr obtain ts dec socket where ok: "fr = Inr ts" "New_decoder (me_lib M) cfg = Inr dec" "sr = Inr socket"
    by (auto simp: serve_def Let_def split: sum.splits)
  let ?d = "\<lparr>dm_os = w2, dm_logger = lr_logger lr, dm_closer = lr_closer lr, dm_alerts = a, dm_forwarder = ts,
    dm_metrics = None, dm_metrics_cfg = ac_metrics cfg, dm_socket = socket, dm_server_logger = lr_logger lr,
    dm_engine = New_engine cfg ts (Some dec) (lr_logger lr) a, dm_memory_limit = limit\<rparr>"
  have w1: "opened w0 (?a \<union> conns ts) w1"
    using udp.acquires_more [OF fr assms(2)] ok(1) by (simp add: target_handles_def)
  have s: "opened w1 {socket} w2"
    using listener.acquires [OF sr openedD(1) [OF w1]] ok(3) by (simp add: handle_of_def)
  have w2: "opened w0 (?a \<union> conns ts \<union> {socket}) w2" by (rule opened_trans [OF w1 s])
  have fresh: "socket \<notin> ?a \<union> conns ts" using openedD(3) [OF s] openedD(2) [OF w1] by auto
  have inv: "daemon_inv ?d"
    using openedD(1,2) [OF w2] fresh assms(3) by (auto simp: daemon_inv_def owned_def listeners_def)
  have "built M cfg lr a ts dec"
    using NewUDP_targets [of ?E "ac_forwarders cfg" w ts w1] fr ok openedD(1) [OF assms(2)] assms(4,5)
    by (simp add: built_def)
  then have srv: "serves M cfg (?d\<lparr>dm_os := v, dm_metrics := m\<rparr>) \<and> wired (?d\<lparr>dm_os := v, dm_metrics := m\<rparr>)" for v m
    by (simp add: built_def serves_def wired_def logs_as_def)
  show ?thesis
  proof (cases "mc_enabled (ac_metrics cfg)")
    case False
    then have "d = ?d" using assms(1) fr sr ok by (simp add: serve_def Let_def)
    with inv srv [where v = w2 and m = None] show ?thesis by simp
  next
    case True
    with assms(1) fr sr mr ok obtain m where m: "mr = Inr m" and d: "d = ?d\<lparr>dm_os := w3, dm_metrics := Some m\<rparr>"
      by (auto simp: serve_def Let_def split: sum.splits if_splits)
    have w3: "opened w2 {ms_listener m} w3"
      using New_metrics_result [OF mr openedD(1) [OF w2]] m by (simp add: metrics_handles_def)
    have "owned ?d = ?a \<union> conns ts \<union> {socket}" by (auto simp: owned_def)
    then have "owned d = ?a \<union> conns ts \<union> {socket}" "listeners (dm_metrics d) = {ms_listener m}"
      by (simp_all add: d owned_def listeners_def)
    then have "daemon_inv d"
      using openedD [OF w3] openedD(2) [OF w2] fresh assms(3) by (auto simp: daemon_inv_def d os_inv_def)
    with srv show ?thesis by (simp add: d)
  qed
qed

lemma run_start_up:
  assumes "run_start M path False limit w = Inr (Up d)" "os_inv w" "os_open w = []"
  shows "daemon_inv d \<and> wired d \<and> dm_server_logger d = dm_logger d \<and> (\<exists>cfg. load_config M path w = Inr cfg \<and> serves M cfg d \<and>
    en_dedup (dm_engine d) = NewStore (sc_max_dedup_entries (ac_server cfg)))"
proof -
  obtain cfg where cfg: "load_config M path w = Inr cfg"
    using assms(1) by (auto simp: run_start_def split: if_splits sum.splits)
  obtain r w1 where r: "NewResource (me_os M) (ac_logging cfg) w = (r, w1)" by fastforce
  obtain ar w2 where ar: "NewAlertsWriter (me_os M) (ac_logging cfg) w1 = (ar, w2)" by fastforce
  from assms(1) cfg r ar obtain lr l a where ok: "r = Inr lr" "ar = Inr a" and up: "serve M cfg lr l a w2 = Inr (Up d)"
    by (auto simp: run_start_def split: if_splits sum.splits prod.splits option.splits)
  have w1: "opened w (set_option (lr_closer lr)) w1"
    using log_file.acquires [OF r assms(2)] ok(1) by (simp add: logger_handles_def)
  have "opened w (set_option (lr_closer lr) \<union> set_option a) w2"
    using alerts_file.acquires_more [OF ar w1] ok(2) by (simp add: writer_handles_def)
  then have "opened w (set_option a \<union> set_option (lr_closer lr)) w2" by (simp only: Un_commute)
  from serve_up [OF up this assms(3) NewResource_logs [OF r [unfolded ok(1)]] NewAlertsWriter_asked [OF ar [unfolded ok(2)]]] cfg
  show ?thesis by blast
qed

text \<open>Every reload of the loop keeps the invariant and the wiring.\<close>

lemma reload_wired:
  assumes "daemon_inv d" "wired d" "reload M path d = Inr (ev, d')"
  shows "wired d' \<and> dm_server_logger d' = dm_server_logger d"
  using reload_outcome [OF assms(3)] daemon_invD(1) [OF assms(1)] same_service_wired [OF _ assms(2)]
  by (auto simp: same_service_def replaces_def)

lemma main_loop_inv:
  "daemon_inv d \<Longrightarrow> wired d \<Longrightarrow> main_loop M path d evs = Inr (code, d') \<Longrightarrow>
   daemon_inv d' \<and> wired d' \<and> dm_server_logger d' = dm_server_logger d \<and> newer (dm_os d) (dm_os d')"
proof (induction M path d evs rule: main_loop.induct)
  case (2 M path d evs)
  then obtain ev d1 where r: "reload M path d = Inr (ev, d1)" "main_loop M path d1 evs = Inr (code, d')"
    by (auto simp: rbind_Inr_iff)
  from reload_inv [OF 2(2) r(1)] reload_wired [OF 2(2,3) r(1)]
  have d1: "daemon_inv d1" "wired d1" "newer (dm_os d) (dm_os d1)" "dm_server_logger d1 = dm_server_logger d" by simp_all
  with 2(1) [OF d1(1,2) r(2)] newer_trans show ?case by fastforce
qed auto

text \<open>The file \<open>h\<close> is either the current log file or closed, and will not be opened again.\<close>

definition stranding :: "handle \<Rightarrow> 't daemon \<Rightarrow> bool" where
  "stranding h d \<longleftrightarrow> h < os_calls (dm_os d) \<and> (dm_closer d = Some h \<or> h \<notin> set (os_open (dm_os d)))"

lemma reload_stranding:
  assumes "daemon_inv d" "wired d" "stranding h d" "reload M path d = Inr (ev, d')"
  shows "stranding h d' \<and> (ev = ''config_reloaded'' \<longrightarrow> h \<notin> set (os_open (dm_os d')))"
proof -
  have n: "newer (dm_os d) (dm_os d')" using reload_inv [OF assms(1,4)] by blast
  then have h: "h < os_calls (dm_os d')" using assms(3) by (simp add: stranding_def newer_def)
  have still: "h \<notin> set (os_open (dm_os d)) \<Longrightarrow> h \<notin> set (os_open (dm_os d'))"
    using newer_closed [OF n] assms(3) by (simp add: stranding_def)
  from reload_outcome [OF assms(4)] show ?thesis
  proof (elim disjE conjE exE)
    assume "ev \<noteq> ''config_reloaded''" "same_service d d'"
    with h still assms(3) show ?thesis by (auto simp: stranding_def same_service_def)
  next
    fix cfg assume "os_inv (dm_os d) \<longrightarrow> serves M cfg d' \<and> wired d' \<and> replaces d d'"
    with daemon_invD(1) [OF assms(1)] have "dm_closer d = Some h \<Longrightarrow> h \<notin> set (os_open (dm_os d'))"
      by (auto simp: replaces_def)
    with h still assms(3) show ?thesis by (auto simp: stranding_def)
  qed
qed

lemma main_loop_stranding:
  "daemon_inv d \<Longrightarrow> wired d \<Longrightarrow> stranding h d \<Longrightarrow> main_loop M path d evs = Inr (code, d') \<Longrightarrow> stranding h d'"
proof (induction M path d evs rule: main_loop.induct)
  case (2 M path d evs)
  then obtain ev d1 where r: "reload M path d = Inr (ev, d1)" "main_loop M path d1 evs = Inr (code, d')"
    by (auto simp: rbind_Inr_iff)
  with 2(1) [OF _ _ _ r(2)] reload_inv [OF 2(2) r(1)] reload_wired [OF 2(2,3) r(1)] reload_stranding [OF 2(2-4) r(1)]
  show ?case by fastforce
qed auto

text \<open>The memory limit is set before the outputs are tried.\<close>

lemma reload_outputs_limit: "reload_outputs M cfg lr d = Inr (ev, d') \<Longrightarrow> dm_memory_limit d' = dm_memory_limit d"
  by (auto simp: reload_outputs_def reload_metrics_def install_def Let_def split: prod.splits sum.splits if_splits)

section \<open>A sample daemon\<close>

text \<open>A file that can be read at start-up only, and one that then asks for an alerts file that cannot be opened.\<close>

definition sample_main :: "bool \<Rightarrow> (string \<times> usm_params) list main_env" where
  "sample_main gone =
     \<lparr>me_os = sample_os_env\<lparr>oe_open := (\<lambda>n req. case req of OpenAppend _ \<Rightarrow> Some (EnvError ''permission denied'') | _ \<Rightarrow> None)\<rparr>,
      me_read = (\<lambda>n path. if n = 0 then Inr [] else if gone then Inl (EnvError ''no such file'') else Inr [1]),
      me_unmarshal = (\<lambda>bs. Inr (if bs = [] then file_config
        else file_config\<lparr>ac_logging := \<lparr>lc_level = [], lc_format = [], lc_file = [], lc_alerts_file = ''/alerts''\<rparr>\<rparr>)),
      me_lib = sample_lib, me_malformed = (\<lambda>_. False)\<rparr>"

definition loaded_config :: app_config where
  "loaded_config = filled (applyDefaults file_config)"

lemma loaded_config_simps [simp]:
  "ac_forwarders loaded_config = []" "rv_v3_users (ac_receiver loaded_config) = []" "\<not> mc_enabled (ac_metrics loaded_config)"
  "ac_logging loaded_config = \<lparr>lc_level = ''INFO'', lc_format = ''text'', lc_file = [], lc_alerts_file = []\<rparr>"
  "rc_memory_limit (ac_runtime loaded_config) = ''1KiB''"
  by (simp_all add: loaded_config_def filled_def applyDefaults_def file_config_def blank_config_def str_default_def
      default_metrics_def)

lemma sample_limit: "ParseMemoryLimit ''1KiB'' = Inr 1024" "trim_space ''1KiB'' = ''1KiB''"
proof -
  show t: "trim_space ''1KiB'' = ''1KiB''"
    by (rule trim_space_all_solid) (simp add: solid_def space_runes_def)
  have "trim_space ''KiB'' = ''KiB''"
    by (rule trim_space_all_solid) (simp add: solid_def space_runes_def)
  with t show "ParseMemoryLimit ''1KiB'' = Inr 1024"
    by (simp add: ParseMemoryLimit_def run_simps cong: if_cong option.case_cong)
qed

lemma sample_load: "load_config (sample_main gone) ''relay.yaml'' empty_os = Inr loaded_config"
  using file_config_loads by (simp add: load_config_def Load_def sample_main_def empty_os_def loaded_config_def)

lemma sample_format: "log_format_of ''text'' = Some TextFormat"
  by (simp add: run_simps cong: if_cong)

lemma sample_start: "\<exists>d. run_start (sample_main gone) ''relay.yaml'' False None empty_os = Inr (Up d) \<and>
    dm_os d = \<lparr>os_calls = 1, os_open = [0], os_written = []\<rparr> \<and> dm_memory_limit d = Some 1024"
proof -
  have r: "NewResource (me_os (sample_main gone)) (ac_logging loaded_config) empty_os =
    (Inr \<lparr>lr_logger = \<lparr>lg_format = TextFormat, lg_level = parseLevel ''INFO'', lg_writer = None\<rparr>, lr_closer = None\<rparr>, empty_os)"
    by (simp add: NewResource_def sample_format)
  have l: "applyRuntimeConfig loaded_config None = (None, Some 1024)"
    by (simp add: applyRuntimeConfig_def get_runtime_memory_limit_def sample_limit)
  have d: "New_decoder (me_lib (sample_main gone)) loaded_config = Inr \<lparr>dec_g = Some None, dec_cfg = Some loaded_config\<rparr>"
    by (simp add: New_decoder_def Reload_decoder_def)
  have s: "New_socket (me_os (sample_main gone)) (ac_server loaded_config) empty_os =
    (Inr 0, \<lparr>os_calls = 1, os_open = [0], os_written = []\<rparr>)"
    by (simp add: New_socket_def sample_main_def sample_os_env_def sys_open_def empty_os_def)
  have a: "NewAlertsWriter (me_os (sample_main gone)) (ac_logging loaded_config) empty_os = (Inr None, empty_os)"
    by (simp add: NewAlertsWriter_def)
  show ?thesis
    by (simp add: run_start_def sample_load r l serve_def d s a NewUDP_def del: loaded_config_simps(4) One_nat_def)
qed

text \<open>A daemon that logs to a file.\<close>

definition file_main :: "(string \<times> usm_params) list main_env" where
  "file_main =
     \<lparr>me_os = sample_os_env\<lparr>oe_open := (\<lambda>_ _. None)\<rparr>, me_read = (\<lambda>_ _. Inr []),
      me_unmarshal = (\<lambda>_. Inr (file_config\<lparr>ac_logging := \<lparr>lc_level = [], lc_format = [], lc_file = ''/log'', lc_alerts_file = []\<rparr>\<rparr>)),
      me_lib = sample_lib, me_malformed = (\<lambda>_. False)\<rparr>"

lemma file_load:
  "\<exists>cfg. (\<forall>w. load_config file_main ''relay.yaml'' w = Inr cfg) \<and> ac_forwarders cfg = [] \<and>
     rv_v3_users (ac_receiver cfg) = [] \<and> \<not> mc_enabled (ac_metrics cfg) \<and> rc_memory_limit (ac_runtime cfg) = ''1KiB'' \<and>
     lc_file (ac_logging cfg) = ''/log'' \<and> lc_format (ac_logging cfg) = ''text'' \<and> lc_alerts_file (ac_logging cfg) = []"
proof -
  let ?raw = "file_config\<lparr>ac_logging := \<lparr>lc_level = [], lc_format = [], lc_file = ''/log'', lc_alerts_file = []\<rparr>\<rparr>"
  have "validate (applyDefaults file_config) = Inr (filled (applyDefaults file_config))"
    using file_config_loads by (simp add: Load_def)
  then have "wf_config (filled (applyDefaults file_config))" by (simp add: validate_accepts)
  then have "wf_config (filled (applyDefaults ?raw))" by (simp add: wf_config_def filled_def applyDefaults_def)
  then have "load_config file_main ''relay.yaml'' w = Inr (filled (applyDefaults ?raw))" for w
    by (simp add: load_config_def Load_accepts file_main_def)
  then show ?thesis
    by (intro exI [of _ "filled (applyDefaults ?raw)"])
       (simp add: filled_def applyDefaults_def str_default_def file_config_def blank_config_def default_metrics_def)
qed

lemma file_start:
  "\<exists>d d'. run_start file_main ''relay.yaml'' False None empty_os = Inr (Up d) \<and> dm_closer d = Some 0 \<and>
     reload file_main ''relay.yaml'' d = Inr (''config_reloaded'', d')"
proof -
  obtain cfg where cfg: "\<And>w. load_config file_main ''relay.yaml'' w = Inr cfg" "ac_forwarders cfg = []"
    "rv_v3_users (ac_receiver cfg) = []" "\<not> mc_enabled (ac_metrics cfg)" "rc_memory_limit (ac_runtime cfg) = ''1KiB''"
    "lc_file (ac_logging cfg) = ''/log''" "lc_format (ac_logging cfg) = ''text''" "lc_alerts_file (ac_logging cfg) = []"
    using file_load by blast
  have r: "NewResource (me_os file_main) (ac_logging cfg) w =
      (Inr \<lparr>lr_logger = \<lparr>lg_format = TextFormat, lg_level = parseLevel (lc_level (ac_logging cfg)), lg_writer = Some (os_calls w)\<rparr>,
        lr_closer = Some (os_calls w)\<rparr>, w\<lparr>os_calls := Suc (os_calls w), os_open := os_calls w # os_open w\<rparr>)" for w
    by (simp add: NewResource_def cfg sample_format file_main_def sample_os_env_def sys_open_def)
  have l: "applyRuntimeConfig cfg v = (None, Some 1024)" for v
    by (simp add: applyRuntimeConfig_def get_runtime_memory_limit_def sample_limit cfg)
  have dec: "New_decoder (me_lib file_main) cfg = Inr \<lparr>dec_g = Some None, dec_cfg = Some cfg\<rparr>"
    by (simp add: New_decoder_def Reload_decoder_def cfg)
  have s: "New_socket (me_os file_main) (ac_server cfg) w =
    (Inr (os_calls w), w\<lparr>os_calls := Suc (os_calls w), os_open := os_calls w # os_open w\<rparr>)" for w
    by (simp add: New_socket_def file_main_def sample_os_env_def sys_open_def)
  have a: "NewAlertsWriter (me_os file_main) (ac_logging cfg) w = (Inr None, w)" for w
    by (simp add: NewAlertsWriter_def cfg)
  obtain d where d: "run_start file_main ''relay.yaml'' False None empty_os = Inr (Up d)" "dm_closer d = Some 0"
    "dm_metrics_cfg d = ac_metrics cfg"
    by (simp add: run_start_def cfg r l serve_def dec s a NewUDP_def empty_os_def del: One_nat_def)
  have "\<exists>d'. reload file_main ''relay.yaml'' d = Inr (''config_reloaded'', d')"
    by (simp add: reload_def cfg r l reload_outputs_def a NewUDP_def dec reload_metrics_def swap_metrics_def d)
  with d show ?thesis by blast
qed

section \<open>Properties\<close>

lemma empty_os_inv: "os_inv empty_os" "os_open empty_os = []"
  by (simp_all add: empty_os_def os_inv_def)

text \<open>
  C18. From the start-up of a process with nothing open and after any sequence of reloads, successful or not and whatever the system refuses,
  the daemon loses no handle of its variables: its socket, log file, alerts file and forwarder sockets are
  all open, every target has a socket of its own, and the only other open handle is the listener of its metrics
  server. The engine works with these: its run-time state has the current forwarder, logger and alerts writer, and
  the logger writes to the open log file. This is not so for the logger that the server itself keeps
  (\<open>reload_strands_server_logger\<close>).
\<close>

theorem daemon_keeps_resources:
  assumes "os_inv w" "os_open w = []" "run_start M path False limit w = Inr (Up d)"
    and "main_loop M path d evs = Inr (code, d')"
  shows "owned d' \<subseteq> set (os_open (dm_os d')) \<and>
    set (os_open (dm_os d')) \<subseteq> owned d' \<union> listeners (dm_metrics d') \<and> wired d'"
  using main_loop_inv [OF _ _ assms(4)] run_start_up [OF assms(3,1,2)] daemon_invD(2,3) [of d'] by blast

lemma daemon_keeps_resources_witness:
  "\<exists>d d'. run_start (sample_main True) ''relay.yaml'' False None empty_os = Inr (Up d) \<and>
     main_loop (sample_main True) ''relay.yaml'' d [Hup] = Inr (None, d') \<and> owned d' \<subseteq> set (os_open (dm_os d'))"
proof -
  obtain d where d: "run_start (sample_main True) ''relay.yaml'' False None empty_os = Inr (Up d)"
    "dm_os d = \<lparr>os_calls = 1, os_open = [0], os_written = []\<rparr>"
    using sample_start [of True] by blast
  have "main_loop (sample_main True) ''relay.yaml'' d [Hup] = Inr (None, d)"
    using d(2) by (simp add: reload_def load_config_def Load_def sample_main_def)
  with d(1) daemon_keeps_resources [OF empty_os_inv d(1) this] show ?thesis by blast
qed

text \<open>
  C16. A reload is all or nothing for the service: either the log message is not config_reloaded and the
  engine (its rules, its decoder, its forwarder and its dedup states), the logger, the alerts writer, the
  forwarder and the socket are those of before; or the engine runs the newly loaded configuration with
  a decoder built from it, through one socket of its own for each of the enabled forwarders, with a logger and an
  alerts writer as the configuration asks, and with the dedup states and the socket it had, while the old log file,
  alerts file and forwarder sockets are closed. Either way the socket and the files and forwarder sockets that the
  daemon then holds are open.
\<close>

theorem reload_all_or_nothing:
  assumes "daemon_inv d" "reload M path d = Inr (ev, d')"
  shows "(ev \<noteq> ''config_reloaded'' \<and> same_service d d' \<or>
    ev = ''config_reloaded'' \<and> replaces d d' \<and> wired d' \<and>
      (\<exists>cfg. load_config M path (dm_os d) = Inr cfg \<and> wf_config cfg \<and> serves M cfg d')) \<and>
    owned d' \<subseteq> set (os_open (dm_os d'))"
proof -
  have "load_config M path (dm_os d) = Inr cfg \<Longrightarrow> wf_config cfg" for cfg
    by (auto simp: load_config_def Load_accepts)
  with reload_outcome [OF assms(2)] daemon_invD(1) [OF assms(1)] reload_inv [OF assms] daemon_invD(2) [of d']
  show ?thesis by blast
qed

lemma reload_all_or_nothing_witness:
  "\<exists>d d'. run_start file_main ''relay.yaml'' False None empty_os = Inr (Up d) \<and>
     reload file_main ''relay.yaml'' d = Inr (''config_reloaded'', d') \<and> replaces d d' \<and> wired d'"
proof -
  obtain d d' where d: "run_start file_main ''relay.yaml'' False None empty_os = Inr (Up d)" "dm_closer d = Some 0"
    "reload file_main ''relay.yaml'' d = Inr (''config_reloaded'', d')"
    using file_start by blast
  have "daemon_inv d" using run_start_up [OF d(1) empty_os_inv] by blast
  from reload_all_or_nothing [OF this d(3)] d show ?thesis by blast
qed

text \<open>
  C35. What a failed reload does change: when a configuration loads, names a memory limit and has its log file
  opened, the limit of the process is set before the alerts writer, the forwarders, the decoder and the metrics server
  are tried, and is not set back when one of them fails, although the engine, the logger, the alerts writer,
  the forwarder and the socket stay those of before.
\<close>

theorem failed_reload_sets_memory_limit:
  assumes "load_config M path (dm_os d) = Inr cfg" "NewResource (me_os M) (ac_logging cfg) (dm_os d) = (Inr lr, w1)"
    and "trim_space (rc_memory_limit (ac_runtime cfg)) \<noteq> []"
    and "reload M path d = Inr (ev, d')" "ev \<noteq> ''config_reloaded''"
  shows "same_service d d' \<and>
    (\<exists>n. ParseMemoryLimit (rc_memory_limit (ac_runtime cfg)) = Inr n \<and> dm_memory_limit d' = Some n)"
proof -
  have "wf_config cfg" using assms(1) by (auto simp: load_config_def Load_accepts)
  then obtain n where n: "memory_limit_text (trim_space (rc_memory_limit (ac_runtime cfg))) n"
    by (auto simp: wf_config_def)
  then have p: "ParseMemoryLimit (trim_space (rc_memory_limit (ac_runtime cfg))) = Inr n"
    "ParseMemoryLimit (rc_memory_limit (ac_runtime cfg)) = Inr n"
    by (simp_all add: ParseMemoryLimit_accepts)
  with assms(1-4) have "reload_outputs M cfg lr (d\<lparr>dm_memory_limit := Some n, dm_os := w1\<rparr>) = Inr (ev, d')"
    by (simp add: reload_def applyRuntimeConfig_def get_runtime_memory_limit_def)
  from reload_outputs_limit [OF this] p(2) reload_outcome [OF assms(4)] assms(5) show ?thesis by simp
qed

lemma second_config_loads:
  "\<exists>cfg. load_config (sample_main False) ''relay.yaml'' \<lparr>os_calls = 1, os_open = [0], os_written = []\<rparr> = Inr cfg \<and>
     lc_file (ac_logging cfg) = [] \<and> lc_format (ac_logging cfg) = ''text'' \<and> lc_alerts_file (ac_logging cfg) = ''/alerts'' \<and>
     rc_memory_limit (ac_runtime cfg) = ''1KiB''"
proof -
  let ?raw = "file_config\<lparr>ac_logging := \<lparr>lc_level = [], lc_format = [], lc_file = [], lc_alerts_file = ''/alerts''\<rparr>\<rparr>"
  have "validate (applyDefaults file_config) = Inr (filled (applyDefaults file_config))"
    using file_config_loads by (simp add: Load_def)
  then have "wf_config (filled (applyDefaults file_config))" by (simp add: validate_accepts)
  then have "wf_config (filled (applyDefaults ?raw))" by (simp add: wf_config_def filled_def applyDefaults_def)
  then have "load_config (sample_main False) ''relay.yaml'' \<lparr>os_calls = 1, os_open = [0], os_written = []\<rparr> =
      Inr (filled (applyDefaults ?raw))"
    by (simp add: load_config_def Load_accepts sample_main_def)
  then show ?thesis
    by (intro exI [of _ "filled (applyDefaults ?raw)"])
       (simp add: filled_def applyDefaults_def str_default_def file_config_def)
qed

lemma failed_reload_sets_memory_limit_witness:
  "\<exists>d d'. reload (sample_main False) ''relay.yaml'' d = Inr (''alerts_log_reload_failed'', d') \<and>
     dm_memory_limit d = None \<and> dm_memory_limit d' = Some 1024"
proof -
  let ?M = "sample_main False"
  obtain d0 :: "(string \<times> usm_params) list daemon" where d0: "dm_os d0 = \<lparr>os_calls = 1, os_open = [0], os_written = []\<rparr>"
    using sample_start [of False] by blast
  let ?d = "d0\<lparr>dm_memory_limit := None\<rparr>"
  obtain cfg where cfg: "load_config ?M ''relay.yaml'' (dm_os ?d) = Inr cfg"
    "lc_file (ac_logging cfg) = []" "lc_format (ac_logging cfg) = ''text''" "lc_alerts_file (ac_logging cfg) = ''/alerts''"
    "rc_memory_limit (ac_runtime cfg) = ''1KiB''"
    using second_config_loads d0 by auto
  obtain lr where lr: "NewResource (me_os ?M) (ac_logging cfg) (dm_os ?d) = (Inr lr, dm_os ?d)"
    using cfg sample_format by (simp add: NewResource_def)
  obtain e w where "NewAlertsWriter (me_os ?M) (ac_logging cfg) (dm_os ?d) = (Inl e, w)"
    using cfg by (simp add: NewAlertsWriter_def sample_main_def sys_open_def)
  with cfg lr sample_limit obtain d' where d': "reload ?M ''relay.yaml'' ?d = Inr (''alerts_log_reload_failed'', d')"
    by (simp add: reload_def applyRuntimeConfig_def get_runtime_memory_limit_def reload_outputs_def)
  have "same_service ?d d' \<and> (\<exists>n. ParseMemoryLimit (rc_memory_limit (ac_runtime cfg)) = Inr n \<and> dm_memory_limit d' = Some n)"
    by (rule failed_reload_sets_memory_limit [OF cfg(1) lr _ d']) (simp_all add: cfg sample_limit)
  then have "dm_memory_limit d' = Some 1024" using cfg sample_limit by simp
  moreover have "dm_memory_limit ?d = None" by simp
  ultimately show ?thesis using d' by blast
qed

text \<open>
  C19. The logger of the server is lost by a reload: a daemon whose log file was opened at start-up gives the
  server a logger on that file; after a successful reload, whatever reloads came before and come after it, the
  server's logger still writes to that file, and the file is closed.
\<close>

theorem reload_strands_server_logger:
  assumes "os_inv w" "os_open w = []" "run_start M path False limit w = Inr (Up d)" "dm_closer d = Some h"
    and "main_loop M path d evs = Inr (None, d1)" "reload M path d1 = Inr (''config_reloaded'', d2)"
    and "main_loop M path d2 evs' = Inr (code, d')"
  shows "lg_writer (dm_server_logger d') = Some h \<and> h \<notin> set (os_open (dm_os d'))"
proof -
  have d: "daemon_inv d" "wired d" "dm_server_logger d = dm_logger d" using run_start_up [OF assms(3,1,2)] by simp_all
  then have lg: "lg_writer (dm_server_logger d) = Some h" using assms(4) by (simp add: wired_def)
  have old: "h < os_calls (dm_os d)"
    using daemon_invD(1,2) [OF d(1)] assms(4) by (auto simp: owned_def os_inv_def)
  have st: "stranding h d" by (simp add: stranding_def assms(4) old)
  note d1 = main_loop_stranding [OF d(1,2) st assms(5)] main_loop_inv [OF d(1,2) assms(5)]
  then have "stranding h d2 \<and> h \<notin> set (os_open (dm_os d2))" using reload_stranding [OF _ _ _ assms(6)] by blast
  moreover have "daemon_inv d2" "wired d2" "dm_server_logger d2 = dm_server_logger d1"
    using d1 reload_inv [OF _ assms(6)] reload_wired [OF _ _ assms(6)] by blast+
  ultimately have "h < os_calls (dm_os d2) \<and> h \<notin> set (os_open (dm_os d2))"
    "dm_server_logger d' = dm_server_logger d2 \<and> newer (dm_os d2) (dm_os d')"
    using main_loop_inv [OF _ _ assms(7)] by (auto simp: stranding_def)
  with lg d1(2) \<open>dm_server_logger d2 = _\<close> newer_closed show ?thesis by metis
qed

lemma reload_strands_server_logger_witness:
  "\<exists>d d'. run_start file_main ''relay.yaml'' False None empty_os = Inr (Up d) \<and>
     reload file_main ''relay.yaml'' d = Inr (''config_reloaded'', d') \<and>
     lg_writer (dm_server_logger d') = Some 0 \<and> 0 \<notin> set (os_open (dm_os d'))"
proof -
  obtain d d' where d: "run_start file_main ''relay.yaml'' False None empty_os = Inr (Up d)" "dm_closer d = Some 0"
    "reload file_main ''relay.yaml'' d = Inr (''config_reloaded'', d')"
    using file_start by blast
  from reload_strands_server_logger [OF empty_os_inv d(1,2) _ d(3), of "[]" "[]" None d'] d show ?thesis by auto
qed

end
