(* ===== verification/Dedup_Races.thy ===== *)
theory Dedup_Races
  imports Server_Runs
begin

text \<open>
  What interleaved workers guarantee about deduplication, and what they do not: the store keeps its
  invariant and the limit of the configuration the relay was started with, under every schedule and
  every reload; but \<open>Get\<close> and \<open>Put\<close> are two operations, and two workers that both call \<open>Get\<close> before
  either calls \<open>Put\<close> forward the same alarm twice.
\<close>

section \<open>The store of a running server\<close>

definition store_kept :: "int \<Rightarrow> 't server \<Rightarrow> bool" where
  "store_kept limit s \<longleftrightarrow> store_inv (en_dedup (sv_engine s)) \<and> st_limit (en_dedup (sv_engine s)) = limit"

lemma set_worker_kept [simp]: "store_kept limit (set_worker s i pc) = store_kept limit s"
  by (simp add: store_kept_def)

lemma Cleanup_kept: "store_inv s \<Longrightarrow> store_inv (snd (Store_Cleanup s now)) \<and> st_limit (snd (Store_Cleanup s now)) = st_limit s"
  by (simp add: inv_Cleanup) (simp add: Store_Cleanup_def)

lemma step_kept: "server_step E s l s' \<Longrightarrow> store_kept limit s \<Longrightarrow> store_kept limit s'"
proof (induction rule: server_step.induct)
  case (advance s i st pc w sent pc' w')
  then show ?case using handler_step_frame(2,3) [OF advance(3,2)] by (simp add: store_kept_def)
next
  case (answered s i st pc w sent res w')
  then show ?case using handler_step_frame(2,3) [OF answered(3,2)] by (simp add: store_kept_def)
qed (auto simp: store_kept_def Reload_engine_def engine_Cleanup_def Cleanup_kept split_beta)

interpretation kept: stable "server_step E" "\<lambda>_. True" "store_kept limit" for E limit
  by unfold_locales (rule step_kept)

section \<open>The steps of one worker\<close>

text \<open>A handler that makes \<open>n\<close> steps, none of them a \<open>Put\<close>, and has no answer yet.\<close>

inductive handler_path ::
    "match_env \<Rightarrow> err option \<Rightarrow> 'd runtime_state \<Rightarrow> handler_pc \<times> work \<Rightarrow> nat \<Rightarrow> handler_pc \<times> work \<Rightarrow> bool" for W sent st where
  path_refl: "\<not> is_answer (fst pw) \<Longrightarrow> handler_path W sent st pw 0 pw"
| path_step: "\<not> is_answer (fst pw) \<Longrightarrow> step_label (fst pw) (wk_event (snd pw)) = Tau \<Longrightarrow>
    handler_path W sent st (handler_step W (\<lambda>_ _. sent) st pw) n pw' \<Longrightarrow>
    handler_path W sent st pw (Suc n) pw'"

inductive_cases handler_pathE: "handler_path W sent st pw n pw'"

lemma handler_path_open: "handler_path W sent st pw n pw' \<Longrightarrow> \<not> is_answer (fst pw) \<and> \<not> is_answer (fst pw')"
  by (induction rule: handler_path.induct) auto

text \<open>The server in which only worker \<open>i\<close> and the store have changed.\<close>

definition moved :: "'t server \<Rightarrow> nat \<Rightarrow> 't worker_pc \<Rightarrow> store \<Rightarrow> 't server" where
  "moved s i pc store = set_worker (s\<lparr>sv_engine := (sv_engine s)\<lparr>en_dedup := store\<rparr>\<rparr>) i pc"

lemma moved_simps [simp]:
  "sv_engine (moved s i pc store) = (sv_engine s)\<lparr>en_dedup := store\<rparr>"
  "length (sv_workers (moved s i pc store)) = length (sv_workers s)"
  "moved (moved s i pc store) i pc' store' = moved s i pc' store'"
  by (simp_all add: moved_def set_worker_def)

lemma worker_at_moved:
  "i < length (sv_workers s) \<Longrightarrow> worker_at (moved s i pc store) i pc"
  "i \<noteq> j \<Longrightarrow> worker_at (moved s i pc store) j pc' = worker_at s j pc'"
  by (simp_all add: worker_at_def moved_def set_worker_def)

text \<open>The handler reads the store as it is when it makes its step, not as it was when it stopped.\<close>

lemma handler_path_run:
  assumes "handler_path (se_match E) sent st pw n pw'" "pw = (pc, w\<lparr>wk_store := en_dedup (sv_engine s)\<rparr>)"
    and "worker_at s i (Running st pc w)"
  shows "server_run E s (replicate n Tau) (if n = 0 then s else moved s i (Running st (fst pw') (snd pw')) (wk_store (snd pw')))"
  using assms
proof (induction arbitrary: s pc w rule: handler_path.induct)
  case (path_refl pw)
  then show ?case by (simp add: run_nil)
next
  case (path_step pw n pw')
  obtain pc1 w1 where h: "handler_step (se_match E) (\<lambda>_ _. sent) st pw = (pc1, w1)" by fastforce
  let ?s1 = "moved s i (Running st pc1 w1) (wk_store w1)"
  have "\<not> is_answer pc1" using handler_path_open [OF path_step.hyps(3)] h by simp
  with server_step.advance [of s i st pc w E sent pc1 w1] path_step.hyps(1,2) path_step.prems h
  have one: "server_step E s Tau ?s1" by (simp add: moved_def)
  have i: "i < length (sv_workers s)" using path_step.prems(2) by (simp add: worker_at_def)
  have "w1\<lparr>wk_store := en_dedup (sv_engine ?s1)\<rparr> = w1" by simp
  with path_step.IH [of pc1 ?s1 w1] i h have rest: "server_run E ?s1 (replicate n Tau)
      (if n = 0 then ?s1 else moved s i (Running st (fst pw') (snd pw')) (wk_store (snd pw')))"
    by (cases "n = 0") (simp_all add: worker_at_moved)
  have "n = 0 \<Longrightarrow> pw' = (pc1, w1)"
    using path_step.hyps(3) h by (auto elim: handler_pathE)
  with run_cons [OF one rest] show ?case by (cases "n = 0") auto
qed

section \<open>Two workers, one alarm\<close>

text \<open>The local computation up to \<open>Get\<close> of an alarm whose trap clears nothing.\<close>

lemma quiet_round:
  assumes "clear_verdict W (wk_event w) a = (None, None)"
  shows "\<exists>xs. clear_round W st (flag, w) a = (flag, w\<lparr>wk_out := wk_out w @ xs\<rparr>) \<and> sends xs = []"
  using assms
  by (cases w) (auto simp: clear_verdict_def clear_round_def emit_def
      split: option.splits sum.splits bool.splits clear_check.splits if_splits)

lemma quiet_rounds:
  assumes "\<forall>a \<in> set alarms. clear_verdict W (wk_event w) a = (None, None)"
  shows "\<exists>xs. sends xs = [] \<and> (\<forall>n pw'. handler_path W sent st (Rounds flag [], w\<lparr>wk_out := wk_out w @ xs\<rparr>) n pw' \<longrightarrow>
    handler_path W sent st (Rounds flag alarms, w) (length alarms + n) pw')"
  using assms
proof (induction alarms arbitrary: w)
  case Nil
  show ?case by (rule exI [of _ "[]"]) simp
next
  case (Cons a as)
  then have "clear_verdict W (wk_event w) a = (None, None)" by simp
  then obtain xs where r: "clear_round W st (flag, w) a = (flag, w\<lparr>wk_out := wk_out w @ xs\<rparr>)" and x: "sends xs = []"
    using quiet_round by blast
  from Cons.IH [of "w\<lparr>wk_out := wk_out w @ xs\<rparr>"] Cons.prems obtain ys where
    y: "sends ys = []" "\<forall>n pw'. handler_path W sent st (Rounds flag [], w\<lparr>wk_out := wk_out w @ xs @ ys\<rparr>) n pw' \<longrightarrow>
      handler_path W sent st (Rounds flag as, w\<lparr>wk_out := wk_out w @ xs\<rparr>) (length as + n) pw'" by auto
  have "handler_path W sent st (Rounds flag (a # as), w) (length (a # as) + n) pw'"
    if "handler_path W sent st (Rounds flag [], w\<lparr>wk_out := wk_out w @ xs @ ys\<rparr>) n pw'" for n pw'
    using path_step [of "(Rounds flag (a # as), w)" W sent st "length as + n" pw'] y(2) that r by simp
  with x y(1) show ?case by (intro exI [of _ "xs @ ys"]) simp
qed

lemma get_closed:
  assumes "\<not> open_window now (windows s (r, h))"
  shows "fst (Store_Get s r h now) = None"
    and "\<not> open_window now' (windows s (r, h)) \<Longrightarrow> \<not> open_window now' (windows (snd (Store_Get s r h now)) (r, h))"
  using assms
  by (auto simp: open_window_visible look_Get prod_eq_iff visible_def split: option.splits if_splits)

text \<open>Alone with the store up to \<open>Put\<close>.\<close>

lemma alarm_reaches_put:
  assumes "raises W (rs_cfg st) e alarm hash" "\<not> open_window (ev_received_at e) (windows s (al_id alarm, hash))"
    and "handler_start W st (start_work s e) = (pc, w0)"
  shows "\<exists>key w. pc = Rounds False (ac_alarms (rs_cfg st)) \<and> w0 = start_work s e \<and> dk_hash key = hash \<and>
    handler_path W sent st (pc, w0) (length (ac_alarms (rs_cfg st)) + 2) (Storing alarm key, w) \<and>
    wk_event w = e \<and> sends (wk_out w) = [] \<and> wk_store w = snd (Store_Get s (al_id alarm) hash (ev_received_at e))"
proof -
  obtain r key where e: "evaluateFilters W (rs_cfg st) e = Inr (r, False)"
    "\<forall>a \<in> set (ac_alarms (rs_cfg st)). clear_verdict W e a = (None, None)" "matchAlarm W (rs_cfg st) e = Inr (Some alarm)"
    and key: "BuildDedupKey W e (dd_key_fields (al_dedup alarm)) = Inr key" "complete_key key" "dk_hash key = hash"
    using assms(1) by (auto simp: raises_def kept_def)
  have start: "pc = Rounds False (ac_alarms (rs_cfg st))" "w0 = start_work s e"
    using assms(3) e(1) by (simp_all add: handler_start_def)
  let ?w = "\<lambda>xs. (start_work s e)\<lparr>wk_out := xs\<rparr>"
  obtain xs where x: "sends xs = []" and rounds: "\<And>n pw'. handler_path W sent st (Rounds False [], ?w xs) n pw' \<Longrightarrow>
      handler_path W sent st (pc, w0) (length (ac_alarms (rs_cfg st)) + n) pw'"
    using quiet_rounds [of "ac_alarms (rs_cfg st)" W w0 sent st False] e(2) start by auto
  let ?s = "snd (Store_Get s (al_id alarm) hash (ev_received_at e))"
  have "handler_step W (\<lambda>_ _. sent) st (Rounds False [], ?w xs) = (Looking alarm key, ?w xs)"
    using e(3) key by (simp add: after_rounds_def complete_key_def)
  moreover have "handler_step W (\<lambda>_ _. sent) st (Looking alarm key, ?w xs) = (Storing alarm key, (?w xs)\<lparr>wk_store := ?s\<rparr>)"
    using get_closed(1) [OF assms(2)] key(3) by (simp add: Let_def split_beta)
  ultimately have "handler_path W sent st (Rounds False [], ?w xs) (Suc (Suc 0)) (Storing alarm key, (?w xs)\<lparr>wk_store := ?s\<rparr>)"
    by (intro path_step) (simp_all add: path_refl)
  from rounds [OF this] start key(3) x show ?thesis
    by (intro exI [of _ key] exI [of _ "(?w xs)\<lparr>wk_store := ?s\<rparr>"]) simp
qed

text \<open>From \<open>Put\<close> to the end, with a forwarder that accepts the packet.\<close>

lemma send_forwards:
  "\<exists>w' res. handler_step W (\<lambda>_ _. None) st (Sending alarm key, w) = (Answer res, w') \<and> wk_store w' = wk_store w \<and>
     sends (wk_out w') = sends (wk_out w) @ [(ev_raw_bytes (wk_event w), None)]"
proof -
  obtain res w' where f: "send_alarm (\<lambda>_ _. None) st alarm key w = (res, w')" by fastforce
  then have "oc_forwarded (fst res)" by (auto simp: send_alarm_def Let_def)
  with send_alarm_effect [OF f] have "sends (wk_out w') = sends (wk_out w) @ [(ev_raw_bytes (wk_event w), None)]"
    by (auto simp: result_sends_def dest: effect_sends)
  with f send_alarm_sim [OF f] show ?thesis by (intro exI [of _ w'] exI [of _ res]) (simp add: answer_def)
qed

text \<open>A worker from its event to \<open>Put\<close>, and from \<open>Put\<close> to its label, in the server.\<close>

lemma worker_reaches_put:
  assumes "worker_at s i (Handling e)" "en_state (sv_engine s) = Some st"
    and "raises (se_match E) (rs_cfg st) e alarm hash"
    and "\<not> open_window (ev_received_at e) (windows (en_dedup (sv_engine s)) (al_id alarm, hash))"
  shows "\<exists>n key w. dk_hash key = hash \<and> wk_event w = e \<and> sends (wk_out w) = [] \<and>
    server_run E s (replicate n Tau) (moved s i (Running st (Storing alarm key) w)
      (snd (Store_Get (en_dedup (sv_engine s)) (al_id alarm) hash (ev_received_at e))))"
proof -
  let ?d = "en_dedup (sv_engine s)"
  obtain pc w0 where h: "handler_start (se_match E) st (start_work ?d e) = (pc, w0)" by fastforce
  let ?s1 = "set_worker s i (Running st pc w0)"
  obtain key w where w: "w0 = start_work ?d e" "dk_hash key = hash" "wk_event w = e" "sends (wk_out w) = []"
    "wk_store w = snd (Store_Get ?d (al_id alarm) hash (ev_received_at e))"
    and path: "handler_path (se_match E) None st (pc, w0) (length (ac_alarms (rs_cfg st)) + 2) (Storing alarm key, w)"
    using alarm_reaches_put [OF assms(3,4) h] by blast
  have one: "server_step E s Tau ?s1"
    using server_step.start_handler [OF assms(1,2) h] handler_path_open [OF path] by simp
  have "worker_at ?s1 i (Running st pc w0)" using assms(1) by (simp add: worker_at_def set_worker_def)
  moreover have "moved ?s1 i (Running st (Storing alarm key) w) d = moved s i (Running st (Storing alarm key) w) d" for d
    by (simp add: moved_def set_worker_def)
  ultimately have rest: "server_run E ?s1 (replicate (length (ac_alarms (rs_cfg st)) + 2) Tau)
      (moved s i (Running st (Storing alarm key) w) (wk_store w))"
    using handler_path_run [OF path, of pc ?s1 w0 i] w(1) by (simp add: start_work_def)
  from run_cons [OF one rest] w show ?thesis
    by (intro exI [of _ "Suc (length (ac_alarms (rs_cfg st)) + 2)"] exI [of _ key] exI [of _ w]) simp
qed

lemma worker_puts:
  assumes "worker_at s i (Running st (Storing alarm key) w)" "sends (wk_out w) = []"
  shows "\<exists>b cs v d. windows d (al_id alarm, dk_hash key) \<noteq> None \<and>
    server_step E s (Stored (wk_event w)) (moved s i (Running st (Sending alarm key) v) d) \<and>
    server_step E (moved s i (Running st (Sending alarm key) v) d)
      (Handled ((wk_event w)\<lparr>ev_alerts_logged := b\<rparr>) [(ev_raw_bytes (wk_event w), None)]) (moved s i (Counting cs) d)"
proof -
  let ?w = "store_alarm alarm key (w\<lparr>wk_store := en_dedup (sv_engine s)\<rparr>)"
  let ?s = "moved s i (Running st (Sending alarm key) ?w) (wk_store ?w)"
  have put: "server_step E s (Stored (wk_event w)) ?s"
    using server_step.advance [OF assms(1), of E None "Sending alarm key" ?w] by (simp add: moved_def)
  have at: "worker_at ?s i (Running st (Sending alarm key) ?w)"
    using assms(1) by (intro worker_at_moved(1)) (simp add: worker_at_def)
  have same: "?w\<lparr>wk_store := en_dedup (sv_engine ?s)\<rparr> = ?w" by (simp add: store_alarm_def)
  obtain w' res where h: "handler_step (se_match E) (\<lambda>_ _. None) st (Sending alarm key, ?w) = (Answer res, w')"
    and w': "wk_store w' = wk_store ?w" "sends (wk_out w') = [(ev_raw_bytes (wk_event w), None)]"
    using send_forwards [of "se_match E" st alarm key ?w] assms(2) by auto
  have h': "handler_step (se_match E) (\<lambda>_ _. None) st (Sending alarm key, ?w\<lparr>wk_store := en_dedup (sv_engine ?s)\<rparr>) = (Answer res, w')"
    unfolding same by (rule h)
  have "server_step E ?s (Handled (wk_event w') (sends (wk_out w'))) (moved ?s i (Counting (result_counters res)) (wk_store w'))"
    unfolding moved_def [of ?s] by (rule server_step.answered [OF at _ h']) simp
  then have send: "server_step E ?s (Handled (wk_event w') [(ev_raw_bytes (wk_event w), None)])
      (moved s i (Counting (result_counters res)) (wk_store ?w))" unfolding moved_simps(3) w' .
  have "effect st (step_sends (ev_raw_bytes (wk_event ?w)) (Answer res)) ?w w'"
    by (rule handler_step_effect [OF h]) simp
  from effect_event [OF this] obtain b where b: "wk_event w' = (wk_event w)\<lparr>ev_alerts_logged := b\<rparr>" by auto
  have "windows (wk_store ?w) (al_id alarm, dk_hash key) \<noteq> None" by (simp add: windows_def look_Put(2))
  with put send show ?thesis unfolding b by (intro exI conjI)
qed

lemma taus_send_nothing [simp]: "trace_of sent_of (replicate n Tau) = []"
  by (simp add: trace_of_def)

lemma handled_sends [simp]: "trace_of sent_of [Handled e ss] = ss"
  by (simp add: trace_of_def)

text \<open>Two workers with events of one alarm: both get to \<open>Put\<close>, and then both go through it.\<close>

lemma two_reach_put:
  assumes "i \<noteq> j" "worker_at s i (Handling e1)" "worker_at s j (Handling e2)" "en_state (sv_engine s) = Some st"
    and "raises (se_match E) (rs_cfg st) e1 alarm hash" "raises (se_match E) (rs_cfg st) e2 alarm hash"
    and "\<forall>e \<in> {e1, e2}. \<not> open_window (ev_received_at e) (windows (en_dedup (sv_engine s)) (al_id alarm, hash))"
  shows "\<exists>n k1 w1 k2 w2 d1 d2.
    server_run E s (replicate n Tau) (moved (moved s i (Running st (Storing alarm k1) w1) d1) j (Running st (Storing alarm k2) w2) d2) \<and>
    dk_hash k1 = hash \<and> dk_hash k2 = hash \<and> wk_event w1 = e1 \<and> wk_event w2 = e2 \<and> sends (wk_out w1) = [] \<and> sends (wk_out w2) = []"
proof -
  let ?d = "en_dedup (sv_engine s)"
  let ?d1 = "snd (Store_Get ?d (al_id alarm) hash (ev_received_at e1))"
  obtain n1 k1 w1 where 1: "dk_hash k1 = hash" "wk_event w1 = e1" "sends (wk_out w1) = []"
    and r1: "server_run E s (replicate n1 Tau) (moved s i (Running st (Storing alarm k1) w1) ?d1)"
    using worker_reaches_put [OF assms(2,4,5)] assms(7) by blast
  let ?s1 = "moved s i (Running st (Storing alarm k1) w1) ?d1"
  have "\<not> open_window (ev_received_at e2) (windows (en_dedup (sv_engine ?s1)) (al_id alarm, hash))"
    using get_closed(2) [of "ev_received_at e1" ?d "al_id alarm" hash "ev_received_at e2"] assms(7) by simp
  moreover have "worker_at ?s1 j (Handling e2)" using assms(1,3) by (simp add: worker_at_moved)
  ultimately obtain n2 k2 w2 d2 where 2: "dk_hash k2 = hash" "wk_event w2 = e2" "sends (wk_out w2) = []"
    and r2: "server_run E ?s1 (replicate n2 Tau) (moved ?s1 j (Running st (Storing alarm k2) w2) d2)"
    using worker_reaches_put [of ?s1 j e2 st E alarm hash] assms(4,6) by auto
  from run_append [OF r2 r1] 1 2 show ?thesis unfolding replicate_add [symmetric] by blast
qed

lemma two_put:
  assumes "i \<noteq> j" "worker_at s i (Running st (Storing alarm k1) w1)" "worker_at s j (Running st (Storing alarm k2) w2)"
    and "sends (wk_out w1) = []" "sends (wk_out w2) = []" "dk_hash k1 = hash" "dk_hash k2 = hash"
  shows "\<exists>b1 b2 cs1 cs2 v1 v2 d1 d2.
    server_step E s (Stored (wk_event w1)) (moved s i (Running st (Sending alarm k1) v1) d1) \<and>
    server_step E (moved s i (Running st (Sending alarm k1) v1) d1)
      (Handled ((wk_event w1)\<lparr>ev_alerts_logged := b1\<rparr>) [(ev_raw_bytes (wk_event w1), None)]) (moved s i (Counting cs1) d1) \<and>
    server_step E (moved s i (Counting cs1) d1) (Stored (wk_event w2))
      (moved (moved s i (Counting cs1) d1) j (Running st (Sending alarm k2) v2) d2) \<and>
    server_step E (moved (moved s i (Counting cs1) d1) j (Running st (Sending alarm k2) v2) d2)
      (Handled ((wk_event w2)\<lparr>ev_alerts_logged := b2\<rparr>) [(ev_raw_bytes (wk_event w2), None)])
      (moved (moved s i (Counting cs1) d1) j (Counting cs2) d2) \<and>
    windows d1 (al_id alarm, hash) \<noteq> None \<and> windows d2 (al_id alarm, hash) \<noteq> None"
proof -
  from worker_puts [OF assms(2,4), of E] obtain b1 cs1 v1 d1 where
    1: "windows d1 (al_id alarm, hash) \<noteq> None"
      "server_step E s (Stored (wk_event w1)) (moved s i (Running st (Sending alarm k1) v1) d1)"
      "server_step E (moved s i (Running st (Sending alarm k1) v1) d1)
        (Handled ((wk_event w1)\<lparr>ev_alerts_logged := b1\<rparr>) [(ev_raw_bytes (wk_event w1), None)]) (moved s i (Counting cs1) d1)"
    unfolding assms(6) by blast
  have "worker_at (moved s i (Counting cs1) d1) j (Running st (Storing alarm k2) w2)"
    using assms(1,3) by (simp add: worker_at_moved(2))
  from worker_puts [OF this assms(5), of E] obtain b2 cs2 v2 d2 where
    2: "windows d2 (al_id alarm, hash) \<noteq> None"
      "server_step E (moved s i (Counting cs1) d1) (Stored (wk_event w2))
        (moved (moved s i (Counting cs1) d1) j (Running st (Sending alarm k2) v2) d2)"
      "server_step E (moved (moved s i (Counting cs1) d1) j (Running st (Sending alarm k2) v2) d2)
        (Handled ((wk_event w2)\<lparr>ev_alerts_logged := b2\<rparr>) [(ev_raw_bytes (wk_event w2), None)])
        (moved (moved s i (Counting cs1) d1) j (Counting cs2) d2)"
    unfolding assms(7) by blast
  from 1 2 show ?thesis by (intro exI conjI)
qed

section \<open>Properties\<close>

text \<open>
  C12. Under every interleaving of the workers, with ticks and reloads, the dedup store of a running server
  keeps distinct keys and never holds more states than the positive limit of the configuration the
  relay was started with; a reload does not change that limit.
\<close>

theorem server_store_bounded:
  assumes "start_run (New_server scfg (New_engine cfg forwarder dec lg writer) slg) = Inr s" "server_run E s tr s'"
    and "0 < sc_max_dedup_entries (ac_server cfg)"
  shows "int (length (st_states (en_dedup (sv_engine s')))) \<le> sc_max_dedup_entries (ac_server cfg) \<and>
    distinct (map fst (st_states (en_dedup (sv_engine s'))))"
proof -
  have "store_kept (sc_max_dedup_entries (ac_server cfg)) s"
    using assms(1) inv_NewStore by (auto simp: start_run_def New_server_def New_engine_def store_kept_def NewStore_def
        split: if_splits)
  with kept.run_stable [OF assms(2)] have "store_kept (sc_max_dedup_entries (ac_server cfg)) s'" by simp
  then have "store_inv (en_dedup (sv_engine s'))" "st_limit (en_dedup (sv_engine s')) = sc_max_dedup_entries (ac_server cfg)"
    by (simp_all add: store_kept_def)
  with assms(3) show ?thesis unfolding store_inv_def al_distinct_def by metis
qed

text \<open>
  C10. Deduplication is not atomic: when two workers hold events of the same alarm and key and its window is
  closed, there is a schedule in which both events are forwarded, whatever the TTL and even when the
  alarm is held until a clear, since both call \<open>Get\<close> before one calls \<open>Put\<close>.
\<close>

theorem two_workers_forward_twice:
  assumes "i \<noteq> j" "worker_at s i (Handling e1)" "worker_at s j (Handling e2)" "en_state (sv_engine s) = Some st"
    and "raises (se_match E) (rs_cfg st) e1 alarm hash" "raises (se_match E) (rs_cfg st) e2 alarm hash"
    and "\<forall>e \<in> {e1, e2}. \<not> open_window (ev_received_at e) (windows (en_dedup (sv_engine s)) (al_id alarm, hash))"
  shows "\<exists>tr s'. server_run E s tr s' \<and> trace_of sent_of tr = [(ev_raw_bytes e1, None), (ev_raw_bytes e2, None)]"
proof -
  obtain n k1 w1 k2 w2 d1 d2 where
    r: "server_run E s (replicate n Tau) (moved (moved s i (Running st (Storing alarm k1) w1) d1) j (Running st (Storing alarm k2) w2) d2)"
      (is "server_run E s ?taus ?s")
    and at: "dk_hash k1 = hash" "dk_hash k2 = hash" "wk_event w1 = e1" "wk_event w2 = e2" "sends (wk_out w1) = []" "sends (wk_out w2) = []"
    using two_reach_put [OF assms] by blast
  have "worker_at ?s i (Running st (Storing alarm k1) w1)" "worker_at ?s j (Running st (Storing alarm k2) w2)"
    using assms(1-3) by (simp_all add: worker_at_def moved_def set_worker_def)
  from two_put [OF assms(1) this at(5,6,1,2), of E] obtain b1 b2 s1 s2 s3 s4 where
    "server_step E ?s (Stored e1) s1" "server_step E s1 (Handled (e1\<lparr>ev_alerts_logged := b1\<rparr>) [(ev_raw_bytes e1, None)]) s2"
    "server_step E s2 (Stored e2) s3" "server_step E s3 (Handled (e2\<lparr>ev_alerts_logged := b2\<rparr>) [(ev_raw_bytes e2, None)]) s4"
    unfolding at(3,4) by blast
  then have "server_run E ?s [Stored e1, Handled (e1\<lparr>ev_alerts_logged := b1\<rparr>) [(ev_raw_bytes e1, None)], Stored e2,
      Handled (e2\<lparr>ev_alerts_logged := b2\<rparr>) [(ev_raw_bytes e2, None)]] s4" by (meson run_cons run_nil)
  from run_append [OF this r] show ?thesis
    by (intro exI conjI, assumption) (simp add: trace_of_def)
qed

text \<open>Two workers that hold an alarm and its repetition a nanosecond later, well within the TTL.\<close>

definition race_server :: "(string \<times> usm_params) list server" where
  "race_server =
     (New_server (ac_server sample_config) (New_engine (rs_cfg sample_rs) [] None sample_logger None) sample_logger)
       \<lparr>sv_workers := [Handling (alarm_at 0), Handling (alarm_at 1)]\<rparr>"

lemma two_workers_forward_twice_witness:
  "ev_received_at (alarm_at 1) < ev_received_at (alarm_at 0) + ttl_duration (dd_ttl_seconds (al_dedup sample_alarm)) \<and>
   (\<exists>tr s'. server_run sample_senv race_server tr s' \<and> trace_of sent_of tr = [([7], None), ([7], None)])"
proof -
  have "ttl_duration 60 = 60000000000" by (simp add: ttl_duration_exact max_ttl_seconds_def)
  moreover have w: "worker_at race_server 0 (Handling (alarm_at 0))" "worker_at race_server 1 (Handling (alarm_at 1))"
    and st: "en_state (sv_engine race_server) = Some \<lparr>rs_cfg = rs_cfg sample_rs, rs_forwarder = [], rs_decoder = None, rs_logger = sample_logger, rs_alerts = None\<rparr>"
    by (simp_all add: race_server_def New_server_def New_engine_def worker_at_def)
  moreover have "windows (en_dedup (sv_engine race_server)) k = None" for k
    by (simp add: race_server_def New_server_def New_engine_def NewStore_def windows_def lookup_def)
  moreover have "raises (se_match sample_senv) (rs_cfg \<lparr>rs_cfg = rs_cfg sample_rs, rs_forwarder = [], rs_decoder = None, rs_logger = sample_logger, rs_alerts = None\<rparr>)
      (alarm_at t) sample_alarm sample_hash" for t
    using sample_raises by (simp add: sample_senv_def)
  ultimately show ?thesis
    using two_workers_forward_twice [OF _ w st, of sample_senv sample_alarm sample_hash]
    by (simp add: open_window_def alarm_at_def sample_alarm_def)
qed

end
