(* ===== verification/Server_Refinement.thy ===== *)
theory Server_Refinement
  imports Dedup_Races
begin

text \<open>
  A server with one worker implements the abstract relay: whatever the schedule of the reader, the queue,
  the worker and the cleanup ticker, and with reloads at any time, the packets it sends are those of
  \<open>spec_step\<close> on the events it handles, with the windows that a cleanup finds closed forgotten at that
  moment. A fresh alarm takes effect with its \<open>Put\<close> and is handed to the forwarder by a later step,
  between which the window may already be forgotten; any other event takes effect with the last step of
  its handler.
\<close>

section \<open>The abstract relay with cleanups\<close>

definition expire :: "int \<Rightarrow> (cache_key \<rightharpoonup> window) \<Rightarrow> (cache_key \<rightharpoonup> window)" where
  "expire now m = (\<lambda>k. if open_window now (m k) then m k else None)"

lemma expire_None [simp]: "expire now m k = None \<longleftrightarrow> m k = None \<or> \<not> open_window now (m k)"
  by (auto simp: expire_def)

lemma expire_del: "expire now (m(k := None)) = (expire now m)(k := None)"
  by (auto simp: expire_def fun_eq_iff open_window_def)

lemma expire_open: "open_window t (expire now m k) \<Longrightarrow> open_window t (m k)"
  by (auto simp: expire_def open_window_def split: if_splits)

lemma expire_cases: "expire now m k = None \<or> expire now m k = m k"
  by (simp add: expire_def)

lemma windows_cleanup:
  assumes "store_inv s"
  shows "windows (snd (Store_Cleanup s now)) = expire now (windows s)"
proof
  fix k show "windows (snd (Store_Cleanup s now)) k = expire now (windows s) k"
    using assms
    by (cases "lookup s k") (auto simp: windows_def look_Cleanup visible_def live_def expires_at_def expire_def open_window_def)
qed

lemma expire_round:
  "spec_clear_round W e (flag, expire now m) a =
     (fst (spec_clear_round W e (flag, m) a), expire now (snd (spec_clear_round W e (flag, m) a)))"
  by (auto simp: spec_clear_round_def expire_del split: prod.splits option.splits)

lemma expire_rounds:
  "foldl (spec_clear_round W e) (flag, expire now m) alarms =
     (fst (foldl (spec_clear_round W e) (flag, m) alarms), expire now (snd (foldl (spec_clear_round W e) (flag, m) alarms)))"
proof (induction alarms arbitrary: flag m)
  case (Cons a as)
  obtain f m' where "spec_clear_round W e (flag, m) a = (f, m')" by fastforce
  with Cons.IH [of f m'] show ?case by (simp add: expire_round)
qed simp

text \<open>The alert mark of an event makes no difference.\<close>

lemma evaluateFilters_mark [simp]: "evaluateFilters W cfg (e\<lparr>ev_alerts_logged := b\<rparr>) = evaluateFilters W cfg e"
proof -
  have "filter_rules W (e\<lparr>ev_alerts_logged := b\<rparr>) rs = filter_rules W e rs" for rs
    by (induction rs) (simp_all cong: if_cong)
  then show ?thesis by (simp add: evaluateFilters_def)
qed

lemma spec_step_mark [simp]: "spec_step W cfg (e\<lparr>ev_alerts_logged := b\<rparr>) = spec_step W cfg e"
proof
  fix m show "spec_step W cfg (e\<lparr>ev_alerts_logged := b\<rparr>) m = spec_step W cfg e m"
    by (cases "evaluateFilters W cfg e"; cases "matchAlarm W cfg e")
       (auto simp: spec_step_def split: bool.splits option.splits prod.splits)
qed

section \<open>A handler on its way\<close>

definition cleared :: "match_env \<Rightarrow> app_config \<Rightarrow> trap_event \<Rightarrow> (cache_key \<rightharpoonup> window) \<Rightarrow> bool \<times> (cache_key \<rightharpoonup> window)" where
  "cleared W cfg e m = foldl (spec_clear_round W e) (False, m) (ac_alarms cfg)"

definition at_alarm :: "match_env \<Rightarrow> app_config \<Rightarrow> trap_event \<Rightarrow> alarm_rule_config \<Rightarrow> dedup_key \<Rightarrow> bool" where
  "at_alarm W cfg e alarm key \<longleftrightarrow>
     matchAlarm W cfg e = Inr (Some alarm) \<and> BuildDedupKey W e (dd_key_fields (al_dedup alarm)) = Inr key \<and> complete_key key"

text \<open>
  \<open>following W cfg e m v pc\<close>: with the windows \<open>v\<close> in the store, a handler of \<open>e\<close> at \<open>pc\<close> is on its way to what
  \<open>spec_step\<close> does with \<open>e\<close> and \<open>m\<close>.
\<close>

fun following :: "match_env \<Rightarrow> app_config \<Rightarrow> trap_event \<Rightarrow> (cache_key \<rightharpoonup> window) \<Rightarrow> (cache_key \<rightharpoonup> window) \<Rightarrow> handler_pc \<Rightarrow> bool" where
  "following W cfg e m v (Rounds flag alarms) \<longleftrightarrow>
     kept W cfg e \<and> foldl (spec_clear_round W e) (flag, v) alarms = cleared W cfg e m"
| "following W cfg e m v (Looking alarm key) \<longleftrightarrow>
     kept W cfg e \<and> cleared W cfg e m = (False, v) \<and> at_alarm W cfg e alarm key"
| "following W cfg e m v (Touching alarm key) \<longleftrightarrow>
     kept W cfg e \<and> cleared W cfg e m = (False, v) \<and> at_alarm W cfg e alarm key \<and>
     (v (al_id alarm, dk_hash key) = None \<or> open_window (ev_received_at e) (v (al_id alarm, dk_hash key)))"
| "following W cfg e m v (Storing alarm key) \<longleftrightarrow>
     kept W cfg e \<and> (\<exists>m1. cleared W cfg e m = (False, m1) \<and>
       v((al_id alarm, dk_hash key) := None) = m1((al_id alarm, dk_hash key) := None) \<and>
       \<not> open_window (ev_received_at e) (m1 (al_id alarm, dk_hash key))) \<and> at_alarm W cfg e alarm key"
| "following W cfg e m v (Sending alarm key) \<longleftrightarrow> False"
| "following W cfg e m v (Answer res) \<longleftrightarrow> False"

lemma following_mark [simp]: "following W cfg (e\<lparr>ev_alerts_logged := b\<rparr>) m v pc = following W cfg e m v pc"
  by (cases pc) (simp_all add: kept_def cleared_def at_alarm_def)

lemma following_expire: "following W cfg e m v pc \<Longrightarrow> following W cfg e (expire now m) (expire now v) pc"
proof (cases pc)
  case (Touching alarm key)
  assume "following W cfg e m v pc"
  with Touching expire_cases [of now v "(al_id alarm, dk_hash key)"] show ?thesis
    by (auto simp: cleared_def expire_rounds)
next
  case (Storing alarm key)
  let ?k = "(al_id alarm, dk_hash key)"
  assume "following W cfg e m v pc"
  with Storing obtain m1 where m1: "kept W cfg e" "cleared W cfg e m = (False, m1)" "v(?k := None) = m1(?k := None)"
    "\<not> open_window (ev_received_at e) (m1 ?k)" "at_alarm W cfg e alarm key" by auto
  have "(expire now v)(?k := None) = (expire now m1)(?k := None)" unfolding expire_del [symmetric] m1(3) ..
  moreover have "\<not> open_window (ev_received_at e) (expire now m1 ?k)" using m1(4) expire_open by blast
  moreover have "cleared W cfg e (expire now m) = (False, expire now m1)"
    using m1(2) by (simp add: cleared_def expire_rounds)
  ultimately show ?thesis using m1(1,5) Storing by auto
qed (auto simp: cleared_def expire_rounds)

text \<open>From its start, a handler follows the event; an early answer is that of the relay.\<close>

lemma spec_step_kept:
  "kept W cfg e \<Longrightarrow> spec_step W cfg e m =
     (let (flag, m1) = cleared W cfg e m in
      if flag then (True, m1)
      else case matchAlarm W cfg e of
          Inl _ \<Rightarrow> (False, m1) | Inr None \<Rightarrow> (True, m1) | Inr (Some alarm) \<Rightarrow> spec_alarm W alarm e m1)"
  by (auto simp: kept_def spec_step_def cleared_def)

lemma start_follows:
  assumes "handler_start W st (start_work s e) = (pc, w)"
  shows "case pc of
      Answer res \<Rightarrow> spec_step W (rs_cfg st) e m = (attempted res, m)
    | _ \<Rightarrow> following W (rs_cfg st) e m m pc"
    and "wk_store w = s" "\<exists>b. wk_event w = e\<lparr>ev_alerts_logged := b\<rparr>"
  using assms
  by (auto simp: handler_start_def spec_step_def filtered_outcome_def attempted_def zero_outcome_def kept_def cleared_def
      event_alert_self split: sum.splits if_splits)

text \<open>The clear rules only remove windows.\<close>

lemma cleared_le: "cleared W cfg e m = (flag, m') \<Longrightarrow> m' \<subseteq>\<^sub>m m"
proof -
  have "foldl (spec_clear_round W e) (b, m) alarms = (flag, m') \<Longrightarrow> m' \<subseteq>\<^sub>m m" for b m alarms
  proof (induction alarms arbitrary: b m)
    case (Cons a alarms)
    obtain f1 m1 where r: "spec_clear_round W e (b, m) a = (f1, m1)" by fastforce
    then have "m1 \<subseteq>\<^sub>m m" by (auto simp: spec_clear_round_def map_le_def split: prod.splits option.splits if_splits)
    with Cons.IH [of f1 m1] Cons.prems r show ?case by (auto intro: map_le_trans)
  qed simp
  then show "cleared W cfg e m = (flag, m') \<Longrightarrow> m' \<subseteq>\<^sub>m m" by (simp add: cleared_def)
qed

text \<open>
  One step: an answer is that of the relay and stores nothing, a \<open>Put\<close> is the step of the relay, and
  otherwise the handler follows on.
\<close>

lemma get_windows:
  assumes "Store_Get s r h now = (found, s')"
  shows "found = None \<longleftrightarrow> \<not> open_window now (windows s (r, h))"
    and "(windows s')((r, h) := None) = (windows s)((r, h) := None)"
    and "found \<noteq> None \<Longrightarrow> windows s' = windows s"
proof -
  have f: "found = visible now (lookup s (r, h))" "s' = snd (Store_Get s r h now)"
    using assms by (metis fst_conv look_Get(1)) (use assms in simp)
  show "found = None \<longleftrightarrow> \<not> open_window now (windows s (r, h))" by (simp add: f open_window_visible)
  show "(windows s')((r, h) := None) = (windows s)((r, h) := None)"
    by (auto simp: f windows_def look_Get fun_eq_iff)
  show "found \<noteq> None \<Longrightarrow> windows s' = windows s" unfolding f by (rule windows_get_visible)
qed

lemma after_rounds_follows:
  assumes "after_rounds W send st flag w = (pc, w')" "kept W (rs_cfg st) (wk_event w)"
    and "cleared W (rs_cfg st) (wk_event w) m = (flag, windows (wk_store w))"
  shows "case pc of
      Answer res \<Rightarrow> spec_step W (rs_cfg st) (wk_event w) m = (attempted res, windows (wk_store w')) \<and>
        windows (wk_store w') \<subseteq>\<^sub>m m
    | _ \<Rightarrow> following W (rs_cfg st) (wk_event w) m (windows (wk_store w')) pc"
proof -
  note spec = spec_step_kept [OF assms(2), of m, unfolded assms(3)] and le = cleared_le [OF assms(3)]
  obtain res v where pass: "forwardPassThrough send st w = (res, v)" by fastforce
  then have v: "attempted res" "wk_store v = wk_store w" by (simp_all add: forwardPassThrough_sim)
  consider (flag) "flag" | (err) er where "\<not> flag" "matchAlarm W (rs_cfg st) (wk_event w) = Inl er"
    | (no) "\<not> flag" "matchAlarm W (rs_cfg st) (wk_event w) = Inr None"
    | (alarm) alarm where "\<not> flag" "matchAlarm W (rs_cfg st) (wk_event w) = Inr (Some alarm)"
    by (cases "matchAlarm W (rs_cfg st) (wk_event w)") auto
  then show ?thesis
  proof cases
    case alarm
    then have s: "spec_step W (rs_cfg st) (wk_event w) m = spec_alarm W alarm (wk_event w) (windows (wk_store w))"
      using spec by simp
    show ?thesis
    proof (cases "BuildDedupKey W (wk_event w) (dd_key_fields (al_dedup alarm))")
      case (Inl er)
      with assms(1) alarm have "pc = Answer (zero_outcome, Some er)" "w' = w" by (simp_all add: after_rounds_def)
      with s Inl le show ?thesis by (simp add: spec_alarm_def)
    next
      case key: (Inr key)
      show ?thesis
      proof (cases "complete_key key")
        case True
        with assms(1) alarm key have "pc = Looking alarm key" "w' = w"
          by (simp_all add: after_rounds_def complete_key_def)
        with True assms(2,3) alarm key show ?thesis by (simp add: at_alarm_def)
      next
        case False
        obtain res' v' where u: "forward_undeduped send st alarm key w = (res', v')" by fastforce
        with assms(1) alarm key False have "pc = Answer res'" "w' = v'"
          by (auto simp: after_rounds_def answer_def complete_key_def)
        with s key False le forward_undeduped_sim [OF u] show ?thesis by (simp add: spec_alarm_def)
      qed
    qed
  next
    case flag
    then have "pc = Answer res" "w' = v" using assms(1) pass by (simp_all add: after_rounds_def answer_def)
    with spec flag v le show ?thesis by simp
  next
    case err
    then have "pc = Answer (zero_outcome, Some er)" "w' = w" using assms(1) by (simp_all add: after_rounds_def)
    with spec err le show ?thesis by simp
  next
    case no
    then have "pc = Answer res" "w' = v" using assms(1) pass by (simp_all add: after_rounds_def answer_def)
    with spec no v le show ?thesis by simp
  qed
qed

lemma spec_at_alarm:
  "kept W cfg e \<Longrightarrow> cleared W cfg e m = (False, m1) \<Longrightarrow> at_alarm W cfg e alarm key \<Longrightarrow>
   spec_step W cfg e m =
     (if open_window (ev_received_at e) (m1 (al_id alarm, dk_hash key)) then (False, m1)
      else (True, m1((al_id alarm, dk_hash key) \<mapsto>
        (ev_received_at e, dd_ttl_seconds (al_dedup alarm), dd_hold_until_clear (al_dedup alarm)))))"
  by (simp add: spec_step_kept at_alarm_def spec_alarm_def)

lemma del_upd: "f(k := None) = g(k := None) \<Longrightarrow> f(k \<mapsto> x) = g(k \<mapsto> x)"
  by (metis fun_upd_upd)

lemma step_follows:
  assumes "handler_step W send st (pc, w) = (pc', w')"
    and "following W (rs_cfg st) (wk_event w) m (windows (wk_store w)) pc"
    and "\<forall>alarm key. pc = Storing alarm key \<longrightarrow> has_room (wk_store w)"
  shows "case pc' of
      Answer res \<Rightarrow> spec_step W (rs_cfg st) (wk_event w) m = (attempted res, windows (wk_store w')) \<and>
        windows (wk_store w') \<subseteq>\<^sub>m m
    | Sending alarm key \<Rightarrow> spec_step W (rs_cfg st) (wk_event w) m = (True, windows (wk_store w'))
    | _ \<Rightarrow> following W (rs_cfg st) (wk_event w) m (windows (wk_store w')) pc'"
proof (cases pc)
  case (Rounds flag alarms)
  show ?thesis
  proof (cases alarms)
    case Nil
    with assms(1) Rounds have a: "after_rounds W send st flag w = (pc', w')" by simp
    have "\<not> (\<exists>alarm key. pc' = Sending alarm key)"
      using a by (auto simp: after_rounds_def answer_def split: if_splits sum.splits option.splits)
    with after_rounds_follows [OF a, of m] Rounds assms(2) Nil show ?thesis by (auto split: handler_pc.splits)
  next
    case (Cons a as)
    obtain f v where r: "clear_round W st (flag, w) a = (f, v)" by fastforce
    with assms(1) Rounds Cons have "pc' = Rounds f as" "w' = v" by simp_all
    with assms(2) Rounds Cons clear_round_sim(1) [OF r] show ?thesis by simp
  qed
next
  case (Looking alarm key)
  obtain found d where g: "Store_Get (wk_store w) (al_id alarm) (dk_hash key) (ev_received_at (wk_event w)) = (found, d)"
    by fastforce
  note gw = get_windows [OF g]
  show ?thesis
  proof (cases found)
    case None
    with assms(1) Looking g have "pc' = Storing alarm key" "wk_store w' = d" by auto
    with None assms(2) Looking gw show ?thesis by auto
  next
    case (Some ds)
    with assms(1) Looking g have "pc' = Touching alarm key" "wk_store w' = d" by auto
    with Some assms(2) Looking gw show ?thesis by auto
  qed
next
  case (Touching alarm key)
  let ?k = "(al_id alarm, dk_hash key)"
  obtain touched d where g: "Store_Touch (wk_store w) (al_id alarm) (dk_hash key) (wk_event w) = (touched, d)"
    by fastforce
  have wd: "windows d = windows (wk_store w)" and none: "touched = None \<longleftrightarrow> windows (wk_store w) ?k = None"
    using windows_touch [of "wk_store w" "al_id alarm" "dk_hash key" "wk_event w"]
      look_Touch(1) [of "wk_store w" "al_id alarm" "dk_hash key" "wk_event w"] by (auto simp: g windows_def)
  show ?thesis
  proof (cases touched)
    case None
    with assms(1) Touching g have "pc' = Storing alarm key" "wk_store w' = d" by (auto simp: Let_def)
    with None assms(2) Touching wd none show ?thesis by (auto simp: open_window_def)
  next
    case (Some ds)
    with assms(1) Touching g have "pc' = Answer (duplicate_outcome alarm, None)" "wk_store w' = d" by (auto simp: Let_def)
    moreover have "\<not> attempted (duplicate_outcome alarm, None)" by (simp add: attempted_def duplicate_outcome_def)
    ultimately show ?thesis
      using Some assms(2) Touching wd none spec_at_alarm [of W "rs_cfg st" "wk_event w" m "windows (wk_store w)" alarm key]
        cleared_le [of W "rs_cfg st" "wk_event w" m False "windows (wk_store w)"]
      by auto
  qed
next
  case (Storing alarm key)
  let ?k = "(al_id alarm, dk_hash key)" and ?e = "wk_event w"
  from assms(1) Storing have pc': "pc' = Sending alarm key" "w' = store_alarm alarm key w" by simp_all
  obtain m1 where m1: "kept W (rs_cfg st) ?e" "cleared W (rs_cfg st) ?e m = (False, m1)"
    "(windows (wk_store w))(?k := None) = m1(?k := None)" "\<not> open_window (ev_received_at ?e) (m1 ?k)"
    "at_alarm W (rs_cfg st) ?e alarm key" using assms(2) Storing by auto
  have "windows (wk_store w') = (windows (wk_store w))(?k \<mapsto>
      (ev_received_at ?e, dd_ttl_seconds (al_dedup alarm), dd_hold_until_clear (al_dedup alarm)))"
    using windows_put assms(3) Storing by (simp add: pc'(2))
  also note del_upd [OF m1(3)]
  finally show ?thesis
    using spec_at_alarm [OF m1(1,2,5)] m1(4) by (simp add: pc'(1))
qed (use assms(2) in simp_all)

section \<open>The size of the store\<close>

text \<open>The events that were stored: only a \<open>Put\<close> adds a state.\<close>

fun stored_of :: "label \<Rightarrow> trap_event list" where
  "stored_of (Stored e) = [e]"
| "stored_of _ = []"

lemma store_length:
  "length (st_states (snd (Store_Clear s r h))) \<le> length (st_states s)"
  "length (st_states (snd (Store_Get s r h now))) \<le> length (st_states s)"
  "length (st_states (snd (Store_Touch s r h e))) = length (st_states s)"
  "length (st_states (snd (Store_Cleanup s now))) \<le> length (st_states s)"
  by (auto simp: Store_Clear_def Store_Get_def Store_Touch_def Store_Cleanup_def length_al_del_le split: option.splits)

lemma al_put_length: "length (al_put k x ps) \<le> Suc (length ps)"
  using length_al_del_le [of k ps] by (simp add: al_put_def)

lemma put_length: "length (st_states (snd (Store_Put s r h repr e ttl hold))) \<le> Suc (length (st_states s))"
proof -
  have e: "length (st_states (evictOldest s)) \<le> length (st_states s)"
    by (auto simp: evictOldest_def length_al_del_le split: option.splits)
  let ?s1 = "if 0 < st_limit s \<and> st_limit s \<le> int (length (st_states s)) then evictOldest s else s"
  have "length (st_states (snd (Store_Put s r h repr e ttl hold))) \<le> Suc (length (st_states ?s1))"
    unfolding Store_Put_def Let_def by (simp add: al_put_length)
  also have "\<dots> \<le> Suc (length (st_states s))" using e by simp
  finally show ?thesis .
qed

lemma clear_state_length: "length (st_states (wk_store (clear_state W st a c w))) \<le> length (st_states (wk_store w))"
  unfolding clear_state_store by (simp add: store_length(1) split: sum.split)

lemma clear_round_length: "length (st_states (wk_store (snd (clear_round W st (flag, w) a)))) \<le> length (st_states (wk_store w))"
proof (cases "dd_clear (al_dedup a)")
  case (Some c)
  consider (err) er where "Matches W (wk_event w) (dc_match c) = Inl er" | (no) "Matches W (wk_event w) (dc_match c) = Inr False"
    | (yes) "Matches W (wk_event w) (dc_match c) = Inr True"
    by (metis (full_types) sum.exhaust_sel)
  then show ?thesis
  proof cases
    case yes
    with Some show ?thesis
      by (cases "check_clear_regex W (wk_event w) c") (simp_all add: clear_round_def emit_def clear_state_length)
  qed (simp_all add: clear_round_def emit_def Some)
qed (simp add: clear_round_def)

lemma after_rounds_store:
  assumes "after_rounds W send st flag w = (pc, w')"
  shows "wk_store w' = wk_store w"
proof -
  have p: "wk_store (snd (forwardPassThrough send st w)) = wk_store w"
    using forwardPassThrough_sim [of send st w] by (metis prod.collapse)
  have u: "wk_store (snd (forward_undeduped send st alarm key w)) = wk_store w" for alarm key
    using forward_undeduped_sim [of send st alarm key w] by (metis prod.collapse)
  have "wk_store (snd (after_rounds W send st flag w)) = wk_store w"
    by (simp add: after_rounds_def answer_def p u split: sum.split option.split)
  with assms show ?thesis by simp
qed

lemma handler_step_length:
  assumes "handler_step W send st (pc, w) = (pc', w')" "\<not> is_answer pc"
  shows "length (st_states (wk_store w')) \<le> length (st_states (wk_store w)) + length (stored_of (step_label pc e))"
proof (cases pc)
  case (Rounds flag alarms)
  show ?thesis
  proof (cases alarms)
    case Nil
    with assms(1) Rounds after_rounds_store show ?thesis by fastforce
  next
    case (Cons a as)
    with assms(1) Rounds clear_round_length [of W st flag w a] show ?thesis
      by (cases "clear_round W st (flag, w) a") auto
  qed
next
  case (Looking alarm key)
  with assms(1) store_length(2) [of "wk_store w" "al_id alarm" "dk_hash key" "ev_received_at (wk_event w)"] show ?thesis
    by (auto simp: split_beta Let_def)
next
  case (Touching alarm key)
  with assms(1) store_length(3) [of "wk_store w" "al_id alarm" "dk_hash key" "wk_event w"] show ?thesis
    by (cases "Store_Touch (wk_store w) (al_id alarm) (dk_hash key) (wk_event w)")
       (auto simp: Let_def emit_def split: option.splits)
next
  case (Storing alarm key)
  with assms(1) put_length show ?thesis by auto
next
  case (Sending alarm key)
  obtain res v where f: "send_alarm send st alarm key w = (res, v)" by fastforce
  with assms(1) Sending have "w' = v" by (simp add: answer_def)
  with send_alarm_sim [OF f] show ?thesis by simp
qed (use assms(2) in simp)

section \<open>A server with one worker\<close>

lemma only_worker: "sv_workers s = [pc] \<Longrightarrow> worker_at s i pc' \<longleftrightarrow> i = 0 \<and> pc' = pc"
  by (auto simp: worker_at_def)

lemma set_only_worker: "sv_workers s = [pc] \<Longrightarrow> sv_workers (set_worker s 0 pc') = [pc']"
  by (simp add: set_worker_def)

lemma sends_attempted: "handler_ok (Answer res) w \<Longrightarrow> sends (wk_out w) \<noteq> [] \<longleftrightarrow> attempted res"
  by (simp add: handler_ok_def attempted_sends [of _ "ev_raw_bytes (wk_event w)"])

lemma running_step:
  assumes "handler_step W send st (pc, w\<lparr>wk_store := d\<rparr>) = (pc', w')" "\<not> is_answer pc"
    and "following W (rs_cfg st) (wk_event w) m (windows d) pc"
    and "\<forall>alarm key. pc = Storing alarm key \<longrightarrow> has_room d"
  shows "case pc' of
      Answer res \<Rightarrow> spec_step W (rs_cfg st) (wk_event w') m = (attempted res, windows (wk_store w')) \<and>
        windows (wk_store w') \<subseteq>\<^sub>m m
    | Sending alarm key \<Rightarrow> spec_step W (rs_cfg st) (wk_event w') m = (True, windows (wk_store w'))
    | _ \<Rightarrow> following W (rs_cfg st) (wk_event w') m (windows (wk_store w')) pc'"
proof -
  have ev: "wk_event (w\<lparr>wk_store := d\<rparr>) = wk_event w" by simp
  obtain b where b: "wk_event w' = (wk_event w)\<lparr>ev_alerts_logged := b\<rparr>"
    using effect_event [OF handler_step_effect [OF assms(1,2)]] by auto
  from step_follows [OF assms(1), of m, unfolded ev] assms(3,4) show ?thesis
    unfolding b spec_step_mark following_mark by simp
qed

lemma sends_packets:
  "handler_ok (Answer res) w \<Longrightarrow> map fst (sends (wk_out w)) = (if attempted res then [ev_raw_bytes (wk_event w)] else [])"
  using attempted_sends [of res "ev_raw_bytes (wk_event w)"] by (auto simp: handler_ok_def result_sends_def split: if_splits)

text \<open>
  The abstract relay with a configuration that may be exchanged: an event is handled under the current
  configuration or one that was current since the event before it. An event that opens a window does so
  in one step and is sent in a later one, and in between no other event is handled.
\<close>

record relay =
  ry_cfg :: app_config
  ry_recent :: "app_config set"
  ry_windows :: "cache_key \<rightharpoonup> window"
  ry_pending :: "trap_event option"

definition new_relay :: "app_config \<Rightarrow> relay" where
  "new_relay cfg = \<lparr>ry_cfg = cfg, ry_recent = {cfg}, ry_windows = Map.empty, ry_pending = None\<rparr>"

inductive relay_step :: "match_env \<Rightarrow> relay \<Rightarrow> label \<Rightarrow> relay \<Rightarrow> bool" for W where
  configure: "relay_step W a (Reload cfg) (a\<lparr>ry_cfg := cfg, ry_recent := insert cfg (ry_recent a)\<rparr>)"
| forget: "relay_step W a (Tick (Some now)) (a\<lparr>ry_windows := expire now (ry_windows a)\<rparr>)"
| let_through: "ry_pending a = None \<Longrightarrow> cfg \<in> ry_recent a \<Longrightarrow> spec_step W cfg e (ry_windows a) = (True, m) \<Longrightarrow>
    relay_step W a (Stored e) (a\<lparr>ry_windows := m, ry_pending := Some e\<rparr>)"
| deliver: "ry_pending a = Some e \<Longrightarrow> e' = e\<lparr>ev_alerts_logged := b\<rparr> \<Longrightarrow> map fst ss = [ev_raw_bytes e] \<Longrightarrow>
    relay_step W a (Handled e' ss) (a\<lparr>ry_recent := {ry_cfg a}, ry_pending := None\<rparr>)"
| relay: "ry_pending a = None \<Longrightarrow> cfg \<in> ry_recent a \<Longrightarrow> spec_step W cfg e (ry_windows a) = (sent, m) \<Longrightarrow>
    m \<subseteq>\<^sub>m ry_windows a \<Longrightarrow> map fst ss = (if sent then [ev_raw_bytes e] else []) \<Longrightarrow>
    relay_step W a (Handled e ss) (a\<lparr>ry_recent := {ry_cfg a}, ry_windows := m\<rparr>)"

text \<open>The labels of the relay.\<close>

fun visible_label :: "label \<Rightarrow> bool" where
  "visible_label (Reload cfg) = True"
| "visible_label (Tick now) = (now \<noteq> None)"
| "visible_label (Stored e) = True"
| "visible_label (Handled e ss) = True"
| "visible_label _ = False"

text \<open>The limit of the store leaves room for the alarms that the trace stores.\<close>

definition fits :: "int \<Rightarrow> label list \<Rightarrow> bool" where
  "fits limit tr \<longleftrightarrow> limit \<le> 0 \<or> int (length (trace_of stored_of tr)) \<le> limit"

text \<open>
  The windows in the store are those of the abstract relay, except while the worker handles an event that
  it has not stored.
\<close>

fun is_sending :: "handler_pc \<Rightarrow> bool" where
  "is_sending (Sending alarm key) = True"
| "is_sending _ = False"

fun stands :: "match_env \<Rightarrow> relay \<Rightarrow> (cache_key \<rightharpoonup> window) \<Rightarrow> 't worker_pc \<Rightarrow> bool" where
  "stands W a v (Running st pc w) \<longleftrightarrow>
     (if is_sending pc then ry_pending a = Some (wk_event w) \<and> v = ry_windows a
      else ry_pending a = None \<and> rs_cfg st \<in> ry_recent a \<and> following W (rs_cfg st) (wk_event w) (ry_windows a) v pc)"
| "stands W a v _ \<longleftrightarrow> ry_pending a = None \<and> v = ry_windows a"

definition represents :: "match_env \<Rightarrow> int \<Rightarrow> label list \<Rightarrow> 't server \<Rightarrow> relay \<Rightarrow> bool" where
  "represents W limit tr s a \<longleftrightarrow>
     (\<exists>st. en_state (sv_engine s) = Some st \<and> rs_cfg st = ry_cfg a) \<and> ry_cfg a \<in> ry_recent a \<and>
     store_kept limit s \<and> tasks_ok s \<and>
     length (st_states (en_dedup (sv_engine s))) \<le> length (trace_of stored_of tr) \<and>
     (\<exists>pc. sv_workers s = [pc] \<and> stands W a (windows (en_dedup (sv_engine s))) pc)"

lemma following_unsent: "following W cfg e m v pc \<Longrightarrow> \<not> is_sending pc"
  by (cases pc) simp_all

lemma stands_expire:
  "stands W a v pc \<Longrightarrow> stands W (a\<lparr>ry_windows := expire now (ry_windows a)\<rparr>) (expire now v) pc"
  by (cases pc) (auto simp: following_expire)

lemma stands_configure:
  "stands W a v pc \<Longrightarrow> stands W (a\<lparr>ry_cfg := cfg, ry_recent := insert cfg (ry_recent a)\<rparr>) v pc"
  by (cases pc) auto

text \<open>The answer of a handler is a step of the relay.\<close>

lemma relay_answers:
  assumes "ry_pending a = None" "cfg \<in> ry_recent a" "spec_step W cfg e (ry_windows a) = (attempted res, m)"
    and "m \<subseteq>\<^sub>m ry_windows a" "handler_ok (Answer res) w" "ev_raw_bytes (wk_event w) = ev_raw_bytes e"
  shows "relay_step W a (Handled e (sends (wk_out w))) (a\<lparr>ry_recent := {ry_cfg a}, ry_windows := m\<rparr>)"
  by (rule relay [OF assms(1-4)]) (simp add: sends_packets [OF assms(5)] assms(6))

text \<open>The last steps of a handler: from a \<open>Put\<close> to its \<open>Send\<close>, and from \<open>Send\<close> to the answer.\<close>

lemma sending_step:
  assumes "handler_step W send st (pc, w) = (pc', w')" "is_sending pc'"
  shows "\<exists>alarm key. pc = Storing alarm key \<and> w' = store_alarm alarm key w"
  using assms
  by (cases "(W, send, st, pc, w)" rule: handler_step.cases)
     (auto simp: after_rounds_def answer_def Let_def split: if_splits sum.splits option.splits prod.splits)

lemma sent_step:
  assumes "handler_step W send st (pc, w) = (Answer res, w')" "is_sending pc"
  shows "attempted res" "wk_store w' = wk_store w"
proof -
  from assms(2) obtain alarm key where pc: "pc = Sending alarm key" by (cases pc) auto
  obtain r v where f: "send_alarm send st alarm key w = (r, v)" by fastforce
  with assms(1) pc have "res = r" "w' = v" by (simp_all add: answer_def)
  with send_alarm_sim [OF f] show "attempted res" "wk_store w' = wk_store w" by simp_all
qed

lemma step_represented:
  assumes "server_step E s l s'" "represents (se_match E) limit tr s a" "fits limit (tr @ [l])"
  shows "\<exists>a'. (if visible_label l then relay_step (se_match E) a l a' else a' = a) \<and>
    represents (se_match E) limit (tr @ [l]) s' a'"
proof -
  let ?W = "se_match E" and ?d = "en_dedup (sv_engine s)"
  obtain pc0 st where w0: "sv_workers s = [pc0]" and st0: "stands ?W a (windows ?d) pc0"
    and eng: "en_state (sv_engine s) = Some st" and cfg: "rs_cfg st = ry_cfg a" "ry_cfg a \<in> ry_recent a"
    and len: "length (st_states ?d) \<le> length (trace_of stored_of tr)"
    and kept: "store_kept limit s" and ok: "tasks_ok s"
    using assms(2) by (auto simp: represents_def)
  note at = only_worker [OF w0] and set = set_only_worker [OF w0]
  have rest: "tasks_ok s'" "store_kept limit s'"
    using step_tasks [OF assms(1) ok] step_kept [OF assms(1) kept] by simp_all
  show ?thesis using assms(1)
  proof (cases rule: server_step.cases)
    case (tick now)
    have inv: "store_inv ?d" using kept by (simp add: store_kept_def)
    have e: "sv_engine s' = snd (engine_Cleanup (sv_engine s) now)" "sv_workers s' = [pc0]"
      using tick w0 by simp_all
    then have "windows (en_dedup (sv_engine s')) = expire now (windows ?d)" "en_state (sv_engine s') = Some st"
      "length (st_states (en_dedup (sv_engine s'))) \<le> length (trace_of stored_of tr)"
      using windows_cleanup [OF inv] le_trans [OF store_length(4) len] eng
      by (simp_all add: engine_Cleanup_def split_beta)
    with rest e(2) cfg tick stands_expire [OF st0]
    have "represents ?W limit (tr @ [l]) s' (a\<lparr>ry_windows := expire now (ry_windows a)\<rparr>)" by (simp add: represents_def)
    moreover have "relay_step ?W a l (a\<lparr>ry_windows := expire now (ry_windows a)\<rparr>)" unfolding tick(1) by (rule forget)
    ultimately show ?thesis using tick(1) by auto
  next
    case (reload cfg' dec ts lg b)
    let ?a = "a\<lparr>ry_cfg := cfg', ry_recent := insert cfg' (ry_recent a)\<rparr>"
    have "represents ?W limit (tr @ [l]) s' ?a"
      using reload rest w0 len stands_configure [OF st0] by (simp add: represents_def Reload_engine_def)
    moreover have "relay_step ?W a l ?a" unfolding reload(1) by (rule configure)
    ultimately show ?thesis using reload(1) by auto
  next
    case (start_failed i e)
    with eng show ?thesis by simp
  next
    case (start_handler i e st' pc w)
    with eng at have i: "i = 0" "pc0 = Handling e" "st' = st" by auto
    have "following ?W (rs_cfg st) e (ry_windows a) (ry_windows a) pc" "\<exists>b. wk_event w = e\<lparr>ev_alerts_logged := b\<rparr>"
      using start_follows(1) [of ?W st ?d e pc w "ry_windows a"]
        start_follows(3) [of ?W st ?d e pc w] start_handler i by (auto split: handler_pc.splits)
    with start_handler i st0 rest eng cfg len show ?thesis
      by (intro exI [of _ a]) (auto simp: represents_def set dest: following_unsent)
  next
    case (answered_early i e st' res w)
    with eng at have i: "i = 0" "pc0 = Handling e" "st' = st" by auto
    have "spec_step ?W (rs_cfg st) e (ry_windows a) = (attempted res, ry_windows a)"
      using start_follows(1) [of ?W st ?d e "Answer res" w "ry_windows a"] answered_early i by simp
    moreover have "handler_ok (Answer res) w" "ev_raw_bytes (wk_event w) = ev_raw_bytes e"
      using handler_start_ok [of ?W st ?d e "Answer res" w] answered_early i by auto
    ultimately have "relay_step ?W a l (a\<lparr>ry_recent := {ry_cfg a}, ry_windows := ry_windows a\<rparr>)"
      unfolding answered_early(1) using relay_answers [of a "rs_cfg st" ?W e res "ry_windows a" w] cfg st0 i by simp
    moreover have "represents ?W limit (tr @ [l]) s' (a\<lparr>ry_recent := {ry_cfg a}, ry_windows := ry_windows a\<rparr>)"
      using answered_early i st0 rest eng cfg len by (auto simp: represents_def set)
    ultimately show ?thesis using answered_early(1) by auto
  next
    case (advance i st' pc w sent pc' w')
    have i: "i = 0" and at0: "pc0 = Running st' pc w" using advance at by auto
    have len': "length (st_states (wk_store w')) \<le> length (trace_of stored_of (tr @ [l]))"
      using handler_step_length [OF advance(5,4), of "wk_event w"] advance(1) len by simp
    show ?thesis
    proof (cases "is_sending pc")
      case True
      with advance(5,6) show ?thesis by (cases pc) (auto simp: answer_def)
    next
      case False
      with st0 at0 have a: "ry_pending a = None" "rs_cfg st' \<in> ry_recent a"
        and f: "following ?W (rs_cfg st') (wk_event w) (ry_windows a) (windows ?d) pc" by auto
      have room: "\<forall>alarm key. pc = Storing alarm key \<longrightarrow> has_room ?d"
        using assms(3) advance(1) len kept by (auto simp: fits_def has_room_def store_kept_def)
      note r = running_step [OF advance(5,4) f room]
      show ?thesis
      proof (cases "is_sending pc'")
        case True
        from sending_step [OF advance(5) True] obtain alarm key where
          p: "pc = Storing alarm key" "wk_event w' = wk_event w" by auto
        have "spec_step ?W (rs_cfg st') (wk_event w) (ry_windows a) = (True, windows (wk_store w'))"
          using r True by (cases pc') (simp_all add: p(2))
        with advance p i a rest eng cfg w0 len' True show ?thesis
          by (intro exI [of _ "a\<lparr>ry_windows := windows (wk_store w'), ry_pending := Some (wk_event w)\<rparr>"])
             (simp add: let_through represents_def set_worker_def)
      next
        case s: False
        have "\<not> visible_label l" "following ?W (rs_cfg st') (wk_event w') (ry_windows a) (windows (wk_store w')) pc'"
        proof -
          show "\<not> visible_label l" using advance(1,5) s by (cases pc) auto
          show "following ?W (rs_cfg st') (wk_event w') (ry_windows a) (windows (wk_store w')) pc'"
            using r advance(6) s by (cases pc') simp_all
        qed
        with advance i a rest eng cfg w0 len' s show ?thesis
          by (intro exI [of _ a]) (simp add: represents_def set_worker_def)
      qed
    qed
  next
    case (answered i st' pc w sent res w')
    have i: "i = 0" and at0: "pc0 = Running st' pc w" using answered at by auto
    have "task_ok (Running st' pc w)" using ok answered(3) w0 i by (auto simp: at tasks_ok_def)
    then have ok': "handler_ok (Answer res) w'" using handler_step_ok [OF answered(5,4)] by simp
    have p: "\<not> (\<exists>alarm key. pc = Storing alarm key)" using answered(5) by auto
    then have "step_label pc e = Tau" for e by (cases pc) auto
    with handler_step_length [OF answered(5,4)] len answered(1) have
      len': "length (st_states (wk_store w')) \<le> length (trace_of stored_of (tr @ [l]))" by simp
    show ?thesis
    proof (cases "is_sending pc")
      case True
      with st0 at0 have a: "ry_pending a = Some (wk_event w)" "windows ?d = ry_windows a" by simp_all
      obtain b where b: "wk_event w' = (wk_event w)\<lparr>ev_alerts_logged := b\<rparr>"
        using effect_event [OF handler_step_effect [OF answered(5,4)]] by auto
      note s = sent_step [OF answered(5) True]
      have "relay_step ?W a l (a\<lparr>ry_recent := {ry_cfg a}, ry_pending := None\<rparr>)"
        unfolding answered(1) by (rule deliver [OF a(1) b]) (simp add: sends_packets [OF ok'] s(1) b)
      moreover have "represents ?W limit (tr @ [l]) s' (a\<lparr>ry_recent := {ry_cfg a}, ry_pending := None\<rparr>)"
        using answered i rest eng cfg w0 len' a s(2) by (simp add: represents_def set_worker_def)
      ultimately show ?thesis using answered(1) by auto
    next
      case False
      with st0 at0 have a: "ry_pending a = None" "rs_cfg st' \<in> ry_recent a"
        and f: "following ?W (rs_cfg st') (wk_event w) (ry_windows a) (windows ?d) pc" by auto
      have room: "\<forall>alarm key. pc = Storing alarm key \<longrightarrow> has_room ?d" using p by blast
      let ?a = "a\<lparr>ry_recent := {ry_cfg a}, ry_windows := windows (wk_store w')\<rparr>"
      have "spec_step ?W (rs_cfg st') (wk_event w') (ry_windows a) = (attempted res, windows (wk_store w'))"
        "windows (wk_store w') \<subseteq>\<^sub>m ry_windows a"
        using running_step [OF answered(5,4) f room] by simp_all
      then have "relay_step ?W a l ?a" unfolding answered(1) by (rule relay_answers [OF a _ _ ok' refl])
      moreover have "represents ?W limit (tr @ [l]) s' ?a"
        using answered i rest eng cfg w0 len' a(1) by (simp add: represents_def set_worker_def)
      ultimately show ?thesis using answered(1) by auto
    qed
  qed (use st0 eng len rest w0 at cfg in \<open>auto simp: represents_def set_worker_def\<close>)
qed

interpretation abstracted: simulation "server_step E" "relay_step (se_match E)" visible_label "fits limit"
    "represents (se_match E) limit" for E limit
proof
  fix tr l assume "fits limit (tr @ [l])"
  then show "fits limit tr" by (auto simp: fits_def)
qed (rule step_represented)

lemma started_represents:
  assumes "start_run (New_server scfg (New_engine cfg forwarder dec lg writer) slg) = Inr s" "sc_worker_count scfg = 1"
  shows "represents W (sc_max_dedup_entries (ac_server cfg)) [] s (new_relay cfg)"
proof -
  let ?limit = "sc_max_dedup_entries (ac_server cfg)"
  have s: "sv_workers s = [Waiting]" "sv_engine s = New_engine cfg forwarder dec lg writer"
    using assms by (auto simp: start_run_def New_server_def split: if_splits)
  have "windows (NewStore ?limit) = Map.empty" by (simp add: windows_def lookup_def NewStore_def fun_eq_iff)
  with s show ?thesis
    using inv_NewStore [of ?limit]
    by (simp add: represents_def new_relay_def New_engine_def store_kept_def NewStore_def tasks_ok_def)
qed

section \<open>Properties\<close>

text \<open>
  C5. A server with one worker implements the abstract relay: under every schedule of the reader, the queue,
  the worker and the tickers, and with any reloads, what an observer sees of it (the alarms it stores, the
  events it handles with the packets it hands to the forwarder, the cleanups, the reloads) is a run of the
  abstract relay, in which an event is decided at one moment, under a configuration that was current since
  the event before it, an alarm that is let through is handed over before another event is handled, and
  a cleanup removes the windows it finds closed; provided that the limit the relay was started with leaves
  room for the alarms stored.
\<close>

theorem single_worker_implements_relay:
  assumes "start_run (New_server scfg (New_engine cfg forwarder dec lg writer) slg) = Inr s" "sc_worker_count scfg = 1"
    and "server_run E s tr s'" "fits (sc_max_dedup_entries (ac_server cfg)) tr"
  shows "\<exists>a. run (relay_step (se_match E)) (new_relay cfg) (filter visible_label tr) a"
  using abstracted.run_simulated [OF assms(3) started_represents [OF assms(1,2)] assms(4)] by blast

text \<open>A trap from the socket to the forwarder.\<close>

definition trap_packet :: queued_packet where
  "trap_packet = \<lparr>pk_payload = sample_trap, pk_remote = \<lparr>ua_ip = [10, 0, 0, 1], ua_port = 162, ua_zone = []\<rparr>\<rparr>"

definition trap_trace :: "trap_event \<Rightarrow> label list" where
  "trap_trace e = [Tick (Some 4), Recv trap_packet, Tau, Enqueue trap_packet, Take trap_packet, Tau, Tau, Tau,
     Handled e [(sample_trap, None)]]"

lemma trap_parsed:
  assumes "en_state en = Some \<lparr>rs_cfg = sample_config, rs_forwarder = [sample_target],
      rs_decoder = Some \<lparr>dec_g = Some None, dec_cfg = Some sample_config\<rparr>, rs_logger = sample_logger, rs_alerts = None\<rparr>"
  shows "parse_packet sample_lib en 5 trap_packet = Inr sample_parsed"
proof -
  have "Decode sample_lib \<lparr>dec_g = Some None, dec_cfg = Some sample_config\<rparr> 5 sample_trap ''10.0.0.1'' 162 = Inr sample_parsed"
    using ParseTrap_sample by (simp add: Decode_def sample_lib_def sample_config_def) (simp add: sample_trap_def)
  moreover have "ip_str [10, 0, 0, 1] = ''10.0.0.1''" by code_simp
  ultimately show ?thesis using assms by (simp add: parse_packet_def trap_packet_def Parse_def)
qed

lemma trap_run: "\<exists>e s'. server_run sample_senv sample_server (trap_trace e) s'"
proof -
  let ?st = "\<lparr>rs_cfg = sample_config, rs_forwarder = [sample_target],
      rs_decoder = Some \<lparr>dec_g = Some None, dec_cfg = Some sample_config\<rparr>, rs_logger = sample_logger, rs_alerts = None\<rparr>
      :: (string \<times> usm_params) list gosnmp_decoder runtime_state"
  define en where "en = snd (engine_Cleanup (sv_engine sample_server) 4)"
  have st: "en_state en = Some ?st"
    by (simp add: en_def engine_Cleanup_def split_beta sample_server_def New_server_def New_engine_def)
  let ?s1 = "sample_server\<lparr>sv_engine := en, sv_reader := Reading\<rparr>"
  let ?s2 = "?s1\<lparr>sv_reader := Holding trap_packet\<rparr>"
  let ?s3 = "?s2\<lparr>sv_stats := bump Received (sv_stats ?s2), sv_reader := Offering trap_packet\<rparr>"
  let ?s4 = "?s3\<lparr>sv_chan := sv_chan ?s3 @ [trap_packet], sv_reader := Enqueued\<rparr>"
  let ?s5 = "set_worker (?s4\<lparr>sv_chan := []\<rparr>) 0 (Taken trap_packet)"
  let ?s6 = "set_worker (?s5\<lparr>sv_queue_depth := sv_queue_depth ?s5 - 1\<rparr>) 0 (Parsing trap_packet)"
  let ?s7 = "set_worker ?s6 0 (Handling sample_parsed)"
  let ?w = "start_work (en_dedup en) sample_parsed"
  let ?s8 = "set_worker ?s7 0 (Running ?st (Rounds False []) ?w)"
  obtain res w' where f: "forwardPassThrough (\<lambda>_ _. None) ?st (?w\<lparr>wk_store := en_dedup en\<rparr>) = (res, w')" by fastforce
  let ?s9 = "set_worker (?s8\<lparr>sv_engine := (sv_engine ?s8)\<lparr>en_dedup := wk_store w'\<rparr>\<rparr>) 0 (Counting (result_counters res))"
  have alarms: "ac_alarms sample_config = []" by (simp add: sample_config_def)
  have sent: "sends (wk_out w') = [(sample_trap, None)]"
    using f effect_sends [OF forwardPassThrough_effect [OF f]]
    by (auto simp: forwardPassThrough_def Let_def result_sends_def sample_parsed_def)
  note at = worker_at_def set_worker_def
  have "server_step sample_senv sample_server (Tick (Some 4)) ?s1"
    unfolding en_def by (rule server_step.tick) simp
  moreover have "server_step sample_senv ?s1 (Recv trap_packet) ?s2"
    by (rule server_step.recv) (simp_all add: trap_packet_def sample_trap_def)
  moreover have "server_step sample_senv ?s2 Tau ?s3"
    by (rule server_step.count_received) simp
  moreover have "server_step sample_senv ?s3 (Enqueue trap_packet) ?s4"
    by (rule server_step.enqueue) simp_all
  moreover have "server_step sample_senv ?s4 (Take trap_packet) ?s5"
    by (rule server_step.take) (simp_all add: at)
  moreover have "server_step sample_senv ?s5 Tau ?s6"
    by (rule server_step.depth_down) (simp add: at)
  moreover have "server_step sample_senv ?s6 Tau ?s7"
    by (rule server_step.parsed [where now = 5 and p = trap_packet]) (simp_all add: at sample_senv_def trap_parsed st)
  moreover have "server_step sample_senv ?s7 Tau ?s8"
    by (rule server_step.start_handler [where e = sample_parsed])
       (simp_all add: at st handler_start_def evaluateFilters_def sample_config_def)
  moreover have "server_step sample_senv ?s8 (Handled (wk_event w') [(sample_trap, None)]) ?s9"
    unfolding sent [symmetric]
  proof (rule server_step.answered [where sent = None])
    show "worker_at ?s8 0 (Running ?st (Rounds False []) ?w)" by (simp add: at)
    show "handler_step (se_match sample_senv) (\<lambda>_ _. None) ?st
        (Rounds False [], ?w\<lparr>wk_store := en_dedup (sv_engine ?s8)\<rparr>) = (Answer res, w')"
      using f by (simp add: after_rounds_def matchAlarm_def answer_def alarms)
  qed simp
  ultimately have "server_run sample_senv sample_server (trap_trace (wk_event w')) ?s9"
    unfolding trap_trace_def by (blast intro: run_cons run_nil)
  then show ?thesis by blast
qed

lemma single_worker_implements_relay_witness:
  "\<exists>e a. run (relay_step sample_env) (new_relay sample_config) [Tick (Some 4), Handled e [(sample_trap, None)]] a"
proof -
  obtain e s' where r: "server_run sample_senv sample_server (trap_trace e) s'" using trap_run by blast
  have "fits (sc_max_dedup_entries (ac_server sample_config)) (trap_trace e)"
    by (simp add: fits_def trap_trace_def trace_of_def sample_config_def)
  from single_worker_implements_relay [OF sample_start_run _ r this] show ?thesis
    by (auto simp: sample_senv_def trap_trace_def)
qed

end
