(* ===== verification/Suppression.thy ===== *)
theory Suppression
  imports Server_Refinement
begin

text \<open>
  What deduplication may cost, with any number of workers: a trap is suppressed only for a reason that the
  trace shows. Every window in the store was opened by an event that was stored before, a handler that
  finds a window open has seen such an event, even when the store changes between its \<open>Get\<close> and its
  \<open>Touch\<close>, and the worker that stored an event hands it to the forwarder with its next step.
\<close>

section \<open>Reasons in the trace\<close>

text \<open>The configurations loaded so far: the first one and those of the reloads.\<close>

definition loaded :: "app_config \<Rightarrow> label list \<Rightarrow> app_config set" where
  "loaded cfg tr = insert cfg {c. Reload c \<in> set tr}"

text \<open>Under a configuration, an event that is kept raises an alarm with a complete key.\<close>

definition alarm_event :: "match_env \<Rightarrow> app_config \<Rightarrow> trap_event \<Rightarrow> alarm_rule_config \<Rightarrow> cache_key \<Rightarrow> bool" where
  "alarm_event W cfg e alarm k \<longleftrightarrow>
     kept W cfg e \<and> (\<exists>key. at_alarm W cfg e alarm key \<and> k = (al_id alarm, dk_hash key))"

text \<open>The window was opened by an event that the trace shows stored.\<close>

definition opened_by :: "match_env \<Rightarrow> app_config \<Rightarrow> label list \<Rightarrow> cache_key \<Rightarrow> window \<Rightarrow> trap_event \<Rightarrow> bool" where
  "opened_by W cfg0 tr k x e0 \<longleftrightarrow>
     Stored e0 \<in> set tr \<and>
     (\<exists>cfg \<in> loaded cfg0 tr. \<exists>alarm. alarm_event W cfg e0 alarm k \<and>
        x = (ev_received_at e0, dd_ttl_seconds (al_dedup alarm), dd_hold_until_clear (al_dedup alarm)))"

definition repeats :: "match_env \<Rightarrow> app_config \<Rightarrow> label list \<Rightarrow> trap_event \<Rightarrow> cache_key \<Rightarrow> bool" where
  "repeats W cfg0 tr e k \<longleftrightarrow> (\<exists>x e0. opened_by W cfg0 tr k x e0 \<and> open_window (ev_received_at e) (Some x))"

text \<open>Under a configuration, the event is not for the forwarder: filtered, or matching or its key fails.\<close>

definition unfit :: "match_env \<Rightarrow> app_config \<Rightarrow> trap_event \<Rightarrow> bool" where
  "unfit W cfg e \<longleftrightarrow>
     \<not> kept W cfg e \<or> (\<exists>er. matchAlarm W cfg e = Inl er) \<or>
     (\<exists>alarm er. matchAlarm W cfg e = Inr (Some alarm) \<and> BuildDedupKey W e (dd_key_fields (al_dedup alarm)) = Inl er)"

definition excused :: "match_env \<Rightarrow> app_config \<Rightarrow> label list \<Rightarrow> app_config \<Rightarrow> trap_event \<Rightarrow> bool" where
  "excused W cfg0 tr cfg e \<longleftrightarrow>
     unfit W cfg e \<or> (\<exists>alarm k. alarm_event W cfg e alarm k \<and> repeats W cfg0 tr e k)"

lemma alarm_event_mark [simp]: "alarm_event W cfg (e\<lparr>ev_alerts_logged := b\<rparr>) alarm k = alarm_event W cfg e alarm k"
  by (simp add: alarm_event_def kept_def at_alarm_def)

lemma excused_mark [simp]: "excused W cfg0 tr cfg (e\<lparr>ev_alerts_logged := b\<rparr>) = excused W cfg0 tr cfg e"
  by (simp add: excused_def unfit_def kept_def repeats_def)

text \<open>Reasons last.\<close>

lemma loaded_mono: "cfg \<in> loaded cfg0 tr \<Longrightarrow> cfg \<in> loaded cfg0 (tr @ tr')"
  by (auto simp: loaded_def)

lemma opened_by_mono: "opened_by W cfg0 tr k x e0 \<Longrightarrow> opened_by W cfg0 (tr @ tr') k x e0"
  by (fastforce simp: opened_by_def intro: loaded_mono)

lemma repeats_mono: "repeats W cfg0 tr e k \<Longrightarrow> repeats W cfg0 (tr @ tr') e k"
  unfolding repeats_def by (meson opened_by_mono)

section \<open>Handlers with their reasons\<close>

text \<open>Every window of the store has its opening event in the trace.\<close>

definition windows_known :: "match_env \<Rightarrow> app_config \<Rightarrow> label list \<Rightarrow> store \<Rightarrow> bool" where
  "windows_known W cfg0 tr d \<longleftrightarrow> (\<forall>k x. windows d k = Some x \<longrightarrow> (\<exists>e0. opened_by W cfg0 tr k x e0))"

fun pc_known :: "match_env \<Rightarrow> app_config \<Rightarrow> label list \<Rightarrow> app_config \<Rightarrow> trap_event \<Rightarrow> handler_pc \<Rightarrow> bool" where
  "pc_known W cfg0 tr cfg e (Rounds flag alarms) \<longleftrightarrow> kept W cfg e"
| "pc_known W cfg0 tr cfg e (Looking alarm key) \<longleftrightarrow> kept W cfg e \<and> at_alarm W cfg e alarm key"
| "pc_known W cfg0 tr cfg e (Touching alarm key) \<longleftrightarrow>
     kept W cfg e \<and> at_alarm W cfg e alarm key \<and> repeats W cfg0 tr e (al_id alarm, dk_hash key)"
| "pc_known W cfg0 tr cfg e (Storing alarm key) \<longleftrightarrow> kept W cfg e \<and> at_alarm W cfg e alarm key"
| "pc_known W cfg0 tr cfg e (Sending alarm key) \<longleftrightarrow> kept W cfg e \<and> at_alarm W cfg e alarm key"
| "pc_known W cfg0 tr cfg e (Answer res) \<longleftrightarrow> attempted res \<or> excused W cfg0 tr cfg e"

lemma pc_known_mark [simp]: "pc_known W cfg0 tr cfg (e\<lparr>ev_alerts_logged := b\<rparr>) pc = pc_known W cfg0 tr cfg e pc"
  by (cases pc) (simp_all add: kept_def at_alarm_def repeats_def)

lemma pc_known_mono: "\<not> is_answer pc \<Longrightarrow> pc_known W cfg0 tr cfg e pc \<Longrightarrow> pc_known W cfg0 (tr @ tr') cfg e pc"
  by (cases pc) (auto intro: repeats_mono)

lemma start_known:
  assumes "handler_start W st (start_work s e) = (pc, w)"
  shows "pc_known W cfg0 tr (rs_cfg st) (wk_event w) pc"
  using assms
  by (auto simp: handler_start_def excused_def unfit_def kept_def split: sum.splits if_splits)

lemma after_rounds_known:
  assumes "after_rounds W send st flag w = (pc, w')" "kept W (rs_cfg st) (wk_event w)"
  shows "pc_known W cfg0 tr (rs_cfg st) (wk_event w) pc"
proof -
  have p: "attempted (fst (forwardPassThrough send st w))" for alarm key
    using forwardPassThrough_sim [of send st w] by (metis prod.collapse)
  have u: "attempted (fst (forward_undeduped send st alarm key w))" for alarm key
    using forward_undeduped_sim [of send st alarm key w] by (metis prod.collapse)
  show ?thesis
    using assms
    by (auto simp: after_rounds_def answer_def p u excused_def unfit_def at_alarm_def complete_key_def
        split: if_splits sum.splits option.splits)
qed

text \<open>A step makes a window only by a \<open>Put\<close>.\<close>

lemma spec_clear_round_Some: "snd (spec_clear_round W e (flag, m) a) k = Some x \<Longrightarrow> m k = Some x"
  by (auto simp: spec_clear_round_def split: prod.splits option.splits if_splits)

lemma clear_round_windows:
  "clear_round W st (flag, w) a = (flag', w') \<Longrightarrow> windows (wk_store w') k = Some x \<Longrightarrow> windows (wk_store w) k = Some x"
  using clear_round_sim(1) [of W st flag w a flag' w'] spec_clear_round_Some [of W "wk_event w" flag "windows (wk_store w)" a k x]
  by simp

lemma windows_get_Some: "windows (snd (Store_Get s r h now)) k = Some x \<Longrightarrow> windows s k = Some x"
  by (auto simp: windows_def look_Get visible_def split: if_splits option.splits)

lemma windows_put_Some:
  "windows (snd (Store_Put s r h repr e ttl hold)) k = Some x \<Longrightarrow>
     windows s k = Some x \<or> k = (r, h) \<and> x = (ev_received_at e, ttl, hold)"
  using look_Put(2) [of s r h repr e ttl hold] look_Put(3) [of k r h s repr e ttl hold]
  by (cases "k = (r, h)") (auto simp: windows_def new_state_def)

lemma handler_step_windows:
  assumes "handler_step W send st (pc, w) = (pc', w')" "\<not> is_answer pc" "windows (wk_store w') k = Some x"
  shows "windows (wk_store w) k = Some x \<or>
    (\<exists>alarm key. pc = Storing alarm key \<and> pc' = Sending alarm key \<and> k = (al_id alarm, dk_hash key) \<and>
      x = (ev_received_at (wk_event w), dd_ttl_seconds (al_dedup alarm), dd_hold_until_clear (al_dedup alarm)))"
proof (cases pc)
  case (Rounds flag alarms)
  show ?thesis
  proof (cases alarms)
    case Nil
    with assms Rounds after_rounds_store show ?thesis by fastforce
  next
    case (Cons a as)
    with assms(1) Rounds obtain f where "clear_round W st (flag, w) a = (f, w')" by (auto split: prod.splits)
    from clear_round_windows [OF this assms(3)] show ?thesis ..
  qed
next
  case (Looking alarm key)
  with assms(1,3) windows_get_Some [of "wk_store w" "al_id alarm" "dk_hash key" "ev_received_at (wk_event w)" k x]
  show ?thesis by (auto simp: split_beta Let_def)
next
  case (Touching alarm key)
  have "windows (wk_store w') = windows (wk_store w)"
    using assms(1) Touching windows_touch [of "wk_store w" "al_id alarm" "dk_hash key" "wk_event w"]
    by (cases "Store_Touch (wk_store w) (al_id alarm) (dk_hash key) (wk_event w)")
       (auto simp: Let_def emit_def split: option.splits)
  with assms(3) show ?thesis by simp
next
  case (Storing alarm key)
  with assms(1,3) windows_put_Some [of "wk_store w" "al_id alarm" "dk_hash key" "dk_repr key" "wk_event w" _ _ k x]
  show ?thesis by auto
next
  case (Sending alarm key)
  obtain res v where f: "send_alarm send st alarm key w = (res, v)" by fastforce
  with assms(1) Sending have "w' = v" by (simp add: answer_def)
  with send_alarm_sim [OF f] assms(3) show ?thesis by simp
qed (use assms(2) in simp)

text \<open>A step keeps the reasons.\<close>

lemma handler_step_known:
  assumes "handler_step W send st (pc, w) = (pc', w')" "\<not> is_answer pc"
    and "pc_known W cfg0 tr (rs_cfg st) (wk_event w) pc" "windows_known W cfg0 tr (wk_store w)"
  shows "pc_known W cfg0 tr (rs_cfg st) (wk_event w') pc'"
proof -
  obtain b where b: "wk_event w' = (wk_event w)\<lparr>ev_alerts_logged := b\<rparr>"
    using effect_event [OF handler_step_effect [OF assms(1,2)]] by auto
  have "pc_known W cfg0 tr (rs_cfg st) (wk_event w) pc'"
  proof (cases pc)
    case (Rounds flag alarms)
    show ?thesis
    proof (cases alarms)
      case Nil
      with assms(1,3) Rounds show ?thesis by (auto intro: after_rounds_known)
    next
      case (Cons a as)
      with assms(1,3) Rounds show ?thesis by (auto split: prod.splits)
    qed
  next
    case (Looking alarm key)
    let ?k = "(al_id alarm, dk_hash key)"
    obtain found d where g: "Store_Get (wk_store w) (al_id alarm) (dk_hash key) (ev_received_at (wk_event w)) = (found, d)"
      by fastforce
    show ?thesis
    proof (cases found)
      case None
      with assms(1,3) Looking g show ?thesis by auto
    next
      case (Some ds)
      with get_windows(1) [OF g] obtain x where x: "windows (wk_store w) ?k = Some x"
        "open_window (ev_received_at (wk_event w)) (Some x)"
        by (cases "windows (wk_store w) ?k") (auto simp: open_window_def)
      with assms(4) have "repeats W cfg0 tr (wk_event w) ?k" unfolding windows_known_def repeats_def by blast
      with assms(1,3) Looking g Some show ?thesis by auto
    qed
  next
    case (Touching alarm key)
    then have "excused W cfg0 tr (rs_cfg st) (wk_event w)"
      using assms(3) by (auto simp: excused_def alarm_event_def)
    with assms(1,3) Touching show ?thesis by (auto simp: split_beta Let_def split: option.splits)
  next
    case (Storing alarm key)
    with assms(1,3) show ?thesis by auto
  next
    case (Sending alarm key)
    obtain res v where f: "send_alarm send st alarm key w = (res, v)" by fastforce
    with assms(1) Sending have "pc' = Answer res" by (simp add: answer_def)
    with send_alarm_sim [OF f] show ?thesis by simp
  qed (use assms(2) in simp)
  then show ?thesis by (simp add: b)
qed

section \<open>The server with its reasons\<close>

fun worker_known :: "match_env \<Rightarrow> app_config \<Rightarrow> label list \<Rightarrow> 't worker_pc \<Rightarrow> bool" where
  "worker_known W cfg0 tr (Running st pc w) \<longleftrightarrow>
     rs_cfg st \<in> loaded cfg0 tr \<and> pc_known W cfg0 tr (rs_cfg st) (wk_event w) pc"
| "worker_known W cfg0 tr _ \<longleftrightarrow> True"

definition reasons :: "match_env \<Rightarrow> app_config \<Rightarrow> int \<Rightarrow> label list \<Rightarrow> 't server \<Rightarrow> bool" where
  "reasons W cfg0 limit tr s \<longleftrightarrow>
     windows_known W cfg0 tr (en_dedup (sv_engine s)) \<and> store_kept limit s \<and> tasks_ok s \<and>
     (\<exists>st. en_state (sv_engine s) = Some st \<and> rs_cfg st \<in> loaded cfg0 tr) \<and>
     (\<forall>pc \<in> set (sv_workers s). worker_known W cfg0 tr pc)"

lemma windows_known_mono: "windows_known W cfg0 tr d \<Longrightarrow> windows_known W cfg0 (tr @ tr') d"
  unfolding windows_known_def by (meson opened_by_mono)

lemma windows_known_sub:
  "windows_known W cfg0 tr d \<Longrightarrow> (\<And>k x. windows d' k = Some x \<Longrightarrow> windows d k = Some x) \<Longrightarrow> windows_known W cfg0 tr d'"
  unfolding windows_known_def by blast

lemma worker_known_mono: "task_ok pc \<Longrightarrow> worker_known W cfg0 tr pc \<Longrightarrow> worker_known W cfg0 (tr @ tr') pc"
  by (cases pc) (auto intro: loaded_mono pc_known_mono)

lemma reasons_worker: "reasons W cfg0 limit tr s \<Longrightarrow> worker_at s i pc \<Longrightarrow> worker_known W cfg0 tr pc \<and> task_ok pc"
  by (auto simp: reasons_def worker_at_def tasks_ok_def)

lemma reasons_frame:
  assumes "reasons W cfg0 limit tr s" "tasks_ok s'" "store_kept limit s'"
    and "windows_known W cfg0 (tr @ [l]) (en_dedup (sv_engine s'))"
    and "en_state (sv_engine s') = en_state (sv_engine s)"
    and "\<forall>pc \<in> set (sv_workers s'). pc \<in> set (sv_workers s) \<or> worker_known W cfg0 (tr @ [l]) pc"
  shows "reasons W cfg0 limit (tr @ [l]) s'"
proof -
  have "worker_known W cfg0 (tr @ [l]) pc" if "pc \<in> set (sv_workers s')" for pc
    using assms(1,6) that worker_known_mono [of pc W cfg0 tr "[l]"] by (auto simp: reasons_def tasks_ok_def)
  with assms show ?thesis by (auto simp: reasons_def intro: loaded_mono)
qed

lemma set_worker_workers: "pc' \<in> set (sv_workers (set_worker s i pc)) \<Longrightarrow> pc' \<in> set (sv_workers s) \<or> pc' = pc"
  using set_update_subset_insert [of "sv_workers s" i pc] by (auto simp: set_worker_def)

text \<open>A running handler's step, with the label that belongs to it.\<close>

lemma running_known:
  assumes "reasons W cfg0 limit tr s" "worker_at s i (Running st pc w)" "\<not> is_answer pc"
    and "handler_step W send st (pc, w\<lparr>wk_store := en_dedup (sv_engine s)\<rparr>) = (pc', w')"
    and "\<forall>alarm key. pc = Storing alarm key \<longrightarrow> l = Stored (wk_event w)"
  shows "rs_cfg st \<in> loaded cfg0 tr" "pc_known W cfg0 tr (rs_cfg st) (wk_event w') pc'"
    and "windows_known W cfg0 (tr @ [l]) (wk_store w')"
proof -
  let ?d = "en_dedup (sv_engine s)"
  have k: "rs_cfg st \<in> loaded cfg0 tr" "pc_known W cfg0 tr (rs_cfg st) (wk_event w) pc" "task_ok (Running st pc w)"
    using reasons_worker [OF assms(1,2)] by simp_all
  have d: "windows_known W cfg0 tr ?d" using assms(1) by (simp add: reasons_def)
  show "rs_cfg st \<in> loaded cfg0 tr" by (rule k(1))
  show "pc_known W cfg0 tr (rs_cfg st) (wk_event w') pc'"
    using handler_step_known [OF assms(4,3)] k(2) d by simp
  show "windows_known W cfg0 (tr @ [l]) (wk_store w')"
    unfolding windows_known_def
  proof (intro allI impI)
    fix key x assume "windows (wk_store w') key = Some x"
    from handler_step_windows [OF assms(4,3) this]
    consider "windows ?d key = Some x"
      | alarm dk where "pc = Storing alarm dk" "key = (al_id alarm, dk_hash dk)"
        "x = (ev_received_at (wk_event w), dd_ttl_seconds (al_dedup alarm), dd_hold_until_clear (al_dedup alarm))" by auto
    then show "\<exists>e0. opened_by W cfg0 (tr @ [l]) key x e0"
    proof cases
      case 1
      with windows_known_mono [OF d, of "[l]"] show ?thesis unfolding windows_known_def by blast
    next
      case 2
      have "alarm_event W (rs_cfg st) (wk_event w) alarm key" using k(2) 2(1,2) by (auto simp: alarm_event_def)
      moreover have "rs_cfg st \<in> loaded cfg0 (tr @ [l])" using k(1) by (rule loaded_mono)
      ultimately have "opened_by W cfg0 (tr @ [l]) key x (wk_event w)"
        unfolding opened_by_def using assms(5) 2(1,3) by auto
      then show ?thesis ..
    qed
  qed
qed

lemma step_reasons:
  assumes "server_step E s l s'" "reasons (se_match E) cfg0 limit tr s"
  shows "reasons (se_match E) cfg0 limit (tr @ [l]) s'"
proof -
  let ?W = "se_match E"
  have d: "windows_known ?W cfg0 tr (en_dedup (sv_engine s))" and kept: "store_kept limit s" and ok: "tasks_ok s"
    using assms(2) by (simp_all add: reasons_def)
  note d' = windows_known_mono [OF d, of "[l]"]
  note rest = step_tasks [OF assms(1) ok] step_kept [OF assms(1) kept]
  show ?thesis using assms(1)
  proof (cases rule: server_step.cases)
    case (reload cfg dec ts lg b)
    then have "\<forall>pc \<in> set (sv_workers s'). worker_known ?W cfg0 (tr @ [l]) pc"
      using assms(2) ok worker_known_mono [of _ ?W cfg0 tr "[l]"] by (auto simp: reasons_def tasks_ok_def)
    with reload rest d' show ?thesis by (simp add: reasons_def Reload_engine_def loaded_def)
  next
    case (tick now)
    have "store_inv (en_dedup (sv_engine s))" using kept by (simp add: store_kept_def)
    note w = windows_cleanup [OF this, of now]
    have "windows_known ?W cfg0 (tr @ [l]) (en_dedup (sv_engine s'))"
      using tick by (intro windows_known_sub [OF d']) (auto simp: engine_Cleanup_def split_beta w expire_def split: if_splits)
    with tick show ?thesis by (intro reasons_frame [OF assms(2) rest]) (auto simp: engine_Cleanup_def split_beta)
  next
    case (start_handler i e st pc w)
    have "worker_known ?W cfg0 (tr @ [l]) (Running st pc w)"
      using start_known [OF start_handler(5)] assms(2) start_handler(4) by (auto simp: reasons_def intro: loaded_mono)
    with start_handler d' show ?thesis
      by (intro reasons_frame [OF assms(2) rest]) (auto dest!: set_worker_workers)
  next
    case (advance i st pc w sent pc' w')
    have "\<forall>alarm key. pc = Storing alarm key \<longrightarrow> l = Stored (wk_event w)" using advance(1) by simp
    note r = running_known [OF assms(2) advance(3-5) this]
    have "worker_known ?W cfg0 (tr @ [l]) (Running st pc' w')"
      using r(1,2) advance(6) by (auto intro: loaded_mono pc_known_mono)
    moreover have "windows_known ?W cfg0 (tr @ [l]) (wk_store w')" using r(3) advance(6) by simp
    ultimately show ?thesis using advance
      by (intro reasons_frame [OF assms(2) rest]) (auto dest!: set_worker_workers)
  next
    case (answered i st pc w sent res w')
    have "\<forall>alarm key. pc = Storing alarm key \<longrightarrow> l = Stored (wk_event w)" using answered(5) by auto
    note r = running_known(3) [OF assms(2) answered(3-5) this]
    from r answered show ?thesis
      by (intro reasons_frame [OF assms(2) rest]) (auto dest!: set_worker_workers)
  qed ((rule reasons_frame [OF assms(2) rest]; use d' in \<open>auto dest!: set_worker_workers\<close>)+)
qed

interpretation reasoned: traced "server_step E" "reasons (se_match E) cfg limit" for E cfg limit
  by unfold_locales (rule step_reasons)

text \<open>A handler that hands nothing to the forwarder has a reason.\<close>

lemma silent_excused:
  assumes "server_step E s (Handled e []) s'" "reasons (se_match E) cfg0 limit tr s"
  shows "\<exists>cfg \<in> loaded cfg0 tr. excused (se_match E) cfg0 tr cfg e"
  using assms(1)
proof (cases rule: server_step.cases)
  case (start_failed i)
  with assms(2) show ?thesis by (auto simp: reasons_def)
next
  case (answered_early i st res w)
  have "\<not> attempted res"
    using sends_attempted [of res w] handler_start_ok [OF answered_early(5)] answered_early(1) by auto
  moreover obtain b where "wk_event w = e\<lparr>ev_alerts_logged := b\<rparr>" using start_follows(3) [OF answered_early(5)] by auto
  ultimately have "excused (se_match E) cfg0 tr (rs_cfg st) e"
    using start_known [OF answered_early(5), of cfg0 tr] by simp
  then show ?thesis using assms(2) answered_early(4) by (auto simp: reasons_def)
next
  case (answered i st pc w sent res w')
  have "\<forall>alarm key. pc = Storing alarm key \<longrightarrow> Handled e [] = Stored (wk_event w)" using answered(6) by auto
  note r = running_known(1,2) [OF assms(2) answered(4-6) this]
  have "handler_ok (Answer res) w'"
    using handler_step_ok [OF answered(6,5)] reasons_worker [OF assms(2) answered(4)] by simp
  then have "\<not> attempted res" using sends_attempted [of res w'] answered(2) by simp
  with r answered(1) show ?thesis by auto
next
  case (advance i st pc w sent pc' w')
  then show ?thesis by (cases pc) simp_all
qed

section \<open>What was stored is sent\<close>

text \<open>A worker that stands before the \<open>Send\<close> of a stored event, and the events it has handed over.\<close>

fun due_at :: "trap_event \<Rightarrow> 't worker_pc \<Rightarrow> bool" where
  "due_at e (Running st pc w) \<longleftrightarrow> is_sending pc \<and> wk_event w = e"
| "due_at e _ \<longleftrightarrow> False"

definition sent_or_due :: "label list \<Rightarrow> 't server \<Rightarrow> trap_event \<Rightarrow> bool" where
  "sent_or_due tr s e \<longleftrightarrow>
     (\<exists>b ss. Handled (e\<lparr>ev_alerts_logged := b\<rparr>) ss \<in> set tr \<and> ss \<noteq> []) \<or> (\<exists>pc \<in> set (sv_workers s). due_at e pc)"

lemma due_move:
  assumes "sent_or_due tr s e" "worker_at s i pc" "sv_workers s' = (sv_workers s)[i := pc']" "\<not> due_at e pc"
  shows "sent_or_due (tr @ [l]) s' e"
proof -
  have "\<exists>q \<in> set ((sv_workers s)[i := pc']). due_at e q" if q: "q \<in> set (sv_workers s)" "due_at e q" for q
  proof -
    obtain j where j: "j < length (sv_workers s)" "sv_workers s ! j = q" using q(1) by (auto simp: in_set_conv_nth)
    then have "i \<noteq> j" using assms(2,4) q(2) by (auto simp: worker_at_def)
    with j have "q \<in> set ((sv_workers s)[i := pc'])" by (auto simp: in_set_conv_nth intro!: exI [of _ j])
    with q(2) show ?thesis by blast
  qed
  with assms(1,3) show ?thesis by (auto simp: sent_or_due_def)
qed

lemma due_same: "sent_or_due tr s e \<Longrightarrow> sv_workers s' = sv_workers s \<Longrightarrow> sent_or_due (tr @ [l]) s' e"
  by (auto simp: sent_or_due_def)

lemma due_unsent: "sent_or_due (tr @ [Handled e' []]) s e \<longleftrightarrow> sent_or_due tr s e"
  by (auto simp: sent_or_due_def)

definition dues :: "label list \<Rightarrow> 't server \<Rightarrow> bool" where
  "dues tr s \<longleftrightarrow> tasks_ok s \<and> (\<forall>e. Stored e \<in> set tr \<longrightarrow> sent_or_due tr s e)"

lemma due_running:
  assumes "worker_at s i (Running st pc w)" "\<not> is_answer pc" "task_ok (Running st pc w)"
    and "handler_step W send st (pc, w\<lparr>wk_store := d\<rparr>) = (Answer res, w')" "due_at e (Running st pc w)"
  shows "sent_or_due (tr @ [Handled (wk_event w') (sends (wk_out w'))]) s' e"
proof -
  have "handler_ok (Answer res) w'" using handler_step_ok [OF assms(4,2)] assms(3) by simp
  moreover have "attempted res" using sent_step(1) [OF assms(4)] assms(5) by simp
  ultimately have "sends (wk_out w') \<noteq> []" using sends_attempted by blast
  moreover obtain b where "wk_event w' = (wk_event w)\<lparr>ev_alerts_logged := b\<rparr>"
    using effect_event [OF handler_step_effect [OF assms(4,2)]] by auto
  ultimately show ?thesis using assms(5) by (auto simp: sent_or_due_def)
qed

lemma step_dues:
  assumes "server_step E s l s'" "dues tr s"
  shows "dues (tr @ [l]) s'"
proof -
  have ok: "tasks_ok s" and due: "\<And>e. Stored e \<in> set tr \<Longrightarrow> sent_or_due tr s e" using assms(2) by (simp_all add: dues_def)
  have "sent_or_due (tr @ [l]) s' e" if "Stored e \<in> set (tr @ [l])" for e
  proof -
  have base: "l \<noteq> Stored e \<Longrightarrow> sent_or_due tr s e" using that due by auto
  show ?thesis using assms(1)
  proof (cases rule: server_step.cases)
    case (advance i st pc w sent pc' w')
    have ws: "sv_workers s' = (sv_workers s)[i := Running st pc' w']" using advance(2) by (simp add: set_worker_def)
    show ?thesis
    proof (cases "Stored e \<in> set tr")
      case True
      have "\<not> due_at e (Running st pc w)" using advance(5,6) by (cases pc) (auto simp: answer_def)
      from due_move [OF due [OF True] advance(3) ws this] show ?thesis .
    next
      case False
      with that advance(1) have "step_label pc (wk_event w) = Stored e" by simp
      then obtain alarm key where "pc = Storing alarm key" "wk_event w = e" by (cases pc) auto
      then have "due_at e (Running st pc' w')" using advance(5) by auto
      moreover have "Running st pc' w' \<in> set (sv_workers s')"
        using advance(3) by (simp add: ws worker_at_def set_update_memI)
      ultimately show ?thesis unfolding sent_or_due_def by blast
    qed
  next
    case (answered i st pc w sent res w')
    have ws: "sv_workers s' = (sv_workers s)[i := Counting (result_counters res)]"
      using answered(2) by (simp add: set_worker_def)
    have e: "Stored e \<in> set tr" using that answered(1) by simp
    show ?thesis
    proof (cases "due_at e (Running st pc w)")
      case True
      have "task_ok (Running st pc w)" using ok worker_at_mem [OF answered(3)] by (auto simp: tasks_ok_def)
      from due_running [OF answered(3,4) this answered(5) True] show ?thesis unfolding answered(1) .
    next
      case False
      from due_move [OF due [OF e] answered(3) ws this] show ?thesis .
    qed
  qed ((rule due_same [OF base]; simp; fail) |
      (rule due_move [OF base], simp, assumption, simp add: set_worker_def, simp))+
  qed
  with step_tasks [OF assms(1) ok] show ?thesis by (simp add: dues_def)
qed

interpretation due: traced "server_step E" dues for E
  by unfold_locales (rule step_dues)

section \<open>A worker that is not interrupted\<close>

text \<open>It does what \<open>HandleEvent\<close> does, and no packet moves before its last step.\<close>

definition still :: "label list \<Rightarrow> bool" where
  "still tr \<longleftrightarrow> trace_of read_of tr = [] \<and> trace_of ended_of tr = [] \<and> trace_of sent_of tr = []"

lemma still_simps [simp]:
  "still []" "still (Tau # tr) = still tr" "still (step_label pc e # tr) = still tr"
  by (simp_all add: still_def trace_of_def)

lemma running_handles:
  assumes "worker_at s i (Running st pc w)" "\<not> is_answer pc" "wk_store w = en_dedup (sv_engine s)"
    and "meaning (se_match E) (\<lambda>_ _. sent) st (pc, w) = (res, w')"
  shows "\<exists>tr. still tr \<and> server_run E s (tr @ [Handled (wk_event w') (sends (wk_out w'))])
    (moved s i (Counting (result_counters res)) (wk_store w'))"
  using assms
proof (induction "steps_left pc" arbitrary: s pc w rule: less_induct)
  case less
  obtain pc1 w1 where h: "handler_step (se_match E) (\<lambda>_ _. sent) st (pc, w) = (pc1, w1)" by fastforce
  have w: "w\<lparr>wk_store := en_dedup (sv_engine s)\<rparr> = w" using less.prems(3) by simp
  have m: "meaning (se_match E) (\<lambda>_ _. sent) st (pc1, w1) = (res, w')"
    using meaning_step [of "se_match E" "\<lambda>_ _. sent" st "(pc, w)"] h less.prems(4) by simp
  show ?case
  proof (cases "is_answer pc1")
    case True
    then obtain r where r: "pc1 = Answer r" by (cases pc1) auto
    with m have "r = res" "w1 = w'" by simp_all
    with h r have "server_step E s (Handled (wk_event w') (sends (wk_out w')))
        (moved s i (Counting (result_counters res)) (wk_store w'))"
      unfolding moved_def by (intro server_step.answered [OF less.prems(1,2)]) (simp add: w)
    then have "server_run E s [Handled (wk_event w') (sends (wk_out w'))] (moved s i (Counting (result_counters res)) (wk_store w'))"
      by (rule run_one)
    then show ?thesis by (intro exI [of _ "[]"]) simp
  next
    case False
    let ?s1 = "moved s i (Running st pc1 w1) (wk_store w1)"
    have "server_step E s (step_label pc (wk_event w)) ?s1"
      unfolding moved_def using h w False by (intro server_step.advance [OF less.prems(1,2)]) simp_all
    moreover have "worker_at ?s1 i (Running st pc1 w1)"
      using less.prems(1) by (intro worker_at_moved) (simp add: worker_at_def)
    moreover have "steps_left pc1 < steps_left pc" using handler_step_left [OF less.prems(2)] h by (metis fst_conv)
    ultimately obtain tr where "still tr" "server_run E s (step_label pc (wk_event w) # tr @ [Handled (wk_event w') (sends (wk_out w'))])
        (moved ?s1 i (Counting (result_counters res)) (wk_store w'))"
      using less.hyps [of pc1 ?s1 w1] False m by (auto intro: run_cons)
    then show ?thesis by (intro exI [of _ "step_label pc (wk_event w) # tr"]) simp
  qed
qed

lemma worker_handles:
  assumes "worker_at s i (Handling e)" "en_state (sv_engine s) = Some st"
    and "HandleEvent (se_match E) (\<lambda>_ _. sent) (Some st) (start_work (en_dedup (sv_engine s)) e) = (res, w')"
  shows "\<exists>tr. still tr \<and> server_run E s (tr @ [Handled (wk_event w') (sends (wk_out w'))])
    (moved s i (Counting (result_counters res)) (wk_store w'))"
proof -
  obtain pc w where h: "handler_start (se_match E) st (start_work (en_dedup (sv_engine s)) e) = (pc, w)" by fastforce
  have m: "meaning (se_match E) (\<lambda>_ _. sent) st (pc, w) = (res, w')"
    using meaning_start [of "se_match E" "\<lambda>_ _. sent" st "start_work (en_dedup (sv_engine s)) e"] h assms(3) by simp
  have d: "wk_store w = en_dedup (sv_engine s)" by (rule start_follows(2) [OF h])
  show ?thesis
  proof (cases "is_answer pc")
    case True
    then obtain r where r: "pc = Answer r" by (cases pc) auto
    with m have "r = res" "w = w'" by simp_all
    then have "server_step E s (Handled e (sends (wk_out w'))) (moved s i (Counting (result_counters res)) (wk_store w'))"
      using server_step.answered_early [OF assms(1,2), of E res w'] h r d by (simp add: moved_def)
    moreover have "wk_event w' = e" using h r \<open>w = w'\<close> by (auto simp: handler_start_def split: sum.splits if_splits)
    ultimately show ?thesis using run_one by (intro exI [of _ "[]"]) fastforce
  next
    case False
    let ?s1 = "set_worker s i (Running st pc w)"
    have "worker_at ?s1 i (Running st pc w)" using assms(1) by (simp add: worker_at_def set_worker_def)
    from running_handles [OF this False _ m] d obtain tr where
      n: "still tr" "server_run E ?s1 (tr @ [Handled (wk_event w') (sends (wk_out w'))])
        (moved ?s1 i (Counting (result_counters res)) (wk_store w'))" by auto
    have "moved ?s1 i pc' d' = moved s i pc' d'" for pc' d' by (simp add: moved_def set_worker_def)
    with run_cons [OF server_step.start_handler [OF assms(1,2) h False] n(2)] n(1) show ?thesis
      by (intro exI [of _ "Tau # tr"]) simp
  qed
qed

section \<open>Properties\<close>

text \<open>
  C6. Deduplication loses nothing: with any number of workers, under every interleaving, with reloads, ticks
  and evictions, an event that is handled without being handed to the forwarder is either unfit under a
  configuration loaded before (a filter drops it, or matching it or building its key fails), or it raises an alarm
  under it and repeats an event of the same rule and key that the trace shows stored before, within the
  TTL of that event's alarm, or with the alarm held until a clear; and that event has been handed to the
  forwarder, or a worker stands right before handing it over.
\<close>

theorem suppressed_only_repeats:
  assumes "start_run (New_server scfg (New_engine cfg0 forwarder dec lg writer) slg) = Inr s"
    and "server_run E s (tr @ [Handled e []]) s'"
  shows "\<exists>cfg \<in> loaded cfg0 tr. unfit (se_match E) cfg e \<or>
    (\<exists>alarm k x e0. alarm_event (se_match E) cfg e alarm k \<and> opened_by (se_match E) cfg0 tr k x e0 \<and>
       open_window (ev_received_at e) (Some x) \<and> sent_or_due tr s' e0)"
proof -
  obtain s1 where r: "server_run E s tr s1" "server_step E s1 (Handled e []) s'" using assms(2) by (auto elim: run_snocE)
  have s: "sv_workers s = replicate (nat (sc_worker_count scfg)) Waiting" "sv_engine s = New_engine cfg0 forwarder dec lg writer"
    using assms(1) by (auto simp: start_run_def New_server_def split: if_splits)
  have w: "windows (NewStore limit) k = None" "st_limit (NewStore limit) = limit" for limit k
    by (simp_all add: windows_def lookup_def NewStore_def)
  have "reasons (se_match E) cfg0 (sc_max_dedup_entries (ac_server cfg0)) [] s"
    using s inv_NewStore [of "sc_max_dedup_entries (ac_server cfg0)"]
    by (auto simp: reasons_def New_engine_def store_kept_def tasks_ok_def windows_known_def w loaded_def)
  note excuse = silent_excused [OF r(2) reasoned.run_traced [OF r(1) this, simplified]]
  have "dues [] s" using s by (simp add: dues_def tasks_ok_def)
  from due.run_traced [OF assms(2) this] have "Stored e0 \<in> set tr \<Longrightarrow> sent_or_due tr s' e0" for e0
    by (simp add: dues_def due_unsent)
  then have "opened_by (se_match E) cfg0 tr k x e0 \<Longrightarrow> sent_or_due tr s' e0" for k x e0
    unfolding opened_by_def by blast
  with excuse show ?thesis unfolding excused_def repeats_def by blast
qed

text \<open>A packet on its way to a waiting worker.\<close>

lemma packet_reaches_worker:
  assumes "sv_reader s = Polling" "\<not> sv_cancelled s" "sv_chan s = []" "worker_at s i Waiting"
    and "int (length (pk_payload p)) \<le> sc_max_datagram_size (sv_cfg s)" "0 < sc_queue_size (sv_cfg s)"
    and "parse_packet (se_lib E) (sv_engine s) now p = Inr e"
  shows "\<exists>stats depth. server_run E s [Tau, Recv p, Tau, Enqueue p, Tau, Take p, Tau, Tau]
    (set_worker (s\<lparr>sv_stats := stats, sv_queue_depth := depth\<rparr>) i (Handling e))"
proof -
  let ?s1 = "s\<lparr>sv_reader := Reading\<rparr>"
  let ?s2 = "?s1\<lparr>sv_reader := Holding p\<rparr>"
  let ?s3 = "?s2\<lparr>sv_stats := bump Received (sv_stats ?s2), sv_reader := Offering p\<rparr>"
  let ?s4 = "?s3\<lparr>sv_chan := sv_chan ?s3 @ [p], sv_reader := Enqueued\<rparr>"
  let ?s5 = "?s4\<lparr>sv_queue_depth := sv_queue_depth ?s4 + 1, sv_reader := Polling\<rparr>"
  let ?s6 = "set_worker (?s5\<lparr>sv_chan := []\<rparr>) i (Taken p)"
  let ?s7 = "set_worker (?s6\<lparr>sv_queue_depth := sv_queue_depth ?s6 - 1\<rparr>) i (Parsing p)"
  let ?s8 = "set_worker ?s7 i (Handling e)"
  note at = worker_at_def set_worker_def
  have "server_step E s Tau ?s1" by (rule server_step.pass) (use assms in simp_all)
  moreover have "server_step E ?s1 (Recv p) ?s2" by (rule server_step.recv) (use assms in simp_all)
  moreover have "server_step E ?s2 Tau ?s3" by (rule server_step.count_received) simp
  moreover have "server_step E ?s3 (Enqueue p) ?s4" by (rule server_step.enqueue) (use assms in simp_all)
  moreover have "server_step E ?s4 Tau ?s5" by (rule server_step.depth_up) simp
  moreover have "server_step E ?s5 (Take p) ?s6" by (rule server_step.take) (use assms in \<open>simp_all add: at\<close>)
  moreover have "server_step E ?s6 Tau ?s7" by (rule server_step.depth_down) (use assms in \<open>simp add: at\<close>)
  moreover have "server_step E ?s7 Tau ?s8"
    by (rule server_step.parsed [where now = now and p = p]) (use assms in \<open>simp_all add: at\<close>)
  ultimately have "server_run E s [Tau, Recv p, Tau, Enqueue p, Tau, Take p, Tau, Tau] ?s8"
    by (blast intro: run_cons run_nil)
  moreover have "?s8 = set_worker (s\<lparr>sv_stats := bump Received (sv_stats s), sv_queue_depth := sv_queue_depth s\<rparr>) i (Handling e)"
    using assms(1,3) by (simp add: set_worker_def)
  ultimately show ?thesis by metis
qed

text \<open>Two workers, and two copies of one trap.\<close>

definition duo_config :: app_config where
  "duo_config = sample_config\<lparr>ac_server := (ac_server sample_config)\<lparr>sc_worker_count := 2\<rparr>, ac_alarms := [sample_alarm]\<rparr>"

definition duo_engine :: "(string \<times> usm_params) list gosnmp_decoder engine" where
  "duo_engine = New_engine duo_config [sample_target] (Some \<lparr>dec_g = Some None, dec_cfg = Some duo_config\<rparr>) sample_logger None"

definition duo_server :: "(string \<times> usm_params) list server" where
  "duo_server = (New_server (ac_server duo_config) duo_engine sample_logger)\<lparr>sv_workers := [Waiting, Waiting]\<rparr>"

lemma duo_start_run: "start_run (New_server (ac_server duo_config) duo_engine sample_logger) = Inr duo_server"
proof -
  have "ttl_duration 30 = 30000000000" "ttl_duration 60 = 60000000000"
    by (simp_all add: ttl_duration_exact max_ttl_seconds_def)
  then show ?thesis
    by (simp add: start_run_def New_server_def duo_server_def duo_config_def sample_config_def numeral_2_eq_2
        max_chan_size_def max_alloc_def)
qed

lemma duo_parsed: "parse_packet (se_lib sample_senv) duo_engine 5 trap_packet = Inr sample_parsed"
proof -
  have "Decode sample_lib \<lparr>dec_g = Some None, dec_cfg = Some duo_config\<rparr> 5 sample_trap ''10.0.0.1'' 162 = Inr sample_parsed"
    using ParseTrap_sample by (simp add: Decode_def sample_lib_def duo_config_def sample_config_def) (simp add: sample_trap_def)
  moreover have "ip_str [10, 0, 0, 1] = ''10.0.0.1''" by code_simp
  ultimately show ?thesis
    by (simp add: parse_packet_def trap_packet_def Parse_def duo_engine_def New_engine_def sample_senv_def)
qed

lemma duo_raises: "raises sample_env duo_config sample_parsed sample_alarm sample_hash"
proof -
  have f: "ResolveField sample_parsed ''source_ip'' = ''10.0.0.1''" "ResolveField sample_parsed ''trap_oid'' = ''1.3.6.1.4.1.7''"
    by (simp_all add: sample_parsed_def zero_event_def ResolveField_def)
  have "kept sample_env duo_config sample_parsed" 
    by (simp add: kept_def evaluateFilters_def duo_config_def sample_config_def)
  then show ?thesis
    using sample_key [OF f(1)]
    by (simp add: raises_def duo_config_def clear_verdict_def sample_alarm_def Matches_trap_oid sample_plain f matchAlarm_def)
qed

lemma duo_handled:
  assumes "HandleEvent sample_env (\<lambda>_ _. None) (Some st) (start_work (NewStore 2) sample_parsed) = (res1, w1)"
    and "HandleEvent sample_env (\<lambda>_ _. None) (Some st) (start_work (wk_store w1) sample_parsed) = (res2, w2)"
    and "rs_cfg st = duo_config"
  shows "sends (wk_out w2) = []"
proof -
  have raises: "raises sample_env (rs_cfg st) sample_parsed sample_alarm sample_hash" using duo_raises assms(3) by simp
  have h: "handle_one sample_env (\<lambda>_ _. None) st (NewStore 2) sample_parsed = (wk_out w1, wk_store w1)"
    "handle_one sample_env (\<lambda>_ _. None) st (wk_store w1) sample_parsed = (wk_out w2, wk_store w2)"
    by (simp_all add: handle_one_def assms(1,2))
  have none: "windows (NewStore 2) = Map.empty" by (simp add: windows_def lookup_def NewStore_def fun_eq_iff)
  have room: "has_room (NewStore 2)" by (simp add: has_room_def NewStore_def)
  have w: "windows (wk_store w1) = [(al_id sample_alarm, sample_hash) \<mapsto> (5, 60, False)]"
    using handle_one_sim(2) [OF room, of sample_env "\<lambda>_ _. None" st sample_parsed] h(1) spec_step_raises [OF raises] none
    by (simp add: open_window_def sample_parsed_def zero_event_def sample_alarm_def)
  moreover have "store_inv (wk_store w1)" "st_limit (wk_store w1) = 2"
    using HandleEvent_out(3,4) [OF assms(1)] inv_NewStore [of 2] by (simp_all add: NewStore_def)
  ultimately have "has_room (wk_store w1)" using store_card [of "wk_store w1"] by (simp add: has_room_def)
  then show ?thesis
    using handle_one_sim(1) [of sample_env "\<lambda>_ _. None" st "wk_store w1" sample_parsed] h(2) spec_step_raises [OF raises] w
    by (simp add: open_window_def sample_parsed_def zero_event_def sample_ttl)
qed

text \<open>Both copies are taken before either is handled.\<close>

lemma duo_both_hold:
  "\<exists>s. server_run sample_senv duo_server
      (concat (replicate 2 [Tau, Recv trap_packet, Tau, Enqueue trap_packet, Tau, Take trap_packet, Tau, Tau])) s \<and>
    sv_workers s = [Handling sample_parsed, Handling sample_parsed] \<and> sv_engine s = duo_engine"
proof -
  have srv: "sv_engine duo_server = duo_engine" "sv_workers duo_server = [Waiting, Waiting]" "sv_reader duo_server = Polling"
    "\<not> sv_cancelled duo_server" "sv_chan duo_server = []" "sc_max_datagram_size (sv_cfg duo_server) = 8192"
    "sc_queue_size (sv_cfg duo_server) = 8"
    by (simp_all add: duo_server_def New_server_def duo_config_def sample_config_def)
  have size: "length (pk_payload trap_packet) \<le> 8192" by (simp add: trap_packet_def sample_trap_def)
  obtain stats1 depth1 where r1: "server_run sample_senv duo_server
      [Tau, Recv trap_packet, Tau, Enqueue trap_packet, Tau, Take trap_packet, Tau, Tau]
      (set_worker (duo_server\<lparr>sv_stats := stats1, sv_queue_depth := depth1\<rparr>) 0 (Handling sample_parsed))"
      (is "server_run _ _ ?tr1 ?s1")
    using packet_reaches_worker [of duo_server 0 trap_packet sample_senv 5 sample_parsed] duo_parsed srv
    by (auto simp: worker_at_def size)
  obtain stats2 depth2 where r2: "server_run sample_senv ?s1
      [Tau, Recv trap_packet, Tau, Enqueue trap_packet, Tau, Take trap_packet, Tau, Tau]
      (set_worker (?s1\<lparr>sv_stats := stats2, sv_queue_depth := depth2\<rparr>) 1 (Handling sample_parsed))"
      (is "server_run _ _ ?tr2 ?s3")
    using packet_reaches_worker [of ?s1 1 trap_packet sample_senv 5 sample_parsed] duo_parsed srv
    by (auto simp: worker_at_def set_worker_def size)
  have "sv_workers ?s3 = [Handling sample_parsed, Handling sample_parsed]" "sv_engine ?s3 = duo_engine"
    using srv by (simp_all add: set_worker_def)
  with run_append [OF r2 r1] show ?thesis by (intro exI [of _ ?s3]) (simp add: numeral_2_eq_2)
qed

lemma duo_run: "\<exists>tr e s'. server_run sample_senv duo_server (tr @ [Handled e []]) s'"
proof -
  let ?st = "\<lparr>rs_cfg = duo_config, rs_forwarder = [sample_target],
      rs_decoder = Some \<lparr>dec_g = Some None, dec_cfg = Some duo_config\<rparr>, rs_logger = sample_logger, rs_alerts = None\<rparr>
    :: (string \<times> usm_params) list gosnmp_decoder runtime_state"
  have st: "en_state duo_engine = Some ?st" "en_dedup duo_engine = NewStore 2"
    by (simp_all add: duo_engine_def New_engine_def duo_config_def sample_config_def)
  from duo_both_hold obtain tr0 s2 where r2: "server_run sample_senv duo_server tr0 s2"
    and s2: "sv_workers s2 = [Handling sample_parsed, Handling sample_parsed]" "sv_engine s2 = duo_engine" by blast
  obtain res1 w1 where h1: "HandleEvent sample_env (\<lambda>_ _. None) (Some ?st) (start_work (NewStore 2) sample_parsed) = (res1, w1)"
    by fastforce
  obtain res2 w2 where h2: "HandleEvent sample_env (\<lambda>_ _. None) (Some ?st) (start_work (wk_store w1) sample_parsed) = (res2, w2)"
    by fastforce
  have env: "se_match sample_senv = sample_env" by (simp add: sample_senv_def)
  let ?s3 = "moved s2 0 (Counting (result_counters res1)) (wk_store w1)"
  obtain tr1 where r3: "server_run sample_senv s2 (tr1 @ [Handled (wk_event w1) (sends (wk_out w1))]) ?s3"
    using worker_handles [of s2 0 sample_parsed ?st sample_senv None res1 w1] s2 st h1 env by (force simp: worker_at_def)
  have "worker_at ?s3 1 (Handling sample_parsed)" using s2 by (simp add: worker_at_def moved_def set_worker_def)
  moreover have "en_state (sv_engine ?s3) = Some ?st" "en_dedup (sv_engine ?s3) = wk_store w1" using s2 st by simp_all
  ultimately obtain tr2 s4 where "server_run sample_senv ?s3 (tr2 @ [Handled (wk_event w2) []]) s4"
    using worker_handles [of ?s3 1 sample_parsed ?st sample_senv None res2 w2] h2 env duo_handled [OF h1 h2] by force
  from run_append [OF this run_append [OF r3 r2]]
  show ?thesis unfolding append_assoc [symmetric] by blast
qed

lemma suppressed_only_repeats_witness:
  "\<exists>tr e s'. server_run sample_senv duo_server (tr @ [Handled e []]) s' \<and>
     (\<exists>cfg \<in> loaded duo_config tr. unfit sample_env cfg e \<or>
       (\<exists>alarm k x e0. alarm_event sample_env cfg e alarm k \<and> opened_by sample_env duo_config tr k x e0 \<and>
          open_window (ev_received_at e) (Some x) \<and> sent_or_due tr s' e0))"
proof -
  obtain tr e s' where r: "server_run sample_senv duo_server (tr @ [Handled e []]) s'" using duo_run by blast
  have env: "se_match sample_senv = sample_env" by (simp add: sample_senv_def)
  from suppressed_only_repeats [OF duo_start_run [unfolded duo_engine_def] r] r show ?thesis
    unfolding env by blast
qed

text \<open>Two alarms through the two workers, with a store of two entries.\<close>

lemma server_store_bounded_witness:
  "\<exists>tr e s'. server_run sample_senv duo_server (tr @ [Handled e []]) s' \<and>
     int (length (st_states (en_dedup (sv_engine s')))) \<le> 2"
proof -
  obtain tr e s' where r: "server_run sample_senv duo_server (tr @ [Handled e []]) s'" using duo_run by blast
  have two: "sc_max_dedup_entries (ac_server duo_config) = 2" by (simp add: duo_config_def sample_config_def)
  then have "0 < sc_max_dedup_entries (ac_server duo_config)" by simp
  from server_store_bounded [OF duo_start_run [unfolded duo_engine_def] r this] r show ?thesis unfolding two by blast
qed

end
