(* ===== verification/Perf_Load.thy ===== *)
theory Perf_Load
  imports Perf_Codec Relay_Main Suppression "HOL-Library.Signed_Division"
begin

text \<open>
  The rest of \<open>cmd/snmptrap-relay-perf/main.go\<close>: the list of rates, the two traffic profiles with their
  relay configuration and their pools of payloads, the senders of one test step, and the result
  computed from two snapshots of the server's counters. A tick of a sender is one list of results of
  its writes; the connection and the clock are parameters.
\<close>

section \<open>Rates\<close>

text \<open>
  \<open>fmt.Sscanf(s, "%d", &value)\<close>: white space, a sign and digits are consumed, what follows them is
  not looked at.
\<close>

fun take_digits :: "string \<Rightarrow> string" where
  "take_digits [] = []"
| "take_digits (c # s) = (if is_digit c then c # take_digits s else [])"

definition sscanf_int :: "string \<Rightarrow> int res" where
  "sscanf_int s =
     (let t = trim_left s;
          sign = (case t of c # _ \<Rightarrow> if c = CHR ''-'' \<or> c = CHR ''+'' then [c] else [] | [] \<Rightarrow> []);
          digits = take_digits (drop (length sign) t) in
      if t = [] then Inl (EnvError ''unexpected EOF'')
      else if digits = [] then Inl (EnvError ''expected integer'')
      else case parse_int (sign @ digits) of
          (Some e, _) \<Rightarrow> Inl e
        | (None, n) \<Rightarrow> Inr n)"

definition parse_rate :: "string \<Rightarrow> int res" where
  "parse_rate part =
     (case sscanf_int (trim_space part) of
        Inl e \<Rightarrow> Inl (Errorf ''invalid rate %q'' [part])
      | Inr n \<Rightarrow> if n \<le> 0 then Inl (Errorf ''invalid rate %q'' [part]) else Inr n)"

definition parseRates :: "string \<Rightarrow> int list res" where
  "parseRates input = rbind (mapM parse_rate (split_on CHR '','' input)) (\<lambda>rates. Inr (sort rates))"

section \<open>Profiles\<close>

definition alarmTrapOID :: string where
  "alarmTrapOID = ''1.3.6.1.4.1.9999.0.10''"

definition clearTrapOID :: string where
  "clearTrapOID = ''1.3.6.1.4.1.9999.0.11''"

definition dedupConfigForProfile :: "string \<Rightarrow> dedup_config" where
  "dedupConfigForProfile profile =
     (if profile = ''dedup-clear''
      then \<lparr>dd_ttl_seconds = 300, dd_key_fields = [''fields.ifIndex'', ''fields.device_id''], dd_hold_until_clear = True,
            dd_clear = Some \<lparr>dc_match = \<lparr>ms_raw = [(''trap_oid'', YStr clearTrapOID)]\<rparr>,
              dc_key_fields = [''fields.ifIndex'', ''fields.device_id''], dc_varbind_oid = [], dc_regex = []\<rparr>\<rparr>
      else \<lparr>dd_ttl_seconds = 300, dd_key_fields = [''fields.synthetic_unique_id''], dd_hold_until_clear = False,
            dd_clear = None\<rparr>)"

text \<open>The configuration the generator runs the relay with; ports are those the system handed out.\<close>

definition perf_config :: "string \<Rightarrow> int \<Rightarrow> int \<Rightarrow> int \<Rightarrow> int \<Rightarrow> int \<Rightarrow> int \<Rightarrow> app_config" where
  "perf_config profile listen_port forward_port packet_size max_dedup queue_size workers =
     \<lparr>ac_server = \<lparr>sc_host = ''127.0.0.1'', sc_port = listen_port, sc_max_datagram_size = packet_size,
        sc_cleanup_interval_seconds = 30, sc_max_dedup_entries = max_dedup, sc_queue_size = queue_size,
        sc_worker_count = workers, sc_stats_log_interval_secs = 0\<rparr>,
      ac_runtime = \<lparr>rc_memory_limit = []\<rparr>,
      ac_metrics = \<lparr>mc_enabled = False, mc_host = [], mc_port = 0, mc_path = []\<rparr>,
      ac_logging = \<lparr>lc_level = [], lc_format = [], lc_file = [], lc_alerts_file = []\<rparr>,
      ac_receiver = \<lparr>rv_v3_users = []\<rparr>,
      ac_field_aliases = Some [deviceIDOID \<mapsto> ''device_id'', ifIndexOID \<mapsto> ''ifIndex''],
      ac_forwarders = [\<lparr>fc_name = ''perf-target'', fc_host = ''127.0.0.1'', fc_port = forward_port, fc_enabled = True,
        fc_source_host = ''127.0.0.1''\<rparr>],
      ac_filters = \<lparr>fl_default_action = ''keep'', fl_rules = []\<rparr>,
      ac_dedup_defaults = \<lparr>dd_ttl_seconds = 0, dd_key_fields = [], dd_hold_until_clear = False, dd_clear = None\<rparr>,
      ac_alarms = [\<lparr>al_id = ''link_down'', al_match = \<lparr>ms_raw = [(''trap_oid'', YStr alarmTrapOID)]\<rparr>,
        al_dedup = dedupConfigForProfile profile\<rparr>]\<rparr>"

section \<open>Pools of payloads\<close>

text \<open>\<open>%04d\<close> and \<open>%02d\<close> of a natural number.\<close>

definition pad_num :: "nat \<Rightarrow> nat \<Rightarrow> string" where
  "pad_num width n = replicate (width - length (nat_str n)) CHR ''0'' @ nat_str n"

definition check_size :: "int \<Rightarrow> 'a res \<Rightarrow> 'a res" where
  "check_size n m = (if n < 0 then Inl (Panic ''makeslice: cap out of range'') else m)"

definition buildDedupDisabledPayloadPool :: "int \<Rightarrow> bytes list res" where
  "buildDedupDisabledPayloadPool pool_size =
     check_size pool_size
       (mapM (\<lambda>i. buildTrapPayload alarmTrapOID (''device-'' @ pad_num 4 i) (word_of_nat (i + 1)) (word_of_nat (12345 + i)))
         [0..<nat pool_size])"

definition clear_pattern :: "nat \<Rightarrow> bytes list res" where
  "clear_pattern i =
     (let deviceID = ''device-'' @ pad_num 2 i; if_index = word_of_nat (i + 1); time_base = word_of_nat (100000 + i * 10) in
      rbind (buildTrapPayload alarmTrapOID deviceID if_index time_base) (\<lambda>p0.
      rbind (buildTrapPayload alarmTrapOID deviceID if_index (time_base + 1)) (\<lambda>p1.
      rbind (buildTrapPayload clearTrapOID deviceID if_index (time_base + 2)) (\<lambda>p2.
      rbind (buildTrapPayload alarmTrapOID deviceID if_index (time_base + 3)) (\<lambda>p3.
      Inr [p0, p1, p2, p3])))))"

text \<open>\<open>for len(payloads) < size\<close>, with the rounds left to do.\<close>

fun fill_pool :: "bytes list \<Rightarrow> nat \<Rightarrow> bytes list \<Rightarrow> bytes list res" where
  "fill_pool pattern 0 payloads = Inr payloads"
| "fill_pool pattern (Suc k) payloads =
     (if pattern = [] then Inl (Panic ''integer divide by zero'')
      else rbind (index pattern (length payloads mod length pattern)) (\<lambda>p. fill_pool pattern k (payloads @ [p])))"

definition buildDedupClearPayloadPool :: "int \<Rightarrow> int \<Rightarrow> bytes list res" where
  "buildDedupClearPayloadPool pool_size pairCount =
     check_size (sint (word_of_int (pairCount * 4) :: go_int))
       (rbind (mapM clear_pattern [0..<nat pairCount]) (\<lambda>pattern.
          check_size pool_size (fill_pool (concat pattern) (nat pool_size) [])))"

definition buildPayloadPool :: "string \<Rightarrow> int \<Rightarrow> int \<Rightarrow> bytes list res" where
  "buildPayloadPool profile pool_size pairCount =
     (if pairCount \<le> 0 then Inl (Errorf ''pair-count must be positive'' [])
      else if profile = ''dedup-disabled'' then buildDedupDisabledPayloadPool pool_size
      else if profile = ''dedup-clear'' then buildDedupClearPayloadPool pool_size pairCount
      else Inl (Errorf ''unsupported profile %q'' [profile]))"


section \<open>The senders of a step\<close>

text \<open>
  A sender keeps its position in the pool; what it has written is recorded in order, with a count of
  the writes without an error. \<open>ok\<close> says which of its writes succeed.
\<close>

record load_sender =
  sd_index :: nat
  sd_written :: "bytes list"
  sd_sent :: nat

definition send_workers :: nat where
  "send_workers = 4"

definition per_tick :: "int \<Rightarrow> int" where
  "per_tick targetTPS = (let n = targetTPS sdiv 100 in if n = 0 then 1 else n)"

definition send_one :: "(nat \<Rightarrow> bool) \<Rightarrow> bytes list \<Rightarrow> load_sender \<Rightarrow> load_sender res" where
  "send_one ok payloads s =
     (if payloads = [] then Inl (Panic ''integer divide by zero'')
      else rbind (index payloads (sd_index s mod length payloads)) (\<lambda>p.
        Inr \<lparr>sd_index = sd_index s + 1, sd_written = sd_written s @ [p],
             sd_sent = sd_sent s + (if ok (length (sd_written s)) then 1 else 0)\<rparr>))"

text \<open>\<open>for j := offset; j < perTick; j += workers\<close>.\<close>

function tick_round :: "(nat \<Rightarrow> bool) \<Rightarrow> bytes list \<Rightarrow> int \<Rightarrow> int \<Rightarrow> load_sender \<Rightarrow> load_sender res" where
  "tick_round ok payloads perTick j s =
     (if j < perTick
      then case send_one ok payloads s of
          Inl e \<Rightarrow> Inl e
        | Inr s' \<Rightarrow> tick_round ok payloads perTick (j + int send_workers) s'
      else Inr s)"
  by pat_completeness auto
termination
  by (relation "measure (\<lambda>(ok, payloads, perTick, j, s). nat (perTick - j))") (auto simp: send_workers_def)

declare tick_round.simps [simp del]

text \<open>The loop over the ticks of the sender, up to the first after the deadline.\<close>

fun sender_run ::
    "(nat \<Rightarrow> bool) \<Rightarrow> bytes list \<Rightarrow> int \<Rightarrow> nat \<Rightarrow> int \<Rightarrow> int list \<Rightarrow> load_sender \<Rightarrow> load_sender res" where
  "sender_run ok payloads perTick offset deadline [] s = Inr s"
| "sender_run ok payloads perTick offset deadline (now # later) s =
     (if deadline < now then Inr s
      else case tick_round ok payloads perTick (int offset) s of
          Inl e \<Rightarrow> Inl e
        | Inr s' \<Rightarrow> sender_run ok payloads perTick offset deadline later s')"

text \<open>What one sender meets: whether it can connect, its ticks, the fate of its writes.\<close>

record sender_env =
  sx_dial :: bool
  sx_ticks :: "int list"
  sx_ok :: "nat \<Rightarrow> bool"

definition run_sender :: "sender_env \<Rightarrow> bytes list \<Rightarrow> int \<Rightarrow> int \<Rightarrow> nat \<Rightarrow> load_sender res" where
  "run_sender X payloads perTick deadline offset =
     (let s = \<lparr>sd_index = offset, sd_written = [], sd_sent = 0\<rparr> in
      if \<not> sx_dial X then Inr s
      else sender_run (sx_ok X) payloads perTick offset deadline (sx_ticks X) s)"

section \<open>The result of a step\<close>

text \<open>Times are left out; the counters are 64-bit words, and their differences wrap.\<close>

record step_result =
  rs_target_tps :: int
  rs_sent :: "64 word"
  rs_received :: "64 word"
  rs_forwarded :: "64 word"
  rs_queue_dropped :: "64 word"
  rs_parse_failed :: "64 word"
  rs_handle_failed :: "64 word"
  rs_accepted :: "64 word"
  rs_loss_free :: bool
  rs_metrics :: metrics_snapshot

definition counter_diff :: "metrics_snapshot \<Rightarrow> metrics_snapshot \<Rightarrow> counter \<Rightarrow> 64 word" where
  "counter_diff before after c = sn_counters after c - sn_counters before c"

definition step_result_of :: "int \<Rightarrow> 64 word \<Rightarrow> metrics_snapshot \<Rightarrow> metrics_snapshot \<Rightarrow> step_result" where
  "step_result_of targetTPS sent before after =
     (let d = counter_diff before after in
      \<lparr>rs_target_tps = targetTPS, rs_sent = sent, rs_received = d Received, rs_forwarded = d Forwarded,
       rs_queue_dropped = d QueueDropped, rs_parse_failed = d ParseFailed, rs_handle_failed = d HandleFailed,
       rs_accepted = d Accepted, rs_loss_free = (d QueueDropped = 0 \<and> sent \<le> d Received),
       rs_metrics = \<lparr>sn_counters = d, sn_queue_depth = sn_queue_depth after,
         sn_queue_capacity = sn_queue_capacity after, sn_worker_count = sn_worker_count after\<rparr>\<rparr>)"

definition runStep ::
    "(nat \<Rightarrow> sender_env) \<Rightarrow> bytes list \<Rightarrow> int \<Rightarrow> int \<Rightarrow> metrics_snapshot \<Rightarrow> metrics_snapshot \<Rightarrow> step_result res" where
  "runStep X payloads targetTPS deadline before after =
     rbind (mapM (\<lambda>i. run_sender (X i) payloads (per_tick targetTPS) deadline i) [0..<send_workers]) (\<lambda>senders.
       Inr (step_result_of targetTPS (word_of_nat (sum_list (map sd_sent senders))) before after))"

section \<open>Start-up\<close>

record perf_flags =
  pf_rates :: string
  pf_queue_size :: int
  pf_workers :: int
  pf_max_dedup :: int
  pf_packet_size :: int
  pf_profile :: string
  pf_pair_count :: int

text \<open>The port of a socket, as \<open>LocalAddr\<close> reports it.\<close>

definition any_port :: request where
  "any_port = ListenUDP ''udp4'' (Some \<lparr>ua_ip = [0, 0, 0, 0], ua_port = 0, ua_zone = []\<rparr>)"

definition reserveUDPPort :: "os_env \<Rightarrow> (handle \<Rightarrow> int) \<Rightarrow> os \<Rightarrow> int res \<times> os" where
  "reserveUDPPort E port_of w =
     (case sys_open E any_port w of
        (Inl e, w1) \<Rightarrow> (Inl e, w1)
      | (Inr h, w1) \<Rightarrow> (Inr (port_of h), snd (sys_close E h w1)))"

text \<open>The logger writes to \<open>io.Discard\<close>, at the default level.\<close>

definition discard_logger :: logger where
  "discard_logger = \<lparr>lg_format = TextFormat, lg_level = LevelInfo, lg_writer = None\<rparr>"

text \<open>\<open>main\<close> up to the steps: an exit code, or the rates, the payloads and the server.\<close>

datatype 't perf_start = PerfExit int | PerfReady "int list" "bytes list" "'t server"

definition perf_main ::
    "'t main_env \<Rightarrow> (handle \<Rightarrow> int) \<Rightarrow> perf_flags \<Rightarrow> os \<Rightarrow> 't perf_start res \<times> os" where
  "perf_main M port_of flags w =
     (let E = me_os M in
      case parseRates (pf_rates flags) of
        Inl e \<Rightarrow> (Inr (PerfExit 2), w)
      | Inr rates \<Rightarrow>
      (case reserveUDPPort E port_of w of
        (Inl e, w1) \<Rightarrow> (Inr (PerfExit 1), w1)
      | (Inr listen_port, w1) \<Rightarrow>
      (case sys_open E any_port w1 of
        (Inl e, w2) \<Rightarrow> (Inr (PerfExit 1), w2)
      | (Inr listener, w2) \<Rightarrow>
         (let cfg = perf_config (pf_profile flags) listen_port (port_of listener) (pf_packet_size flags)
                (pf_max_dedup flags) (pf_queue_size flags) (pf_workers flags) in
          case NewUDP E (ac_forwarders cfg) w2 of
            (Inl e, w3) \<Rightarrow> (Inr (PerfExit 1), w3)
          | (Inr ts, w3) \<Rightarrow>
          (case New_decoder (me_lib M) cfg of
            Inl e \<Rightarrow> (Inr (PerfExit 1), w3)
          | Inr dec \<Rightarrow>
             (let eng = New_engine cfg ts (Some dec) discard_logger None in
              case New_socket E (ac_server cfg) w3 of
                (Inl e, w4) \<Rightarrow> (Inr (PerfExit 1), w4)
              | (Inr socket, w4) \<Rightarrow>
                 (case start_run (New_server (ac_server cfg) eng discard_logger) of
                    Inl e \<Rightarrow> (Inl e, w4)
                  | Inr srv \<Rightarrow>
                     (case buildPayloadPool (pf_profile flags) 4096 (pf_pair_count flags) of
                        Inl e \<Rightarrow> (if is_panic e then Inl e else Inr (PerfExit 2), w4)
                      | Inr payloads \<Rightarrow> (Inr (PerfReady rates payloads srv), w4)))))))))"

section \<open>The rate of a tick\<close>

text \<open>How many writes a tick makes from offset \<open>j\<close> on.\<close>

definition shots :: "int \<Rightarrow> int \<Rightarrow> nat" where
  "shots perTick j = nat ((perTick - j + 3) div 4)"

lemma shots_simps:
  "j < perTick \<Longrightarrow> shots perTick j = Suc (shots perTick (j + 4))" "\<not> j < perTick \<Longrightarrow> shots perTick j = 0"
proof -
  assume "j < perTick"
  moreover have "(perTick - j + 3) div 4 = (perTick - (j + 4) + 3) div 4 + 1" by simp
  moreover have "0 \<le> (perTick - (j + 4) + 3) div 4" using \<open>j < perTick\<close> by simp
  ultimately show "shots perTick j = Suc (shots perTick (j + 4))" unfolding shots_def by linarith
next
  assume "\<not> j < perTick"
  then have "(perTick - j + 3) div 4 < 1" by simp
  then show "shots perTick j = 0" unfolding shots_def by simp
qed

lemma quarters: "(p + 3) div 4 + (p + 2) div 4 + (p + 1) div 4 + p div 4 = (p :: int)"
proof -
  obtain q r where p: "p = 4 * q + r" and r: "r = 0 \<or> r = 1 \<or> r = 2 \<or> r = 3"
  proof
    show "p = 4 * (p div 4) + p mod 4" by simp
    have "0 \<le> p mod 4" "p mod 4 < 4" by simp_all
    then show "p mod 4 = 0 \<or> p mod 4 = 1 \<or> p mod 4 = 2 \<or> p mod 4 = 3" by linarith
  qed
  have "(4 * q + c) div 4 = q + c div 4" for c :: int by simp
  from this [of r] this [of "r + 1"] this [of "r + 2"] this [of "r + 3"] r show ?thesis
    by (auto simp: p add.assoc)
qed

lemma shots_total: "0 \<le> perTick \<Longrightarrow> sum (\<lambda>i. shots perTick (int i)) {..<send_workers} = nat perTick"
proof -
  assume p: "0 \<le> perTick"
  have s: "int (shots perTick 0) = (perTick + 3) div 4" "int (shots perTick 1) = (perTick + 2) div 4"
    "int (shots perTick 2) = (perTick + 1) div 4" "int (shots perTick 3) = perTick div 4"
    using p by (simp_all add: shots_def add.commute)
  have "{..<send_workers} = {0, 1, 2, 3}" by (auto simp: send_workers_def)
  then have "sum (\<lambda>i. shots perTick (int i)) {..<send_workers} =
      shots perTick 0 + shots perTick 1 + shots perTick 2 + shots perTick 3"
    by simp
  then have "int (sum (\<lambda>i. shots perTick (int i)) {..<send_workers}) = perTick"
    using s quarters [of perTick] by linarith
  then show ?thesis by linarith
qed

text \<open>The next payloads of a sender, round the pool.\<close>

definition next_payloads :: "bytes list \<Rightarrow> load_sender \<Rightarrow> nat \<Rightarrow> bytes list" where
  "next_payloads payloads s n = map (\<lambda>k. payloads ! ((sd_index s + k) mod length payloads)) [0..<n]"

lemma next_payloads_Suc:
  "next_payloads payloads s (Suc n) = payloads ! (sd_index s mod length payloads) # next_payloads payloads (s\<lparr>sd_index := sd_index s + 1\<rparr>) n"
  by (simp add: next_payloads_def upt_conv_Cons map_Suc_upt [symmetric] o_def del: upt_Suc)

lemma send_one_ok:
  "payloads \<noteq> [] \<Longrightarrow> send_one ok payloads s = Inr \<lparr>sd_index = sd_index s + 1,
     sd_written = sd_written s @ [payloads ! (sd_index s mod length payloads)],
     sd_sent = sd_sent s + (if ok (length (sd_written s)) then 1 else 0)\<rparr>"
  by (simp add: send_one_def index_def)

lemma tick_round_exact:
  "payloads \<noteq> [] \<Longrightarrow> \<exists>s'. tick_round ok payloads perTick j s = Inr s' \<and>
     sd_index s' = sd_index s + shots perTick j \<and>
     sd_written s' = sd_written s @ next_payloads payloads s (shots perTick j) \<and>
     sd_sent s' = sd_sent s + length (filter ok [length (sd_written s)..<length (sd_written s')])"
proof (induction ok payloads perTick j s rule: tick_round.induct)
  case (1 ok payloads perTick j s)
  show ?case
  proof (cases "j < perTick")
    case True
    let ?s1 = "\<lparr>sd_index = sd_index s + 1, sd_written = sd_written s @ [payloads ! (sd_index s mod length payloads)],
     sd_sent = sd_sent s + (if ok (length (sd_written s)) then 1 else 0)\<rparr>"
    have one: "send_one ok payloads s = Inr ?s1" by (rule send_one_ok [OF "1.prems"])
    from "1.IH" [OF True one "1.prems"] obtain s' where
      s': "tick_round ok payloads perTick (j + int send_workers) ?s1 = Inr s'"
      "sd_index s' = sd_index ?s1 + shots perTick (j + 4)"
      "sd_written s' = sd_written ?s1 @ next_payloads payloads ?s1 (shots perTick (j + 4))"
      "sd_sent s' = sd_sent ?s1 + length (filter ok [length (sd_written ?s1)..<length (sd_written s')])"
      by (auto simp: send_workers_def)
    have n: "next_payloads payloads ?s1 n = next_payloads payloads (s\<lparr>sd_index := sd_index s + 1\<rparr>) n" for n
      by (simp add: next_payloads_def)
    have "length (sd_written s) < length (sd_written s')" using s'(3) by simp
    then have "[length (sd_written s)..<length (sd_written s')] = length (sd_written s) # [Suc (length (sd_written s))..<length (sd_written s')]"
      by (rule upt_conv_Cons)
    with s' n True one show ?thesis
      by (simp add: tick_round.simps [of ok payloads perTick j s] shots_simps(1) next_payloads_Suc del: upt_Suc)
  next
    case False
    then show ?thesis by (simp add: tick_round.simps [of ok payloads perTick j s] shots_simps(2) next_payloads_def)
  qed
qed

section \<open>Rates are positive and sorted\<close>

lemma take_digits_all: "list_all is_digit (take_digits s)"
  by (induction s) auto

lemma take_digits_prefix: "list_all is_digit ds \<Longrightarrow> s = [] \<or> \<not> is_digit (hd s) \<Longrightarrow> take_digits (ds @ s) = ds"
  by (induction ds) (cases s; simp)+

lemma parse_rate_Inr: "parse_rate part = Inr n \<Longrightarrow> 0 < n \<and> n \<le> max_int64"
proof -
  assume p: "parse_rate part = Inr n"
  then obtain t where t: "parse_int t = (None, n)" "0 < n"
    by (auto simp: parse_rate_def sscanf_int_def Let_def split: sum.splits if_splits option.splits prod.splits)
  then show ?thesis by (auto simp: parse_int_def Let_def max_int64_def min_int64_def split: if_splits)
qed

text \<open>What follows the digits of a rate is ignored.\<close>

lemma sscanf_rate:
  assumes "list_all is_digit ds" "ds \<noteq> []" "rest = [] \<or> \<not> is_digit (hd rest)" "int (digits_val ds) \<le> max_int64"
  shows "sscanf_int (ds @ rest) = Inr (int (digits_val ds))"
proof -
  obtain c s where c: "ds = c # s" "is_digit c" using assms(1,2) by (cases ds) auto
  then have "trim_left (ds @ rest) = ds @ rest"
    using trim_left_solid [OF solid_digit [OF c(2)]] by simp
  moreover have "c \<noteq> CHR ''-''" "c \<noteq> CHR ''+''" using c(2) by (auto simp: is_digit_def)
  ultimately show ?thesis
    using take_digits_prefix [OF assms(1,3)] assms(4) parse_int_digits [OF assms(2,1)] c(1)
    by (simp add: sscanf_int_def Let_def del: take_digits.simps)
qed

lemma parse_rate_rest:
  assumes "0 < n" "int n \<le> max_int64" "rest = [] \<or> \<not> is_digit (hd rest)" "trim_space (nat_str n @ rest) = nat_str n @ rest"
  shows "parse_rate (nat_str n @ rest) = Inr (int n)"
  using sscanf_rate [OF nat_str_digits nat_str_nonempty assms(3), of n] assms by (simp add: parse_rate_def)

section \<open>Counters of a step\<close>

text \<open>No packet is between the socket and the counters.\<close>

definition quiet :: "'t server \<Rightarrow> bool" where
  "quiet s \<longleftrightarrow> in_flight s = 0 \<and> workers_sum (pending Forwarded) s = 0 \<and> workers_sum (pending ForwardFailed) s = 0"

lemma settled_sum_diff: "settled_sum (\<lambda>c. a c - b c) = settled_sum a - settled_sum b"
  by (simp add: settled_sum_def settling_def algebra_simps)

section \<open>Properties\<close>

text \<open>
  C39. The generator keeps the rate it was asked for: with a pool that is not empty and \<open>perTick\<close> writes to be made in a
  tick, not a negative number, its four senders together make exactly that many, each sender the next payloads of
  the pool in order and round it, and each counts exactly its writes that succeeded.
\<close>

theorem tick_writes_target:
  assumes "payloads \<noteq> []" "0 \<le> perTick"
  shows "\<exists>after. (\<forall>i < send_workers. tick_round ok payloads perTick (int i) (before i) = Inr (after i) \<and>
      sd_written (after i) = sd_written (before i) @ next_payloads payloads (before i) (sd_index (after i) - sd_index (before i)) \<and>
      sd_sent (after i) = sd_sent (before i) +
        length (filter ok [length (sd_written (before i))..<length (sd_written (after i))])) \<and>
    sum (\<lambda>i. sd_index (after i) - sd_index (before i)) {..<send_workers} = nat perTick"
proof -
  define after where "after i = projr (tick_round ok payloads perTick (int i) (before i))" for i
  have a: "tick_round ok payloads perTick (int i) (before i) = Inr (after i) \<and>
      sd_index (after i) = sd_index (before i) + shots perTick (int i) \<and>
      sd_written (after i) = sd_written (before i) @ next_payloads payloads (before i) (shots perTick (int i)) \<and>
      sd_sent (after i) = sd_sent (before i) +
        length (filter ok [length (sd_written (before i))..<length (sd_written (after i))])" for i
    using tick_round_exact [OF assms(1), of ok perTick "int i" "before i"] by (auto simp: after_def)
  then have "sum (\<lambda>i. sd_index (after i) - sd_index (before i)) {..<send_workers} = sum (\<lambda>i. shots perTick (int i)) {..<send_workers}"
    by (intro sum.cong) simp_all
  with shots_total [OF assms(2)] a show ?thesis by (intro exI [of _ after]) simp
qed

lemma tick_writes_target_witness:
  "\<exists>after. sum (\<lambda>i. sd_index (after i) - i) {..<send_workers} = 50 \<and>
     tick_round (\<lambda>_. True) [[1], [2]] (per_tick 5000) 1 \<lparr>sd_index = 1, sd_written = [], sd_sent = 0\<rparr> = Inr (after 1)"
proof -
  have "per_tick 5000 = 50" by (simp add: per_tick_def)
  moreover have "(1 :: nat) < send_workers" by (simp add: send_workers_def)
  ultimately show ?thesis
    using tick_writes_target [of "[[1], [2]]" "per_tick 5000" "\<lambda>_. True" "\<lambda>i. \<lparr>sd_index = i, sd_written = [], sd_sent = 0\<rparr>"]
    by fastforce
qed

text \<open>
  C37. The result of a step measures what the relay did: between two quiet states of a running server the
  forwarded count is the number of datagrams the forwarder accepted meanwhile, every datagram received
  was dropped by the queue or settled in one of the seven ways the counters name, and a result called
  loss-free has no queue drop, so that all received datagrams were settled (modulo \<open>2^64\<close>).
\<close>

theorem step_result_measures:
  assumes "started s" "server_run E s tr1 s1" "server_run E s1 tr2 s2" "quiet s1" "quiet s2"
    and "r = step_result_of tps sent (MetricsSnapshot s1) (MetricsSnapshot s2)"
  shows "rs_forwarded r = of_nat (delivered tr2) \<and>
    rs_received r = rs_queue_dropped r + sum_list (map (sn_counters (rs_metrics r)) settling) \<and>
    (rs_loss_free r \<longrightarrow> rs_received r = sum_list (map (sn_counters (rs_metrics r)) settling) \<and> sent \<le> rs_received r)"
proof -
  have inv: "accounted s1" "accounted s2" "tasks_ok s1"
    using run_inv [OF assms(2) started_inv [OF assms(1)]] run_inv [OF run_append [OF assms(3,2)] started_inv [OF assms(1)]]
    by (simp_all add: server_inv_def)
  have fwd: "sv_stats s2 Forwarded = sv_stats s1 Forwarded + of_nat (delivered tr2)"
    using run_metric(1) [OF assms(3) inv(3)] assms(4,5) by (simp add: metric_total_def quiet_def)
  have "sum_list (map (counter_diff (MetricsSnapshot s1) (MetricsSnapshot s2)) settling) =
      settled_sum (sv_stats s2) - settled_sum (sv_stats s1)"
    using settled_sum_diff [of "sv_stats s2" "sv_stats s1"]
    by (simp add: settled_sum_def counter_diff_def MetricsSnapshot_def settling_def)
  with inv(1,2) fwd assms(4,5) show ?thesis
    by (simp add: assms(6) step_result_of_def Let_def counter_diff_def MetricsSnapshot_def accounted_def quiet_def)
       (auto simp: algebra_simps)
qed

text \<open>One trap through the server, from its arrival to the last counter.\<close>

lemma worker_finishes:
  "worker_at s i (Counting cs) \<Longrightarrow>
   \<exists>stats. server_run E s (replicate (Suc (length cs)) Tau) (set_worker (s\<lparr>sv_stats := stats\<rparr>) i Waiting)"
proof (induction cs arbitrary: s)
  case Nil
  from server_step.counted [OF Nil, of E] have "server_run E s [Tau] (set_worker s i Waiting)" by (rule run_one)
  then show ?case by (intro exI [of _ "sv_stats s"]) simp
next
  case (Cons c cs)
  let ?s1 = "set_worker (s\<lparr>sv_stats := bump c (sv_stats s)\<rparr>) i (Counting cs)"
  have "worker_at ?s1 i (Counting cs)" using Cons.prems by (simp add: worker_at_def set_worker_def)
  from Cons.IH [OF this] obtain stats where
    "server_run E ?s1 (replicate (Suc (length cs)) Tau) (set_worker (?s1\<lparr>sv_stats := stats\<rparr>) i Waiting)" by blast
  moreover have "set_worker (?s1\<lparr>sv_stats := stats\<rparr>) i Waiting = set_worker (s\<lparr>sv_stats := stats\<rparr>) i Waiting"
    by (simp add: set_worker_def)
  ultimately have "server_run E ?s1 (replicate (Suc (length cs)) Tau) (set_worker (s\<lparr>sv_stats := stats\<rparr>) i Waiting)" by simp
  with server_step.count [OF Cons.prems, of E]
  have "server_run E s (Tau # replicate (Suc (length cs)) Tau) (set_worker (s\<lparr>sv_stats := stats\<rparr>) i Waiting)" by (rule run_cons)
  then show ?case by (intro exI [of _ stats]) simp
qed

lemma duo_quiet: "quiet duo_server" "started duo_server"
proof -
  show "quiet duo_server" by (simp add: quiet_def in_flight_def workers_sum_def duo_server_def New_server_def)
  show "started duo_server" unfolding started_def using duo_start_run by blast
qed

lemma duo_one_trap: "\<exists>tr s. server_run sample_senv duo_server tr s \<and> quiet s \<and> delivered tr = 1"
proof -
  have srv: "sv_engine duo_server = duo_engine" "sv_workers duo_server = [Waiting, Waiting]" "sv_reader duo_server = Polling"
    "\<not> sv_cancelled duo_server" "sv_chan duo_server = []" "sc_max_datagram_size (sv_cfg duo_server) = 8192"
    "sc_queue_size (sv_cfg duo_server) = 8"
    by (simp_all add: duo_server_def New_server_def duo_config_def sample_config_def)
  have size: "length (pk_payload trap_packet) \<le> 8192" by (simp add: trap_packet_def sample_trap_def)
  obtain stats1 depth1 where r1: "server_run sample_senv duo_server
      [Tau, Recv trap_packet, Tau, Enqueue trap_packet, Tau, Take trap_packet, Tau, Tau]
      (set_worker (duo_server\<lparr>sv_stats := stats1, sv_queue_depth := depth1\<rparr>) 0 (Handling sample_parsed))"
      (is "server_run _ _ ?tr1 ?s1")
    using packet_reaches_worker [of duo_server 0 trap_packet sample_senv 5 sample_parsed] duo_parsed srv
    by (auto simp: worker_at_def size)
  obtain st where st: "en_state duo_engine = Some st" "rs_cfg st = duo_config" "en_dedup duo_engine = NewStore 2"
    by (simp add: duo_engine_def duo_config_def sample_config_def)
  obtain res w where h: "HandleEvent sample_env (\<lambda>_ _. None) (Some st) (start_work (NewStore 2) sample_parsed) = (res, w)"
    by fastforce
  have env: "se_match sample_senv = sample_env" by (simp add: sample_senv_def)
  let ?s2 = "moved ?s1 0 (Counting (result_counters res)) (wk_store w)"
  have "worker_at ?s1 0 (Handling sample_parsed)" "en_state (sv_engine ?s1) = Some st" "en_dedup (sv_engine ?s1) = NewStore 2"
    using srv st by (simp_all add: worker_at_def set_worker_def)
  then obtain tr2 where tr2: "still tr2" and r2: "server_run sample_senv ?s1 (tr2 @ [Handled (wk_event w) (sends (wk_out w))]) ?s2"
    using worker_handles [of ?s1 0 sample_parsed st sample_senv None res w] h env by auto
  have "raises sample_env (rs_cfg st) sample_parsed sample_alarm sample_hash" using duo_raises st(2) by simp
  note spec = spec_step_raises [OF this, of "windows (NewStore 2)"]
  have none: "windows (NewStore 2) = Map.empty" by (simp add: windows_def lookup_def NewStore_def fun_eq_iff)
  have "handle_one sample_env (\<lambda>_ _. None) st (NewStore 2) sample_parsed = (wk_out w, wk_store w)"
    by (simp add: handle_one_def h)
  with spec none have "sends (wk_out w) = [(ev_raw_bytes sample_parsed, None)]"
    using handle_one_sends [of sample_env "\<lambda>_ _. None" st "NewStore 2" sample_parsed] by (simp add: open_window_def)
  note sent = this
  have "worker_at ?s2 0 (Counting (result_counters res))" using srv by (simp add: worker_at_def moved_def set_worker_def)
  from worker_finishes [OF this] obtain stats where
    r3: "server_run sample_senv ?s2 (replicate (Suc (length (result_counters res))) Tau) (set_worker (?s2\<lparr>sv_stats := stats\<rparr>) 0 Waiting)"
      (is "server_run _ _ ?tr3 ?s3") by blast
  have "trace_of sent_of (replicate n Tau) = []" for n by (induction n) (simp_all add: trace_of_def)
  with tr2 have "delivered (?tr1 @ (tr2 @ [Handled (wk_event w) (sends (wk_out w))]) @ ?tr3) = 1"
    unfolding delivered_def trace_of_simps(3) by (simp add: still_def sent) (simp add: trace_of_def)
  moreover have "quiet ?s3"
    using srv by (simp add: quiet_def in_flight_def workers_sum_def moved_def set_worker_def)
  moreover have "server_run sample_senv duo_server (?tr1 @ (tr2 @ [Handled (wk_event w) (sends (wk_out w))]) @ ?tr3) ?s3"
    by (rule run_append [OF run_append [OF r3 r2] r1])
  ultimately show ?thesis by blast
qed

lemma step_result_measures_witness:
  "\<exists>tr s. server_run sample_senv duo_server tr s \<and> delivered tr = 1 \<and>
     rs_forwarded (step_result_of 100 1 (MetricsSnapshot duo_server) (MetricsSnapshot s)) = 1"
proof -
  obtain tr s where r: "server_run sample_senv duo_server tr s" "quiet s" "delivered tr = 1" using duo_one_trap by blast
  from step_result_measures [OF duo_quiet(2) run_nil r(1) duo_quiet(1) r(2) refl] r show ?thesis
    by (intro exI [of _ tr] exI [of _ s]) simp
qed

end
