(* ===== verification/Perf_Traffic.thy ===== *)
theory Perf_Traffic
  imports Perf_Load
begin

text \<open>
  The traffic of the load generator through the parser and the engine: what the two profiles of
  \<open>cmd/snmptrap-relay-perf/main.go\<close> make the relay do, for every pair and whatever the clock. The
  SHA-256 digest is not empty; nothing else is assumed of the library.
\<close>

section \<open>The fields of a payload\<close>

abbreviation perf_aliases :: "(string \<rightharpoonup> string) option" where
  "perf_aliases \<equiv> Some [deviceIDOID \<mapsto> ''device_id'', ifIndexOID \<mapsto> ''ifIndex'']"

lemma perf_oids_plain:
  "plain_oid sysUpTimeOID" "plain_oid snmpTrapOID" "plain_oid deviceIDOID" "plain_oid ifIndexOID"
  "plain_oid alarmTrapOID" "plain_oid clearTrapOID"
  by (simp_all add: plain_oid_def oid_char_def is_digit_def sysUpTimeOID_def snmpTrapOID_def deviceIDOID_def ifIndexOID_def
      alarmTrapOID_def clearTrapOID_def)

lemma perf_lookupAlias:
  "lookupAlias perf_aliases sysUpTimeOID = None" "lookupAlias perf_aliases snmpTrapOID = None"
  "lookupAlias perf_aliases deviceIDOID = Some ''device_id''" "lookupAlias perf_aliases ifIndexOID = Some ''ifIndex''"
  by (simp_all add: lookupAlias_def Lookup_plain perf_oids_plain)
     (simp_all add: sysUpTimeOID_def snmpTrapOID_def deviceIDOID_def ifIndexOID_def)

lemma trap_oid_arcs:
  "alarmTrapOID = oid_text [1, 3, 6, 1, 4, 1, 9999, 0, 10]" "clearTrapOID = oid_text [1, 3, 6, 1, 4, 1, 9999, 0, 11]"
  "encodable [1, 3, 6, 1, 4, 1, 9999, 0, 10]" "encodable [1, 3, 6, 1, 4, 1, 9999, 0, 11]"
  by (simp_all add: alarmTrapOID_def clearTrapOID_def oid_text_def decimal_run digit_literals encodable_def)

definition load_event :: "int \<Rightarrow> bytes \<Rightarrow> string \<Rightarrow> int \<Rightarrow> nat list \<Rightarrow> string \<Rightarrow> go_int \<Rightarrow> go_int \<Rightarrow> trap_event" where
  "load_event now data ip port arcs deviceID if_index uptime =
     payload_event now data ip port perf_aliases arcs deviceID if_index uptime"

lemma load_event_fields:
  assumes "encodable arcs" "0 \<le> sint uptime"
  shows "ResolveField (load_event now data ip port arcs deviceID if_index uptime) ''trap_oid'' = oid_text arcs"
    and "ResolveField (load_event now data ip port arcs deviceID if_index uptime) ''fields.ifIndex'' = int_str (sint if_index)"
    and "ResolveField (load_event now data ip port arcs deviceID if_index uptime) ''fields.device_id'' = deviceID"
    and "ResolveField (load_event now data ip port arcs deviceID if_index uptime) ''fields.synthetic_unique_id'' = []"
proof -
  let ?e = "load_event now data ip port arcs deviceID if_index uptime"
  obtain e0 where e0: "?e = buildFields e0 perf_aliases" "ev_varbinds e0 = payload_varbinds arcs deviceID if_index uptime"
    "ev_trap_oid e0 = oid_text arcs"
    using payload_event_fields [OF assms, of now data ip port perf_aliases deviceID if_index]
    by (auto simp: load_event_def payload_event_def v2_trap_event_def buildFields_def v2_event_def Let_def)
  have oid: "oid_text arcs \<noteq> []" "Normalize (oid_text arcs) = oid_text arcs"
    using assms(1) Normalize_DecodeOID [OF DecodeOID_octets [OF assms(1)]] by (auto simp: oid_text_def encodable_def)
  have fields: "ev_fields ?e = Some (foldl (add_varbind_fields perf_aliases) (event_fields e0) (payload_varbinds arcs deviceID if_index uptime))"
    by (simp add: e0 buildFields_def)
  have trap: "event_fields e0 ''trap_oid'' = Some (oid_text arcs)"
    by (simp add: event_fields_def set_if_def e0(3) oid)
  have none: "event_fields e0 ''fields.synthetic_unique_id'' = None" "event_fields e0 ''synthetic_unique_id'' = None"
    by (simp_all add: event_fields_def set_other header_fields_def)
  have val: "map_get (ev_fields ?e) ''trap_oid'' = Some (oid_text arcs)"
    "map_get (ev_fields ?e) ''fields.ifIndex'' = Some (int_str (sint if_index))"
    "map_get (ev_fields ?e) ''fields.device_id'' = Some deviceID"
    "map_get (ev_fields ?e) ''fields.synthetic_unique_id'' = None" "map_get (ev_fields ?e) ''synthetic_unique_id'' = None"
    by (simp_all add: fields payload_varbinds_def add_varbind_fields_def perf_lookupAlias perf_oids_plain trap none Let_def)
  show "ResolveField ?e ''trap_oid'' = oid_text arcs" "ResolveField ?e ''fields.ifIndex'' = int_str (sint if_index)"
    "ResolveField ?e ''fields.device_id'' = deviceID" "ResolveField ?e ''fields.synthetic_unique_id'' = []"
    by (simp_all add: ResolveField_def val trim_prefix_def)
qed

section \<open>Raising and clearing\<close>

definition load_config_of :: "string \<Rightarrow> app_config \<Rightarrow> bool" where
  "load_config_of profile cfg \<longleftrightarrow>
     (\<exists>listen_port forward_port packet_size max_dedup queue_size workers.
        cfg = perf_config profile listen_port forward_port packet_size max_dedup queue_size workers)"

lemma load_config_simps:
  assumes "load_config_of profile cfg"
  shows "ac_filters cfg = \<lparr>fl_default_action = ''keep'', fl_rules = []\<rparr>" "ac_field_aliases cfg = perf_aliases"
    "ac_alarms cfg = [\<lparr>al_id = ''link_down'', al_match = \<lparr>ms_raw = [(''trap_oid'', YStr alarmTrapOID)]\<rparr>,
       al_dedup = dedupConfigForProfile profile\<rparr>]"
  using assms by (auto simp: load_config_of_def perf_config_def)

lemma load_kept: "load_config_of profile cfg \<Longrightarrow> kept W cfg e"
  by (simp add: kept_def evaluateFilters_def load_config_simps)

text \<open>The key of a pair: its interface index and its device.\<close>

definition pair_hash :: "match_env \<Rightarrow> string \<Rightarrow> go_int \<Rightarrow> string" where
  "pair_hash W deviceID if_index =
     hex_encode (env_sha256 W (bytes_of_str (key_payload
       [(''fields.ifIndex'', int_str (sint if_index)), (''fields.device_id'', deviceID)])))"

definition clear_alarm :: alarm_rule_config where
  "clear_alarm = \<lparr>al_id = ''link_down'', al_match = \<lparr>ms_raw = [(''trap_oid'', YStr alarmTrapOID)]\<rparr>,
     al_dedup = dedupConfigForProfile ''dedup-clear''\<rparr>"

lemma pair_key:
  assumes "encodable arcs" "0 \<le> sint uptime" "deviceID \<noteq> []" "\<And>b. env_sha256 W b \<noteq> []"
  shows "\<exists>key. BuildDedupKey W (load_event now data ip port arcs deviceID if_index uptime)
      [''fields.ifIndex'', ''fields.device_id''] = Inr key \<and> complete_key key \<and> dk_hash key = pair_hash W deviceID if_index"
  using assms(3) hex_encode_nonempty [OF assms(4)]
  by (simp add: BuildDedupKey_eq key_complete_def complete_key_def pair_hash_def load_event_fields [OF assms(1,2)] Let_def)

lemma dedup_clear_simps:
  "dd_key_fields (dedupConfigForProfile ''dedup-clear'') = [''fields.ifIndex'', ''fields.device_id'']"
  "dd_hold_until_clear (dedupConfigForProfile ''dedup-clear'')"
  "dd_clear (dedupConfigForProfile ''dedup-clear'') = Some \<lparr>dc_match = \<lparr>ms_raw = [(''trap_oid'', YStr clearTrapOID)]\<rparr>,
     dc_key_fields = [''fields.ifIndex'', ''fields.device_id''], dc_varbind_oid = [], dc_regex = []\<rparr>"
  by (simp_all add: dedupConfigForProfile_def)

lemma oid_texts_normal: "encodable arcs \<Longrightarrow> Normalize (oid_text arcs) = oid_text arcs"
  by (rule Normalize_DecodeOID [OF DecodeOID_octets])

lemma trap_oids_differ: "alarmTrapOID \<noteq> clearTrapOID"
  by (simp add: alarmTrapOID_def clearTrapOID_def)

abbreviation alarm_arcs :: "nat list" where "alarm_arcs \<equiv> [1, 3, 6, 1, 4, 1, 9999, 0, 10]"

abbreviation clear_arcs :: "nat list" where "clear_arcs \<equiv> [1, 3, 6, 1, 4, 1, 9999, 0, 11]"

lemma load_raises:
  assumes "load_config_of ''dedup-clear'' cfg" "0 \<le> sint uptime" "deviceID \<noteq> []" "\<And>b. env_sha256 W b \<noteq> []"
  shows "raises W cfg (load_event now data ip port alarm_arcs deviceID if_index uptime) clear_alarm (pair_hash W deviceID if_index)"
proof -
  note f = load_event_fields [OF trap_oid_arcs(3) assms(2)] oid_texts_normal [OF trap_oid_arcs(3)]
  show ?thesis
    using pair_key [OF trap_oid_arcs(3) assms(2-4)] load_kept [OF assms(1)] trap_oids_differ
    by (simp add: raises_def load_config_simps [OF assms(1)] clear_verdict_def dedup_clear_simps matchAlarm_def
        Matches_trap_oid perf_oids_plain f clear_alarm_def trap_oid_arcs(1) [symmetric] del: One_nat_def)
qed

lemma load_clears:
  assumes "load_config_of ''dedup-clear'' cfg" "0 \<le> sint uptime" "deviceID \<noteq> []" "\<And>b. env_sha256 W b \<noteq> []"
  shows "spec_step W cfg (load_event now data ip port clear_arcs deviceID if_index uptime) m =
    (True, m((''link_down'', pair_hash W deviceID if_index) := None))"
proof -
  let ?e = "load_event now data ip port clear_arcs deviceID if_index uptime"
  note f = load_event_fields [OF trap_oid_arcs(4) assms(2)] oid_texts_normal [OF trap_oid_arcs(4)]
  obtain key where "BuildDedupKey W ?e [''fields.ifIndex'', ''fields.device_id''] = Inr key" "complete_key key"
    "dk_hash key = pair_hash W deviceID if_index"
    using pair_key [OF trap_oid_arcs(4) assms(2-4)] by blast
  then have "clear_verdict W ?e clear_alarm = (Some True, Some (''link_down'', pair_hash W deviceID if_index))"
    by (simp add: clear_verdict_def clear_alarm_def dedup_clear_simps Matches_trap_oid perf_oids_plain f
        trap_oid_arcs(2) [symmetric] check_clear_regex_def clear_key_fields_def clear_key_event_def dedupKeyTrapOID_def
        del: One_nat_def)
  then show ?thesis
    using load_kept [OF assms(1), of W ?e]
    by (auto simp: spec_step_def kept_def spec_clear_round_def load_config_simps [OF assms(1)] clear_alarm_def)
qed

section \<open>The payloads of a pair\<close>

lemma nat_str_length: "length (nat_str n) \<le> n + 1"
proof (induction n rule: nat_str.induct)
  case (1 n)
  then show ?case by (cases "n < 10") (simp_all add: nat_str.simps [of n])
qed

lemma pad_num_ascii: "list_all is_ascii (pad_num width n)"
proof -
  have "list_all is_ascii (nat_str n)" using nat_str_digits [of n] by (auto simp: list_all_iff digit_ascii)
  then show ?thesis by (auto simp: pad_num_def list_all_iff is_ascii_def)
qed

lemma device_valid: "utf8_valid (''device-'' @ pad_num width n)"
  by (rule utf8_valid_ascii) (simp add: pad_num_ascii, simp add: is_ascii_def)

lemma device_size: "width \<le> 4 \<Longrightarrow> n < 2 ^ 20 \<Longrightarrow> length (''device-'' @ pad_num width n) < 2 ^ 21"
  using nat_str_length [of n] by (simp add: pad_num_def)

lemma pool_integers:
  assumes "n < 2 ^ 62"
  shows "0 \<le> sint (word_of_nat n :: go_int)" "(word_of_nat n :: go_int) \<noteq> -1"
proof -
  show s: "0 \<le> sint (word_of_nat n :: go_int)" using assms sint_of_nat [of n] by simp
  then show "(word_of_nat n :: go_int) \<noteq> -1" by auto
qed

text \<open>A payload of a pool and the event every parser call makes of it.\<close>

lemma pool_payload:
  assumes "encodable arcs" "length arcs = 9" "width \<le> 4" "n < 2 ^ 20" "ix < 2 ^ 62" "up < 2 ^ 62"
  shows "\<exists>data. buildTrapPayload (oid_text arcs) (''device-'' @ pad_num width n) (word_of_nat ix) (word_of_nat up) = Inr data \<and>
    (\<forall>now ip port. ParseTrap now data ip port perf_aliases =
       Inr (load_event now data ip port arcs (''device-'' @ pad_num width n) (word_of_nat ix) (word_of_nat up)))"
proof -
  have size: "9 * length arcs + length (''device-'' @ pad_num width n) < 2 ^ 30"
    using device_size [OF assms(3,4)] assms(2) by simp
  note reads = buildTrapPayload_reads [OF assms(1) device_valid size pool_integers(2) [OF assms(5)] pool_integers(1) [OF assms(6)]]
  obtain data where "buildTrapPayload (oid_text arcs) (''device-'' @ pad_num width n) (word_of_nat ix) (word_of_nat up) = Inr data"
    using reads by blast
  with reads show ?thesis unfolding load_event_def by fastforce
qed

definition device :: "nat \<Rightarrow> nat \<Rightarrow> string" where
  "device width i = ''device-'' @ pad_num width i"

lemma clear_pattern_reads:
  assumes "i < 2 ^ 20"
  shows "\<exists>p0 p1 p2 p3. clear_pattern i = Inr [p0, p1, p2, p3] \<and>
    (\<forall>now ip port. ParseTrap now p0 ip port perf_aliases =
       Inr (load_event now p0 ip port alarm_arcs (device 2 i) (word_of_nat (i + 1)) (word_of_nat (100000 + i * 10)))) \<and>
    (\<forall>now ip port. ParseTrap now p1 ip port perf_aliases =
       Inr (load_event now p1 ip port alarm_arcs (device 2 i) (word_of_nat (i + 1)) (word_of_nat (100001 + i * 10)))) \<and>
    (\<forall>now ip port. ParseTrap now p2 ip port perf_aliases =
       Inr (load_event now p2 ip port clear_arcs (device 2 i) (word_of_nat (i + 1)) (word_of_nat (100002 + i * 10)))) \<and>
    (\<forall>now ip port. ParseTrap now p3 ip port perf_aliases =
       Inr (load_event now p3 ip port alarm_arcs (device 2 i) (word_of_nat (i + 1)) (word_of_nat (100003 + i * 10))))"
proof -
  have b: "i + 1 < 2 ^ 62" "100000 + i * 10 < 2 ^ 62" "100001 + i * 10 < 2 ^ 62" "100002 + i * 10 < 2 ^ 62"
    "100003 + i * 10 < 2 ^ 62" "(2::nat) \<le> 4" "length alarm_arcs = 9" "length clear_arcs = 9"
    using assms by simp_all
  note alarm = pool_payload [OF trap_oid_arcs(3) b(7) b(6) assms b(1)]
  note clear = pool_payload [OF trap_oid_arcs(4) b(8) b(6) assms b(1) b(4)]
  note texts = trap_oid_arcs(1,2) [symmetric]
  have t: "word_of_nat (100000 + i * 10) + 1 = (word_of_nat (100001 + i * 10) :: go_int)"
    "word_of_nat (100000 + i * 10) + 2 = (word_of_nat (100002 + i * 10) :: go_int)"
    "word_of_nat (100000 + i * 10) + 3 = (word_of_nat (100003 + i * 10) :: go_int)"
    by simp_all
  obtain p0 where p0: "buildTrapPayload alarmTrapOID (device 2 i) (word_of_nat (i + 1)) (word_of_nat (100000 + i * 10)) = Inr p0"
    "\<forall>now ip port. ParseTrap now p0 ip port perf_aliases =
       Inr (load_event now p0 ip port alarm_arcs (device 2 i) (word_of_nat (i + 1)) (word_of_nat (100000 + i * 10)))"
    using alarm [OF b(2)] unfolding texts device_def by blast
  obtain p1 where p1: "buildTrapPayload alarmTrapOID (device 2 i) (word_of_nat (i + 1)) (word_of_nat (100001 + i * 10)) = Inr p1"
    "\<forall>now ip port. ParseTrap now p1 ip port perf_aliases =
       Inr (load_event now p1 ip port alarm_arcs (device 2 i) (word_of_nat (i + 1)) (word_of_nat (100001 + i * 10)))"
    using alarm [OF b(3)] unfolding texts device_def by blast
  obtain p2 where p2: "buildTrapPayload clearTrapOID (device 2 i) (word_of_nat (i + 1)) (word_of_nat (100002 + i * 10)) = Inr p2"
    "\<forall>now ip port. ParseTrap now p2 ip port perf_aliases =
       Inr (load_event now p2 ip port clear_arcs (device 2 i) (word_of_nat (i + 1)) (word_of_nat (100002 + i * 10)))"
    using clear unfolding texts device_def by blast
  obtain p3 where p3: "buildTrapPayload alarmTrapOID (device 2 i) (word_of_nat (i + 1)) (word_of_nat (100003 + i * 10)) = Inr p3"
    "\<forall>now ip port. ParseTrap now p3 ip port perf_aliases =
       Inr (load_event now p3 ip port alarm_arcs (device 2 i) (word_of_nat (i + 1)) (word_of_nat (100003 + i * 10)))"
    using alarm [OF b(5)] unfolding texts device_def by blast
  have "clear_pattern i = Inr [p0, p1, p2, p3]"
    unfolding clear_pattern_def Let_def t device_def [symmetric] p0(1) p1(1) p2(1) p3(1) rbind_simps ..
  with p0(2) p1(2) p2(2) p3(2) show ?thesis by blast
qed

text \<open>The four payloads of a pair are alarms but for the third.\<close>

definition pool_event :: "nat \<Rightarrow> nat \<Rightarrow> bytes \<Rightarrow> bool" where
  "pool_event r i p \<longleftrightarrow>
     (\<exists>up. 0 \<le> sint up \<and>
       (\<forall>now ip port. ParseTrap now p ip port perf_aliases =
          Inr (load_event now p ip port (if r = 2 then clear_arcs else alarm_arcs) (device 2 i) (word_of_nat (i + 1)) up)))"

lemma clear_pattern_at:
  assumes "i < 2 ^ 20"
  shows "\<exists>ps. clear_pattern i = Inr ps \<and> length ps = 4 \<and> (\<forall>r < 4. pool_event r i (ps ! r))"
proof -
  obtain p0 p1 p2 p3 where p: "clear_pattern i = Inr [p0, p1, p2, p3]"
    and e: "\<forall>now ip port. ParseTrap now p0 ip port perf_aliases =
       Inr (load_event now p0 ip port alarm_arcs (device 2 i) (word_of_nat (i + 1)) (word_of_nat (100000 + i * 10)))"
      "\<forall>now ip port. ParseTrap now p1 ip port perf_aliases =
       Inr (load_event now p1 ip port alarm_arcs (device 2 i) (word_of_nat (i + 1)) (word_of_nat (100001 + i * 10)))"
      "\<forall>now ip port. ParseTrap now p2 ip port perf_aliases =
       Inr (load_event now p2 ip port clear_arcs (device 2 i) (word_of_nat (i + 1)) (word_of_nat (100002 + i * 10)))"
      "\<forall>now ip port. ParseTrap now p3 ip port perf_aliases =
       Inr (load_event now p3 ip port alarm_arcs (device 2 i) (word_of_nat (i + 1)) (word_of_nat (100003 + i * 10)))"
    using clear_pattern_reads [OF assms] by blast
  have up: "0 \<le> sint (word_of_nat (c + i * 10) :: go_int)" if "c < 2 ^ 20" for c
    using assms that by (intro pool_integers(1)) simp
  have "pool_event 0 i p0" unfolding pool_event_def using e(1) up [of 100000] by (intro exI [of _ "word_of_nat (100000 + i * 10)"]) simp
  moreover have "pool_event 1 i p1" unfolding pool_event_def using e(2) up [of 100001] by (intro exI [of _ "word_of_nat (100001 + i * 10)"]) simp
  moreover have "pool_event 2 i p2" unfolding pool_event_def using e(3) up [of 100002] by (intro exI [of _ "word_of_nat (100002 + i * 10)"]) simp
  moreover have "pool_event 3 i p3" unfolding pool_event_def using e(4) up [of 100003] by (intro exI [of _ "word_of_nat (100003 + i * 10)"]) simp
  moreover have "r = 0 \<or> r = 1 \<or> r = 2 \<or> r = 3" if "r < 4" for r :: nat using that by linarith
  ultimately show ?thesis using p by (intro exI [of _ "[p0, p1, p2, p3]"]) fastforce
qed

section \<open>The pool of the profile with clears\<close>

text \<open>The pool goes round the payloads of the pairs: the pair whose turn it is at position \<open>j\<close>.\<close>

definition pair_at :: "nat \<Rightarrow> nat \<Rightarrow> nat" where
  "pair_at k j = j div 4 mod k"

lemma fill_pool_all:
  "pattern \<noteq> [] \<Longrightarrow> fill_pool pattern n payloads =
     Inr (payloads @ map (\<lambda>j. pattern ! (j mod length pattern)) [length payloads..<length payloads + n])"
proof (induction n arbitrary: payloads)
  case (Suc n)
  have "[length payloads..<length payloads + Suc n] = length payloads # [Suc (length payloads)..<Suc (length payloads) + n]"
    by (simp add: upt_conv_Cons)
  with Suc show ?case by (simp add: index_def del: upt_Suc)
qed simp

lemma concat_nth:
  "\<forall>x \<in> set xss. length x = 4 \<Longrightarrow> j < 4 * length xss \<Longrightarrow> concat xss ! j = xss ! (j div 4) ! (j mod 4)"
proof (induction xss arbitrary: j)
  case (Cons xs xss)
  show ?case
  proof (cases "j < 4")
    case False
    then have "concat xss ! (j - 4) = xss ! ((j - 4) div 4) ! ((j - 4) mod 4)" using Cons by simp
    moreover have "j div 4 = Suc ((j - 4) div 4)" "j mod 4 = (j - 4) mod 4"
      using False by (simp_all add: le_div_geq le_mod_geq)
    ultimately show ?thesis using Cons.prems(1) False by (simp add: nth_append)
  qed (use Cons.prems(1) in \<open>simp add: nth_append\<close>)
qed simp

lemma clear_pool:
  assumes "0 \<le> n" "0 < k" "k \<le> 2 ^ 20"
  shows "\<exists>ps. buildPayloadPool ''dedup-clear'' n k = Inr ps \<and> length ps = nat n \<and>
    (\<forall>j < nat n. pool_event (j mod 4) (pair_at (nat k) j) (ps ! j))"
proof -
  define f where "f i = projr (clear_pattern i)" for i
  have f: "clear_pattern i = Inr (f i) \<and> length (f i) = 4 \<and> (\<forall>r < 4. pool_event r i (f i ! r))" if "i < nat k" for i
  proof -
    have "i < 2 ^ 20" using that assms(3) by auto
    from clear_pattern_at [OF this] show ?thesis by (auto simp: f_def)
  qed
  let ?pat = "concat (map f [0..<nat k])"
  have pat: "mapM clear_pattern [0..<nat k] = Inr (map f [0..<nat k])"
    using f by (simp add: mapM_Inr_iff list_all2_map2 list_all2_same)
  have len: "length ?pat = 4 * nat k"
  proof -
    have "map (\<lambda>i. length (f i)) [0..<nat k] = map (\<lambda>_. 4) [0..<nat k]" using f by (intro map_cong) simp_all
    then have "sum_list (map (\<lambda>i. length (f i)) [0..<nat k]) = sum_list (map (\<lambda>_. 4) [0..<nat k])" by (rule arg_cong)
    then show ?thesis by (simp add: length_concat o_def sum_list_triv)
  qed
  then have nonempty: "?pat \<noteq> []" using assms(2) by (auto simp del: concat_eq_Nil_conv)
  have "word_of_int (k * 4) = (word_of_nat (nat (k * 4)) :: go_int)"
    by (subst of_int_of_nat_eq [symmetric]) (use assms(2) in simp)
  moreover have "nat (k * 4) < 2 ^ 62" using assms(3) by simp
  ultimately have nonneg: "0 \<le> sint (word_of_int (k * 4) :: go_int)" using pool_integers(1) by metis
  let ?ps = "map (\<lambda>j. ?pat ! (j mod length ?pat)) [0..<nat n]"
  have "buildPayloadPool ''dedup-clear'' n k = Inr ?ps"
    using assms(1,2) nonneg pat fill_pool_all [OF nonempty, of "nat n" "[]"]
    by (simp add: buildPayloadPool_def buildDedupClearPayloadPool_def check_size_def)
  moreover have "pool_event (j mod 4) (pair_at (nat k) j) (?ps ! j)" if "j < nat n" for j
  proof -
    have k: "0 < nat k" using assms(2) by simp
    have "j mod (4 * nat k) = 4 * (j div 4 mod nat k) + j mod 4" by (rule mod_mult2_eq)
    then have m: "j mod (4 * nat k) div 4 = pair_at (nat k) j" "j mod (4 * nat k) mod 4 = j mod 4"
      by (simp_all add: pair_at_def)
    have "j mod (4 * nat k) < 4 * length (map f [0..<nat k])" using k by simp
    then have "?pat ! (j mod (4 * nat k)) = map f [0..<nat k] ! pair_at (nat k) j ! (j mod 4)"
      using concat_nth [of "map f [0..<nat k]" "j mod (4 * nat k)"] f m by auto
    moreover have p: "pair_at (nat k) j < nat k" using k by (simp add: pair_at_def)
    ultimately have "?ps ! j = f (pair_at (nat k) j) ! (j mod 4)" using that len by simp
    with f [OF p] show ?thesis by simp
  qed
  ultimately show ?thesis by (intro exI [of _ ?ps]) simp
qed

text \<open>
  What the relay makes of the datagram at position \<open>j\<close>: in each round a pair sends its alarm, the repetition, the
  clear and the alarm again, so that it has a window after the first two and the last. The first alarm of a
  round is therefore sent in the first round only.
\<close>

definition pool_sent :: "nat \<Rightarrow> nat \<Rightarrow> bool" where
  "pool_sent k j \<longleftrightarrow> j mod 4 = 2 \<or> j mod 4 = 3 \<or> j mod 4 = 0 \<and> j < 4 * k"

definition held_at :: "nat \<Rightarrow> nat \<Rightarrow> nat \<Rightarrow> bool" where
  "held_at k j i \<longleftrightarrow> (if j mod 4 \<noteq> 0 \<and> i = pair_at k j then j mod 4 \<noteq> 3 else i < j div 4)"

definition pool_windows :: "(nat \<Rightarrow> cache_key) \<Rightarrow> nat \<Rightarrow> nat \<Rightarrow> (cache_key \<rightharpoonup> window) \<Rightarrow> bool" where
  "pool_windows K k j m \<longleftrightarrow>
     dom m \<subseteq> K ` {..<k} \<and> (\<forall>i < k. (m (K i) \<noteq> None) = held_at k j i) \<and> (\<forall>key w. m key = Some w \<longrightarrow> snd (snd w))"

text \<open>The abstract step of a datagram of the pool.\<close>

definition pool_step :: "match_env \<Rightarrow> app_config \<Rightarrow> cache_key \<Rightarrow> nat \<Rightarrow> trap_event \<Rightarrow> bool" where
  "pool_step W cfg key r e \<longleftrightarrow>
     (\<forall>m. spec_step W cfg e m =
        (if r = 2 then (True, m(key := None))
         else if open_window (ev_received_at e) (m key) then (False, m)
         else (True, m(key \<mapsto> (ev_received_at e, 300, True)))))"

lemma pool_event_step:
  assumes "pool_event r i p" "ParseTrap now p ip port perf_aliases = Inr e" "load_config_of ''dedup-clear'' cfg"
    and "\<And>b. env_sha256 W b \<noteq> []"
  shows "pool_step W cfg (''link_down'', pair_hash W (device 2 i) (word_of_nat (i + 1))) r e"
proof -
  obtain up where up: "0 \<le> sint up"
    "e = load_event now p ip port (if r = 2 then clear_arcs else alarm_arcs) (device 2 i) (word_of_nat (i + 1)) up"
    using assms(1,2) by (auto simp: pool_event_def)
  have dev: "device 2 i \<noteq> []" by (simp add: device_def)
  have alarm: "al_id clear_alarm = ''link_down''" "dd_hold_until_clear (al_dedup clear_alarm)" "dd_ttl_seconds (al_dedup clear_alarm) = 300"
    by (simp_all add: clear_alarm_def dedupConfigForProfile_def)
  show ?thesis
    using load_clears [OF assms(3) up(1) dev assms(4)] spec_step_raises [OF load_raises [OF assms(3) up(1) dev assms(4)]] alarm up(2)
    by (simp add: pool_step_def)
qed

lemma pool_windows_step:
  assumes m: "pool_windows K k j m" and inj: "inj_on K {..<k}" and k: "0 < k"
    and step: "pool_step W cfg (K (pair_at k j)) (j mod 4) e"
  shows "fst (spec_step W cfg e m) = pool_sent k j" "pool_windows K k (Suc j) (snd (spec_step W cfg e m))"
proof -
  let ?g = "j div 4" and ?i = "pair_at k j"
  have i: "?i < k" using k by (simp add: pair_at_def)
  have other: "K i' = K ?i \<longleftrightarrow> i' = ?i" if "i' < k" for i' using inj that i by (auto dest: inj_onD)
  have win: "open_window now (m (K ?i)) = held_at k j ?i" for now
  proof -
    have "(m (K ?i) \<noteq> None) = held_at k j ?i" "m (K ?i) = Some w \<Longrightarrow> snd (snd w)" for w
      using m i unfolding pool_windows_def by blast+
    then show ?thesis by (cases "m (K ?i)") (auto simp: open_window_def)
  qed
  have first: "?i < ?g \<longleftrightarrow> \<not> j < 4 * k"
    using k by (cases "?g < k") (auto simp: pair_at_def not_less intro: less_le_trans [OF mod_less_divisor])
  have again: "i' < Suc ?g \<longleftrightarrow> i' = ?i \<or> i' < ?g" if "i' < k" for i'
    using that by (auto simp: pair_at_def less_Suc_eq) (metis mod_less_eq_dividend le_neq_implies_less)
  have suc: "j mod 4 \<noteq> 3 \<Longrightarrow> Suc j mod 4 = Suc (j mod 4) \<and> Suc j div 4 = ?g \<and> pair_at k (Suc j) = ?i"
    "j mod 4 = 3 \<Longrightarrow> Suc j mod 4 = 0 \<and> Suc j div 4 = Suc ?g"
    by (auto simp: mod_Suc div_Suc pair_at_def)
  have r: "j mod 4 = 0 \<or> j mod 4 = 1 \<or> j mod 4 = 2 \<or> j mod 4 = 3"
    using mod_less_divisor [of 4 j] by linarith
  have s: "spec_step W cfg e m = (if j mod 4 = 2 then (True, m(K ?i := None))
      else if held_at k j ?i then (False, m) else (True, m(K ?i \<mapsto> (ev_received_at e, 300, True))))"
    using step by (simp add: pool_step_def win)
  have d: "dom m \<subseteq> K ` {..<k}" "\<forall>i' < k. (m (K i') \<noteq> None) = held_at k j i'" "\<forall>key w. m key = Some w \<longrightarrow> snd (snd w)"
    using m unfolding pool_windows_def by blast+
  show "fst (spec_step W cfg e m) = pool_sent k j"
    using r first by (auto simp: s pool_sent_def held_at_def)
  have "dom (snd (spec_step W cfg e m)) \<subseteq> K ` {..<k}" using d(1) i by (auto simp: s)
  moreover have "snd (spec_step W cfg e m) key = Some w \<Longrightarrow> m key = Some w \<or> w = (ev_received_at e, 300, True)" for key w
    by (simp add: s split: if_splits)
  then have "\<forall>key w. snd (spec_step W cfg e m) key = Some w \<longrightarrow> snd (snd w)" using d(3) by (metis snd_conv)
  moreover have "(snd (spec_step W cfg e m) (K i') \<noteq> None) = held_at k (Suc j) i'" if i': "i' < k" for i'
  proof -
    have h: "(m (K i') \<noteq> None) = held_at k j i'" using d(2) i' by blast
    have "(snd (spec_step W cfg e m) (K i') \<noteq> None) = (if i' = ?i then j mod 4 \<noteq> 2 else held_at k j i')"
      using h other [OF i'] by (auto simp: s)
    also have "\<dots> = held_at k (Suc j) i'"
      using r suc again [OF i'] by (auto simp: held_at_def)
    finally show ?thesis .
  qed
  ultimately show "pool_windows K k (Suc j) (snd (spec_step W cfg e m))" by (simp add: pool_windows_def)
qed

text \<open>The store has room all along, for it never has more entries than there are pairs.\<close>

lemma pool_room:
  assumes "pool_windows K k j (windows s)" "store_inv s" "st_limit s \<le> 0 \<or> int k < st_limit s"
  shows "has_room s"
proof -
  have "card (dom (windows s)) \<le> card (K ` {..<k})"
    using assms(1) by (intro card_mono) (simp_all add: pool_windows_def)
  also have "\<dots> \<le> k" using card_image_le [of "{..<k}" K] by simp
  finally show ?thesis using store_card [OF assms(2)] assms(3) by (auto simp: has_room_def)
qed

lemma pool_run:
  assumes "inj_on K {..<k}" "0 < k"
  shows "pool_windows K k j (windows s) \<Longrightarrow> store_inv s \<Longrightarrow> st_limit s \<le> 0 \<or> int k < st_limit s \<Longrightarrow>
    \<forall>i < length es. pool_step W (rs_cfg st) (K (pair_at k (j + i))) ((j + i) mod 4) (es ! i) \<Longrightarrow>
    map (\<lambda>out. sends out \<noteq> []) (fst (handle_all W send st s es)) = map (pool_sent k) [j..<j + length es]"
proof (induction es arbitrary: j s)
  case (Cons e es)
  obtain res w where h: "HandleEvent W send (Some st) (start_work s e) = (res, w)" by fastforce
  have one: "handle_one W send st s e = (wk_out w, wk_store w)" by (simp add: handle_one_def h)
  have step: "pool_step W (rs_cfg st) (K (pair_at k j)) (j mod 4) e" using Cons.prems(4) by fastforce
  note next_windows = pool_windows_step [OF Cons.prems(1) assms step]
  have out: "sends (wk_out w) \<noteq> [] \<longleftrightarrow> pool_sent k j"
    using handle_one_sends [of W send st s e] next_windows(1) by (simp add: one)
  have "windows (wk_store w) = snd (spec_step W (rs_cfg st) e (windows s))"
    using handle_one_windows [OF pool_room [OF Cons.prems(1-3)], of W send st e] by (simp add: one)
  with next_windows(2) have m: "pool_windows K k (Suc j) (windows (wk_store w))" by simp
  have rest: "\<forall>i < length es. pool_step W (rs_cfg st) (K (pair_at k (Suc j + i))) ((Suc j + i) mod 4) (es ! i)"
    using Cons.prems(4) by fastforce
  from Cons.IH [OF m _ _ rest] HandleEvent_out(3,4) [OF h] Cons.prems(2,3)
  have "map (\<lambda>out. sends out \<noteq> []) (fst (handle_all W send st (wk_store w) es)) = map (pool_sent k) [Suc j..<Suc j + length es]"
    by simp
  with out show ?case by (simp add: h split_beta upt_conv_Cons del: upt_Suc)
qed simp

text \<open>Datagrams that can be parsed have their events.\<close>

lemma parsed_events:
  assumes "\<forall>p \<in> set ps. \<forall>t ip port. \<exists>e. ParseTrap t p ip port A = Inr e"
  shows "\<exists>es. list_all2 (\<lambda>p e. \<exists>t ip port. ParseTrap t p ip port A = Inr e) ps es"
proof -
  have "list_all2 (\<lambda>p e. \<exists>t ip port. ParseTrap t p ip port A = Inr e) ps (map (\<lambda>p. projr (ParseTrap 0 p [] 0 A)) ps)"
    unfolding list_all2_map2 by (rule list.rel_refl_strong) (use assms in \<open>metis sum.sel(2)\<close>)
  then show ?thesis by blast
qed

section \<open>The profile without deduplication\<close>

lemma unique_step:
  assumes cfg: "load_config_of ''dedup-disabled'' cfg" and up: "0 \<le> sint uptime"
  shows "spec_step W cfg (load_event now data ip port alarm_arcs dev ix uptime) m = (True, m)"
proof -
  let ?e = "load_event now data ip port alarm_arcs dev ix uptime"
  note f = load_event_fields [OF trap_oid_arcs(3) up] oid_texts_normal [OF trap_oid_arcs(3)]
  have "\<not> key_complete ?e [''fields.synthetic_unique_id'']" by (simp add: key_complete_def f del: One_nat_def)
  then have key: "BuildDedupKey W ?e [''fields.synthetic_unique_id''] =
      Inr \<lparr>dk_hash = [], dk_repr = [], dk_missing_fields = [''fields.synthetic_unique_id'']\<rparr>"
    by (simp add: BuildDedupKey_eq f del: One_nat_def)
  have "dd_clear (dedupConfigForProfile ''dedup-disabled'') = None"
    "dd_key_fields (dedupConfigForProfile ''dedup-disabled'') = [''fields.synthetic_unique_id'']"
    by (simp_all add: dedupConfigForProfile_def)
  with key load_kept [OF cfg, of W ?e] show ?thesis
    by (auto simp: spec_step_def kept_def load_config_simps [OF cfg] spec_clear_round_def clear_verdict_def matchAlarm_def
        Matches_trap_oid perf_oids_plain f trap_oid_arcs(1) [symmetric] spec_alarm_def complete_key_def simp del: One_nat_def)
qed

text \<open>Events that raise no window keep the store empty and are all sent.\<close>

lemma all_forwarded:
  assumes "\<forall>e \<in> set es. \<forall>m. spec_step W (rs_cfg st) e m = (True, m)" "store_inv s" "windows s = Map.empty"
  shows "map sends (fst (handle_all W send st s es)) = map (\<lambda>e. [(ev_raw_bytes e, send (rs_forwarder st) (ev_raw_bytes e))]) es"
  using assms
proof (induction es arbitrary: s)
  case (Cons e es)
  obtain res w where h: "HandleEvent W send (Some st) (start_work s e) = (res, w)" by fastforce
  have one: "handle_one W send st s e = (wk_out w, wk_store w)" by (simp add: handle_one_def h)
  have "st_states s = []" using store_card [OF Cons.prems(2)] Cons.prems(3) by simp
  then have room: "has_room s" by (auto simp: has_room_def)
  from handle_one_sends [of W send st s e] handle_one_windows [OF room, of W send st e] Cons.prems(1,3)
  have "sends (wk_out w) = [(ev_raw_bytes e, send (rs_forwarder st) (ev_raw_bytes e))]" "windows (wk_store w) = Map.empty"
    by (simp_all add: one)
  moreover from Cons.IH [of "wk_store w"] this(2) Cons.prems HandleEvent_out(3) [OF h]
  have "map sends (fst (handle_all W send st (wk_store w) es)) = map (\<lambda>e. [(ev_raw_bytes e, send (rs_forwarder st) (ev_raw_bytes e))]) es"
    by simp
  ultimately show ?case by (simp add: h split_beta)
qed simp

lemma unique_pool:
  assumes "0 \<le> n" "n \<le> 2 ^ 20"
  shows "\<exists>ps. buildDedupDisabledPayloadPool n = Inr ps \<and> length ps = nat n \<and>
    (\<forall>p \<in> set ps. \<exists>dev ix up. 0 \<le> sint up \<and>
       (\<forall>now ip port. ParseTrap now p ip port perf_aliases = Inr (load_event now p ip port alarm_arcs dev ix up)))"
proof -
  have one: "\<exists>p. buildTrapPayload alarmTrapOID (''device-'' @ pad_num 4 i) (word_of_nat (i + 1)) (word_of_nat (12345 + i)) = Inr p \<and>
      (\<exists>dev ix up. 0 \<le> sint up \<and>
       (\<forall>now ip port. ParseTrap now p ip port perf_aliases = Inr (load_event now p ip port alarm_arcs dev ix up)))"
    if "i < nat n" for i
  proof -
    have "i < 2 ^ 20" using that assms by auto
    then have b: "i < 2 ^ 20" "i + 1 < 2 ^ 62" "12345 + i < 2 ^ 62" by simp_all
    from pool_payload [OF trap_oid_arcs(3) _ _ b] pool_integers(1) [OF b(3)] show ?thesis
      unfolding trap_oid_arcs(1) [symmetric] by fastforce
  qed
  define f where "f i = (SOME p. buildTrapPayload alarmTrapOID (''device-'' @ pad_num 4 i) (word_of_nat (i + 1)) (word_of_nat (12345 + i)) = Inr p \<and>
      (\<exists>dev ix up. 0 \<le> sint up \<and>
       (\<forall>now ip port. ParseTrap now p ip port perf_aliases = Inr (load_event now p ip port alarm_arcs dev ix up))))" for i
  have f: "buildTrapPayload alarmTrapOID (''device-'' @ pad_num 4 i) (word_of_nat (i + 1)) (word_of_nat (12345 + i)) = Inr (f i) \<and>
      (\<exists>dev ix up. 0 \<le> sint up \<and>
       (\<forall>now ip port. ParseTrap now (f i) ip port perf_aliases = Inr (load_event now (f i) ip port alarm_arcs dev ix up)))"
    if "i < nat n" for i
    unfolding f_def using someI_ex [OF one [OF that]] .
  have "buildDedupDisabledPayloadPool n = Inr (map f [0..<nat n])"
    unfolding buildDedupDisabledPayloadPool_def check_size_def using assms f
    by (simp add: mapM_Inr_iff list_all2_map2 list_all2_same)
  with f show ?thesis by (intro exI [of _ "map f [0..<nat n]"]) auto
qed

section \<open>Properties\<close>

text \<open>
  C22. The profile dedup-clear exercises the relay round after round: its pool can be built in every size for up to
  a million pairs and every datagram in it parses. When the pool is handled in its order, from an empty store with room
  for more entries than there are pairs, and the dedup keys of the pairs have digests that are not empty and all
  different, then in its first round a pair has its alarm sent, the repetition suppressed, the clear and the next alarm
  sent; in each later round the first alarm is suppressed as well, by the window that the round before has left.
\<close>

theorem clear_profile_cycle:
  assumes "load_config_of ''dedup-clear'' (rs_cfg st)" "0 \<le> n" "0 < k" "k \<le> 2 ^ 20" "limit \<le> 0 \<or> k < limit"
    and "\<And>b. env_sha256 W b \<noteq> []" "inj_on (\<lambda>i. pair_hash W (device 2 i) (word_of_nat (i + 1))) {..<nat k}"
  shows "\<exists>ps. buildPayloadPool ''dedup-clear'' n k = Inr ps \<and> length ps = nat n \<and>
    (\<forall>p \<in> set ps. \<forall>t ip port. \<exists>e. ParseTrap t p ip port (ac_field_aliases (rs_cfg st)) = Inr e) \<and>
    (\<forall>es. list_all2 (\<lambda>p e. \<exists>t ip port. ParseTrap t p ip port (ac_field_aliases (rs_cfg st)) = Inr e) ps es \<longrightarrow>
       map (\<lambda>out. sends out \<noteq> []) (fst (handle_all W send st (NewStore limit) es)) =
         map (\<lambda>j. j mod 4 = 2 \<or> j mod 4 = 3 \<or> j mod 4 = 0 \<and> j < 4 * nat k) [0..<nat n])"
proof -
  obtain ps where ps: "buildPayloadPool ''dedup-clear'' n k = Inr ps" "length ps = nat n"
    and ev: "\<forall>j < nat n. pool_event (j mod 4) (pair_at (nat k) j) (ps ! j)"
    using clear_pool [OF assms(2-4)] by blast
  have "\<exists>e. ParseTrap t p ip port perf_aliases = Inr e" if "p \<in> set ps" for p t ip port
    using that ev ps(2) by (auto simp: in_set_conv_nth pool_event_def)
  moreover have "map (\<lambda>out. sends out \<noteq> []) (fst (handle_all W send st (NewStore limit) es)) = map (pool_sent (nat k)) [0..<nat n]"
    if es: "list_all2 (\<lambda>p e. \<exists>t ip port. ParseTrap t p ip port perf_aliases = Inr e) ps es" for es
  proof -
    let ?K = "\<lambda>i. (''link_down'', pair_hash W (device 2 i) (word_of_nat (i + 1)))"
    have "\<forall>j < length es. pool_step W (rs_cfg st) (?K (pair_at (nat k) (0 + j))) ((0 + j) mod 4) (es ! j)"
      using es ev ps(2) pool_event_step [OF _ _ assms(1,6)] by (fastforce simp: list_all2_conv_all_nth)
    moreover have "inj_on ?K {..<nat k}" using assms(7) by (auto simp: inj_on_def)
    moreover have "windows (NewStore limit) = Map.empty" by (simp add: windows_def lookup_def NewStore_def fun_eq_iff)
    then have "pool_windows ?K (nat k) 0 (windows (NewStore limit))" by (simp add: pool_windows_def held_at_def)
    ultimately show ?thesis
      using pool_run [of ?K "nat k" 0 "NewStore limit" es W st send] inv_NewStore [of limit] assms(3,5) list_all2_lengthD [OF es] ps(2)
      by (simp add: NewStore_def)
  qed
  moreover have "pool_sent (nat k) = (\<lambda>j. j mod 4 = 2 \<or> j mod 4 = 3 \<or> j mod 4 = 0 \<and> j < 4 * nat k)"
    by (simp add: fun_eq_iff pool_sent_def)
  ultimately show ?thesis using ps unfolding load_config_simps(2) [OF assms(1)] by (intro exI [of _ ps]) simp
qed

text \<open>A digest that is never empty, and the relay under the generator's configuration.\<close>

definition digest_env :: match_env where
  "digest_env = sample_env\<lparr>env_sha256 := (\<lambda>bs. 1 # bs)\<rparr>"

definition perf_rs :: "string \<Rightarrow> nat runtime_state" where
  "perf_rs profile = \<lparr>rs_cfg = perf_config profile 1162 1163 8192 10000 4096 2, rs_forwarder = [sample_target],
     rs_decoder = None, rs_logger = discard_logger, rs_alerts = None\<rparr>"

lemma perf_rs_config: "load_config_of profile (rs_cfg (perf_rs profile))"
  unfolding load_config_of_def perf_rs_def runtime_state.simps by (intro exI) (rule refl)

lemma digest_nonempty: "env_sha256 digest_env b \<noteq> []"
  by (simp add: digest_env_def)

lemma digest_inj: "inj_on (\<lambda>i. pair_hash digest_env (device 2 i) (word_of_nat (i + 1))) {..<nat 1}"
  by (simp add: inj_on_def)

lemma clear_profile_cycle_witness:
  "\<exists>ps es. buildPayloadPool ''dedup-clear'' 8 1 = Inr ps \<and> length es = 8 \<and>
     map (\<lambda>out. sends out \<noteq> []) (fst (handle_all digest_env (\<lambda>_ _. None) (perf_rs ''dedup-clear'') (NewStore 10000) es)) =
       [True, False, True, True, False, False, True, True]"
proof -
  let ?A = "ac_field_aliases (rs_cfg (perf_rs ''dedup-clear''))"
  have small: "(0 :: int) \<le> 8" "(0 :: int) < 1" "(1 :: int) \<le> 2 ^ 20" "(10000 :: int) \<le> 0 \<or> (1 :: int) < 10000" by simp_all
  obtain ps where ps: "buildPayloadPool ''dedup-clear'' 8 1 = Inr ps" "length ps = nat 8"
    "\<forall>p \<in> set ps. \<forall>t ip port. \<exists>e. ParseTrap t p ip port ?A = Inr e"
    and run: "\<And>es. list_all2 (\<lambda>p e. \<exists>t ip port. ParseTrap t p ip port ?A = Inr e) ps es \<Longrightarrow>
       map (\<lambda>out. sends out \<noteq> []) (fst (handle_all digest_env (\<lambda>_ _. None) (perf_rs ''dedup-clear'') (NewStore 10000) es)) =
         map (\<lambda>j. j mod 4 = 2 \<or> j mod 4 = 3 \<or> j mod 4 = 0 \<and> j < 4 * nat 1) [0..<nat 8]"
    using clear_profile_cycle [OF perf_rs_config small digest_nonempty digest_inj, of "\<lambda>_ _. None"] by blast
  obtain es where es: "list_all2 (\<lambda>p e. \<exists>t ip port. ParseTrap t p ip port ?A = Inr e) ps es"
    using parsed_events [OF ps(3)] by blast
  have "[0..<nat 8] = [0, 1, 2, 3, 4, 5, 6, 7]" by (simp add: upt_conv_Cons)
  with run [OF es] list_all2_lengthD [OF es] ps(1,2) show ?thesis by (intro exI [of _ ps] exI [of _ es]) simp
qed

text \<open>
  C38. The profile dedup-disabled measures throughput as meant: its pool has the requested number of
  datagrams, every one of them parses, and whatever their arrival times and sources the engine sends every one of
  them, unchanged and once, since their dedup key has no value.
\<close>

theorem unique_profile_forwards:
  assumes "load_config_of ''dedup-disabled'' (rs_cfg st)" "0 \<le> n" "n \<le> 2 ^ 20"
  shows "\<exists>ps. buildDedupDisabledPayloadPool n = Inr ps \<and> length ps = nat n \<and>
    (\<forall>p \<in> set ps. \<forall>t ip port. \<exists>e. ParseTrap t p ip port (ac_field_aliases (rs_cfg st)) = Inr e) \<and>
    (\<forall>es. list_all2 (\<lambda>p e. \<exists>t ip port. ParseTrap t p ip port (ac_field_aliases (rs_cfg st)) = Inr e) ps es \<longrightarrow>
       map sends (fst (handle_all W send st (NewStore limit) es)) = map (\<lambda>p. [(p, send (rs_forwarder st) p)]) ps)"
proof -
  obtain ps where ps: "buildDedupDisabledPayloadPool n = Inr ps" "length ps = nat n"
    and reads: "\<forall>p \<in> set ps. \<exists>dev ix up. 0 \<le> sint up \<and>
       (\<forall>now ip port. ParseTrap now p ip port perf_aliases = Inr (load_event now p ip port alarm_arcs dev ix up))"
    using unique_pool [OF assms(2,3)] by blast
  have "map sends (fst (handle_all W send st (NewStore limit) es)) = map (\<lambda>p. [(p, send (rs_forwarder st) p)]) ps"
    if es: "list_all2 (\<lambda>p e. \<exists>t ip port. ParseTrap t p ip port perf_aliases = Inr e) ps es" for es
  proof -
    have raw: "list_all2 (\<lambda>p e. ev_raw_bytes e = p \<and> (\<forall>m. spec_step W (rs_cfg st) e m = (True, m))) ps es"
    proof (rule list.rel_mono_strong [OF es])
      fix p e assume p: "p \<in> set ps" and "\<exists>t ip port. ParseTrap t p ip port perf_aliases = Inr e"
      then obtain t ip port where e: "ParseTrap t p ip port perf_aliases = Inr e" by blast
      then obtain dev ix up where u: "0 \<le> sint up" "e = load_event t p ip port alarm_arcs dev ix up"
        using bspec [OF reads p] by auto
      moreover have "ev_raw_bytes e = p" using ParseTrap_datagram [OF e] by (simp add: event_of_datagram_def)
      ultimately show "ev_raw_bytes e = p \<and> (\<forall>m. spec_step W (rs_cfg st) e m = (True, m))"
        using unique_step [OF assms(1) u(1)] by blast
    qed
    then have step: "\<forall>e \<in> set es. \<forall>m. spec_step W (rs_cfg st) e m = (True, m)"
      by (induction rule: list_all2_induct) simp_all
    have "windows (NewStore limit) = Map.empty" by (simp add: windows_def lookup_def NewStore_def fun_eq_iff)
    note sent = all_forwarded [OF step inv_NewStore this, of send]
    have "map (\<lambda>e. [(ev_raw_bytes e, send (rs_forwarder st) (ev_raw_bytes e))]) es = map (\<lambda>p. [(p, send (rs_forwarder st) p)]) ps"
      using raw by (induction rule: list_all2_induct) auto
    with sent show ?thesis by (simp only:)
  qed
  with ps reads show ?thesis unfolding load_config_simps(2) [OF assms(1)] by (intro exI [of _ ps]) blast
qed

lemma unique_profile_forwards_witness:
  "\<exists>ps es. buildDedupDisabledPayloadPool 4096 = Inr ps \<and> length ps = 4096 \<and> length es = 4096 \<and>
     map sends (fst (handle_all digest_env (\<lambda>_ _. None) (perf_rs ''dedup-disabled'') (NewStore 10000) es)) =
       map (\<lambda>p. [(p, None)]) ps"
proof -
  let ?A = "ac_field_aliases (rs_cfg (perf_rs ''dedup-disabled''))"
  obtain ps where ps: "buildDedupDisabledPayloadPool 4096 = Inr ps" "length ps = nat 4096"
    "\<forall>p \<in> set ps. \<forall>t ip port. \<exists>e. ParseTrap t p ip port ?A = Inr e"
    and run: "\<And>es. list_all2 (\<lambda>p e. \<exists>t ip port. ParseTrap t p ip port ?A = Inr e) ps es \<Longrightarrow>
       map sends (fst (handle_all digest_env (\<lambda>_ _. None) (perf_rs ''dedup-disabled'') (NewStore 10000) es)) = map (\<lambda>p. [(p, None)]) ps"
    using unique_profile_forwards [OF perf_rs_config, of 4096 digest_env "\<lambda>_ _. None" 10000] by auto
  obtain es where es: "list_all2 (\<lambda>p e. \<exists>t ip port. ParseTrap t p ip port ?A = Inr e) ps es"
    using parsed_events [OF ps(3)] by blast
  from run [OF es] list_all2_lengthD [OF es] ps(1,2) show ?thesis by (intro exI [of _ ps] exI [of _ es]) simp
qed

end
