(* ===== verification/Perf_Report.thy ===== *)
theory Perf_Report
  imports Perf_Load
begin

text \<open>
  The end of \<open>main\<close> in \<open>cmd/snmptrap-relay-perf/main.go\<close>: one step for every rate, and what is printed of
  the results, as a line of text each or as one JSON value. The value is what \<open>encoding/json\<close>
  is given, a map with its keys in the order in which the library writes them; its layout is the library's,
  and so is the text of a floating-point number, which is a parameter here.
\<close>

section \<open>The steps\<close>

text \<open>\<open>step k rate\<close> is the outcome of the \<open>k\<close>-th step.\<close>

fun run_steps :: "(nat \<Rightarrow> int \<Rightarrow> step_result res) \<Rightarrow> nat \<Rightarrow> int list \<Rightarrow> step_result list res" where
  "run_steps step k [] = Inr []"
| "run_steps step k (rate # rates) =
     (case step k rate of
        Inl e \<Rightarrow> Inl e
      | Inr r \<Rightarrow> rbind (run_steps step (Suc k) rates) (\<lambda>rs. Inr (r # rs)))"

text \<open>\<open>drainUDP\<close> reads and discards until a read fails; the result is what it has not read.\<close>

fun drainUDP :: "bytes res list \<Rightarrow> bytes res list" where
  "drainUDP [] = []"
| "drainUDP (Inr data # reads) = drainUDP reads"
| "drainUDP (Inl e # reads) = reads"

section \<open>The report\<close>

datatype json = JNum string | JBool bool | JStr string | JArr "json list" | JObj "(string \<times> json) list"

definition json_int :: "int \<Rightarrow> json" where
  "json_int n = JNum (int_str n)"

definition json_uint :: "64 word \<Rightarrow> json" where
  "json_uint n = json_int (uint n)"

text \<open>\<open>server.MetricsSnapshot\<close> has no tags: the fields keep their names.\<close>

definition metrics_json :: "metrics_snapshot \<Rightarrow> json" where
  "metrics_json m =
     (let c = (\<lambda>k. json_uint (sn_counters m k)) in
      JObj [(''Received'', c Received), (''QueueDropped'', c QueueDropped), (''QueueDepth'', json_int (sn_queue_depth m)),
        (''QueueCapacity'', json_int (sn_queue_capacity m)), (''ParseFailed'', c ParseFailed),
        (''HandleFailed'', c HandleFailed), (''Accepted'', c Accepted), (''Forwarded'', c Forwarded), (''Filtered'', c Filtered),
        (''Duplicates'', c Duplicates), (''PassThrough'', c PassThrough), (''Alarms'', c Alarms),
        (''DedupDisabled'', c DedupDisabled), (''ForwardFailed'', c ForwardFailed), (''WorkerCount'', json_int (sn_worker_count m))])"

definition result_json :: "string \<Rightarrow> step_result \<Rightarrow> json" where
  "result_json elapsed r =
     JObj [(''target_tps'', json_int (rs_target_tps r)), (''sent'', json_uint (rs_sent r)),
       (''received'', json_uint (rs_received r)), (''forwarded'', json_uint (rs_forwarded r)),
       (''queue_dropped'', json_uint (rs_queue_dropped r)), (''parse_failed'', json_uint (rs_parse_failed r)),
       (''handle_failed'', json_uint (rs_handle_failed r)), (''accepted'', json_uint (rs_accepted r)),
       (''elapsed_seconds'', JNum elapsed), (''loss_free'', JBool (rs_loss_free r)), (''metrics'', metrics_json (rs_metrics r))]"

record build_info =
  bi_version :: string
  bi_procs :: int
  bi_memlimit :: string

text \<open>A slice that nothing was appended to is nil, which is written as \<open>null\<close>.\<close>

definition report_json :: "build_info \<Rightarrow> perf_flags \<Rightarrow> (string \<times> step_result) list \<Rightarrow> (string \<times> json option) list" where
  "report_json info flags results =
     [(''go_version'', Some (JStr (bi_version info))), (''gomaxprocs'', Some (json_int (bi_procs info))),
      (''gomemlimit'', Some (JStr (bi_memlimit info))), (''max_dedup_entries'', Some (json_int (pf_max_dedup flags))),
      (''pair_count'', Some (json_int (pf_pair_count flags))), (''profile'', Some (JStr (pf_profile flags))),
      (''queue_size'', Some (json_int (pf_queue_size flags))),
      (''rates'', if results = [] then None else Some (JArr (map (\<lambda>(t, r). result_json t r) results))),
      (''worker_count'', Some (json_int (pf_workers flags)))]"

definition result_line :: "step_result \<Rightarrow> string" where
  "result_line r =
     ''target='' @ int_str (rs_target_tps r) @ '' sent='' @ int_str (uint (rs_sent r)) @
     '' received='' @ int_str (uint (rs_received r)) @ '' forwarded='' @ int_str (uint (rs_forwarded r)) @
     '' queue_dropped='' @ int_str (uint (rs_queue_dropped r)) @
     '' loss_free='' @ (if rs_loss_free r then ''true'' else ''false'') @ [CHR 10]"

datatype perf_output = Json "(string \<times> json option) list" | Lines "string list" | Failed int

text \<open>From the rates to what is printed; the \<open>k\<close>-th step takes the time \<open>elapsed k\<close>.\<close>

definition perf_report ::
    "(nat \<Rightarrow> int \<Rightarrow> step_result res) \<Rightarrow> (nat \<Rightarrow> string) \<Rightarrow> build_info \<Rightarrow> perf_flags \<Rightarrow> bool \<Rightarrow> int list \<Rightarrow> perf_output res" where
  "perf_report step elapsed info flags json_out rates =
     (case run_steps step 0 rates of
        Inl e \<Rightarrow> if is_panic e then Inl e else Inr (Failed 1)
      | Inr results \<Rightarrow>
          Inr (if json_out then Json (report_json info flags (zip (map elapsed [0..<length results]) results))
               else Lines (map result_line results)))"

section \<open>What the report says\<close>

lemma run_steps_all:
  "run_steps step k rates = Inr rs \<longleftrightarrow>
     length rs = length rates \<and> (\<forall>i < length rates. step (k + i) (rates ! i) = Inr (rs ! i))"
proof (induction rates arbitrary: k rs)
  case (Cons rate rates)
  show ?case
  proof (cases rs)
    case Nil
    then show ?thesis by (auto simp: rbind_Inr_iff split: sum.splits)
  next
    case (Cons r rs')
    have "(\<forall>i < length (rate # rates). step (k + i) ((rate # rates) ! i) = Inr ((r # rs') ! i)) \<longleftrightarrow>
        step k rate = Inr r \<and> (\<forall>i < length rates. step (Suc k + i) (rates ! i) = Inr (rs' ! i))"
      by (auto simp: All_less_Suc2)
    then show ?thesis using Cons Cons.IH [of "Suc k" rs'] by (auto simp: rbind_Inr_iff split: sum.splits)
  qed
qed auto

lemma step_target: "runStep X payloads rate deadline before after = Inr r \<Longrightarrow> rs_target_tps r = rate"
  by (auto simp: runStep_def rbind_Inr_iff step_result_of_def Let_def)

text \<open>The results are those of the rates asked for, each once, from the lowest to the highest.\<close>

lemma report_covers_rates:
  assumes "parseRates input = Inr rates"
    and "run_steps (\<lambda>k rate. runStep (X k) payloads rate (deadline k) (before k) (after k)) 0 rates = Inr rs"
  shows "map rs_target_tps rs = rates \<and> sorted rates \<and>
    (\<exists>ns. mapM parse_rate (split_on CHR '','' input) = Inr ns \<and> mset ns = mset rates)"
proof -
  have "map rs_target_tps rs = rates"
    using assms(2) step_target by (intro nth_equalityI) (auto simp: run_steps_all)
  moreover obtain ns where "mapM parse_rate (split_on CHR '','' input) = Inr ns" "rates = sort ns"
    using assms(1) by (auto simp: parseRates_def rbind_Inr_iff)
  ultimately show ?thesis by simp
qed

text \<open>Nothing is lost in the JSON value of a result.\<close>

lemma json_inject [simp]: "json_int m = json_int n \<longleftrightarrow> m = n" "json_uint v = json_uint w \<longleftrightarrow> v = w"
  by (simp_all add: json_int_def json_uint_def word_uint_eq_iff)

lemma metrics_json_inject: "metrics_json m = metrics_json m' \<longleftrightarrow> m = m'"
proof
  assume e: "metrics_json m = metrics_json m'"
  have "sn_counters m c = sn_counters m' c" for c
    using e by (cases c) (simp_all add: metrics_json_def Let_def)
  with e show "m = m'" by (simp add: metrics_json_def Let_def metrics_snapshot.equality fun_eq_iff)
qed simp

lemma result_json_inject: "result_json t r = result_json t' r' \<longleftrightarrow> t = t' \<and> r = r'"
  by (auto simp: result_json_def metrics_json_inject intro: step_result.equality)

end
