(* ===== verification/Race_Bound.thy ===== *)
theory Race_Bound
  imports Suppression
begin

text \<open>
  How much the missing atomicity of deduplication can cost: while the window of an alarm is open, no more
  copies of it leave than there are workers, since each worker can have looked at most once before the window
  was opened. \<open>Dedup_Races\<close> shows that two workers can do so twice.
\<close>

section \<open>One alarm under watch\<close>

text \<open>Workers that found the window of the key closed and are to store or to send, and events that have left.\<close>

fun stores_key :: "cache_key \<Rightarrow> 't worker_pc \<Rightarrow> bool" where
  "stores_key k (Running st (Storing alarm key) w) \<longleftrightarrow> k = (al_id alarm, dk_hash key)"
| "stores_key k (Running st (Sending alarm key) w) \<longleftrightarrow> k = (al_id alarm, dk_hash key)"
| "stores_key k _ \<longleftrightarrow> False"

fun copy_of :: "match_env \<Rightarrow> app_config \<Rightarrow> alarm_rule_config \<Rightarrow> string \<Rightarrow> label \<Rightarrow> nat" where
  "copy_of W cfg alarm hash (Handled e ss) = of_bool (ss \<noteq> [] \<and> raises W cfg e alarm hash)"
| "copy_of W cfg alarm hash _ = 0"

lemma copy_of_step [simp]: "copy_of W cfg alarm hash (step_label pc e) = 0"
  by (cases pc) simp_all

definition copies :: "match_env \<Rightarrow> app_config \<Rightarrow> alarm_rule_config \<Rightarrow> string \<Rightarrow> label list \<Rightarrow> nat" where
  "copies W cfg alarm hash tr = sum_list (map (copy_of W cfg alarm hash) tr)"

text \<open>A handler about to look finds the window open.\<close>

fun finds_open :: "cache_key \<Rightarrow> window option \<Rightarrow> 't worker_pc \<Rightarrow> bool" where
  "finds_open k x (Running st (Looking alarm key) w) \<longleftrightarrow>
     (k = (al_id alarm, dk_hash key) \<longrightarrow> open_window (ev_received_at (wk_event w)) x)"
| "finds_open k x _ \<longleftrightarrow> True"

text \<open>
  Steps without a reload that leave the window alone once it is open: nothing clears, evicts or expires
  it, and no event with its key comes too late for it.
\<close>

definition watched_step :: "'t server_env \<Rightarrow> cache_key \<Rightarrow> 't server \<Rightarrow> label \<Rightarrow> 't server \<Rightarrow> bool" where
  "watched_step E k s l s' \<longleftrightarrow>
     server_step E s l s' \<and> l \<notin> range Reload \<and>
     (windows (en_dedup (sv_engine s)) k \<noteq> None \<longrightarrow>
        windows (en_dedup (sv_engine s')) k \<noteq> None \<and>
        (\<forall>pc \<in> set (sv_workers s). finds_open k (windows (en_dedup (sv_engine s)) k) pc))"

text \<open>A handler of an event that raises the alarm, before its answer.\<close>

fun raising_pc :: "app_config \<Rightarrow> alarm_rule_config \<Rightarrow> string \<Rightarrow> handler_pc \<Rightarrow> bool" where
  "raising_pc cfg alarm hash (Rounds flag alarms) \<longleftrightarrow> \<not> flag \<and> set alarms \<subseteq> set (ac_alarms cfg)"
| "raising_pc cfg alarm hash (Looking a key) \<longleftrightarrow> a = alarm \<and> dk_hash key = hash"
| "raising_pc cfg alarm hash (Touching a key) \<longleftrightarrow> a = alarm \<and> dk_hash key = hash"
| "raising_pc cfg alarm hash (Storing a key) \<longleftrightarrow> a = alarm \<and> dk_hash key = hash"
| "raising_pc cfg alarm hash (Sending a key) \<longleftrightarrow> a = alarm \<and> dk_hash key = hash"
| "raising_pc cfg alarm hash (Answer res) \<longleftrightarrow> False"

lemma raises_mark [simp]: "raises W cfg (e\<lparr>ev_alerts_logged := b\<rparr>) alarm hash = raises W cfg e alarm hash"
  by (simp add: raises_def kept_def)

lemma start_raising:
  assumes "handler_start W st (start_work s e) = (pc, w)" "raises W (rs_cfg st) e alarm hash"
  shows "raising_pc (rs_cfg st) alarm hash pc"
  using assms by (auto simp: handler_start_def raises_def kept_def)

text \<open>A step of such a handler: it goes on, is suppressed, or was about to be sent.\<close>

lemma step_raising:
  assumes "handler_step W send st (pc, w) = (pc', w')" "raises W (rs_cfg st) (wk_event w) alarm hash"
    and "raising_pc (rs_cfg st) alarm hash pc"
  shows "raising_pc (rs_cfg st) alarm hash pc' \<or> (\<exists>res. pc' = Answer res \<and> \<not> attempted res) \<or>
    (\<exists>key. pc = Sending alarm key \<and> dk_hash key = hash)"
proof (cases pc)
  case (Rounds flag alarms)
  with assms(3) have flag: "\<not> flag" "set alarms \<subseteq> set (ac_alarms (rs_cfg st))" by simp_all
  show ?thesis
  proof (cases alarms)
    case Nil
    with assms(1,2) Rounds flag show ?thesis by (auto simp: after_rounds_def raises_def complete_key_def)
  next
    case (Cons a as)
    with flag assms(2) have "clear_verdict W (wk_event w) a = (None, None)" by (auto simp: raises_def)
    from quiet_round [OF this, of st flag] assms(1) Rounds Cons flag show ?thesis by auto
  qed
next
  case (Looking a key)
  with assms show ?thesis by (auto simp: split_beta Let_def)
next
  case (Touching a key)
  with assms show ?thesis
    by (auto simp: split_beta Let_def attempted_def duplicate_outcome_def split: option.splits)
qed (use assms in auto)


section \<open>The workers under watch\<close>

text \<open>Handlers that have seen or made the window of the key.\<close>

fun touches_key :: "cache_key \<Rightarrow> handler_pc \<Rightarrow> bool" where
  "touches_key k (Touching alarm key) \<longleftrightarrow> k = (al_id alarm, dk_hash key)"
| "touches_key k (Sending alarm key) \<longleftrightarrow> k = (al_id alarm, dk_hash key)"
| "touches_key k _ \<longleftrightarrow> False"

fun watched_worker ::
    "match_env \<Rightarrow> app_config \<Rightarrow> alarm_rule_config \<Rightarrow> string \<Rightarrow> bool \<Rightarrow> 't worker_pc \<Rightarrow> bool" where
  "watched_worker W cfg alarm hash shut (Running st pc w) \<longleftrightarrow>
     rs_cfg st = cfg \<and> (raises W cfg (wk_event w) alarm hash \<longrightarrow> raising_pc cfg alarm hash pc) \<and>
     \<not> (shut \<and> touches_key (al_id alarm, hash) pc)"
| "watched_worker W cfg alarm hash shut _ \<longleftrightarrow> True"

text \<open>
  While the window is closed no copy has left and none is about to; once it is open, every copy and every
  worker that is still to store or to send one has looked before.
\<close>

definition race_inv ::
    "match_env \<Rightarrow> app_config \<Rightarrow> int \<Rightarrow> nat \<Rightarrow> alarm_rule_config \<Rightarrow> string \<Rightarrow> label list \<Rightarrow> 't server \<Rightarrow> bool" where
  "race_inv W cfg limit n alarm hash tr s \<longleftrightarrow>
     store_kept limit s \<and> tasks_ok s \<and> length (sv_workers s) = n \<and>
     (\<exists>st. en_state (sv_engine s) = Some st \<and> rs_cfg st = cfg) \<and>
     (let k = (al_id alarm, hash); shut = (windows (en_dedup (sv_engine s)) k = None) in
       (\<forall>pc \<in> set (sv_workers s). watched_worker W cfg alarm hash shut pc) \<and>
       copies W cfg alarm hash tr + (if shut then 0 else workers_sum (of_bool \<circ> stores_key k) s) \<le> (if shut then 0 else n))"

lemma stores_at_most: "workers_sum (of_bool \<circ> stores_key k) s \<le> length (sv_workers s)"
proof -
  have "sum_list (map (of_bool \<circ> stores_key k) pcs) \<le> length pcs" for pcs :: "'a worker_pc list"
    by (induction pcs) simp_all
  then show ?thesis by (simp add: workers_sum_def)
qed

lemma copies_snoc [simp]: "copies W cfg alarm hash (tr @ [l]) = copies W cfg alarm hash tr + copy_of W cfg alarm hash l"
  by (simp add: copies_def)

text \<open>What one step of a running handler does to the window, to its own part of the count and to the trace.\<close>

lemma watched_handler:
  assumes "handler_step W send st (pc, w\<lparr>wk_store := d\<rparr>) = (pc', w')" "\<not> is_answer pc" "handler_ok pc w"
    and "watched_worker W cfg alarm hash (windows d k = None) (Running st pc w)"
    and "windows d k \<noteq> None \<longrightarrow> windows (wk_store w') k \<noteq> None \<and> finds_open k (windows d k) (Running st pc w)"
    and "k = (al_id alarm, hash)"
    and "case pc' of Answer res \<Rightarrow> l = Handled (wk_event w') (sends (wk_out w')) | _ \<Rightarrow> l = step_label pc (wk_event w)"
  shows "\<not> is_answer pc' \<Longrightarrow> watched_worker W cfg alarm hash (windows (wk_store w') k = None) (Running st pc' w')"
    and "windows (wk_store w') k = None \<Longrightarrow> copy_of W cfg alarm hash l = 0"
    and "windows d k = None \<Longrightarrow> copy_of W cfg alarm hash l = 0"
    and "windows d k \<noteq> None \<Longrightarrow> stores_key k (Running st pc' w') \<Longrightarrow> stores_key k (Running st pc w)"
    and "copy_of W cfg alarm hash l \<le> of_bool (is_answer pc' \<and> stores_key k (Running st pc w))"
proof -
  let ?w = "w\<lparr>wk_store := d\<rparr>"
  have cfg: "rs_cfg st = cfg" using assms(4) by simp
  obtain b where b: "wk_event w' = (wk_event w)\<lparr>ev_alerts_logged := b\<rparr>"
    using effect_event [OF handler_step_effect [OF assms(1,2)]] by auto
  have dk: "wk_store (w\<lparr>wk_store := d\<rparr>) = d" by simp
  have touch': "windows (wk_store w') k \<noteq> None" if t: "touches_key k pc'"
  proof (cases pc')
    case (Touching a key)
    with t assms(1,2) have pc: "pc = Looking a key" "k = (al_id a, dk_hash key)"
      and found: "fst (Store_Get d (al_id a) (dk_hash key) (ev_received_at (wk_event w))) \<noteq> None"
      by (cases "(W, send, st, pc, w)" rule: handler_step.cases;
          auto simp: after_rounds_def answer_def Let_def split_beta split: if_splits sum.splits option.splits)+
    have "open_window (ev_received_at (wk_event w)) (windows d k)"
      using found pc(2) by (simp add: look_Get open_window_visible)
    then have "windows d k \<noteq> None" by (cases "windows d k") (auto simp: open_window_def)
    with assms(5) show ?thesis by simp
  next
    case (Sending a key)
    from Sending sending_step [OF assms(1)] obtain a' key' where p: "pc = Storing a' key'" "w' = store_alarm a' key' (w\<lparr>wk_store := d\<rparr>)"
      by auto
    with assms(1) Sending have "a' = a" "key' = key" by simp_all
    with p t Sending show ?thesis by (simp add: windows_def look_Put(2))
  qed (use t in simp_all)
  show "stores_key k (Running st pc w)" if o: "windows d k \<noteq> None" and t: "stores_key k (Running st pc' w')"
  proof (cases pc)
    case (Rounds flag alarms)
    with assms(1) t show ?thesis
      by (cases alarms) (auto simp: after_rounds_def answer_def split_beta split: if_splits sum.splits option.splits)
  next
    case (Looking a key)
    with assms(1) t have "fst (Store_Get d (al_id a) (dk_hash key) (ev_received_at (wk_event w))) = None"
      and k: "k = (al_id a, dk_hash key)" by (auto simp: Let_def split_beta split: if_splits)
    then have "\<not> open_window (ev_received_at (wk_event w)) (windows d k)" by (simp add: look_Get open_window_visible)
    with assms(5) o Looking k show ?thesis by simp
  next
    case (Touching a key)
    with assms(1) t have "fst (Store_Touch d (al_id a) (dk_hash key) (wk_event w)) = None" "k = (al_id a, dk_hash key)"
      by (auto simp: Let_def split_beta split: option.splits)
    with o show ?thesis by (simp add: look_Touch windows_def)
  next
    case (Storing a key)
    with assms(1) t show ?thesis by auto
  next
    case (Sending a key)
    with assms(1) t show ?thesis by (auto simp: answer_def)
  qed (use assms(2) in simp)
  have raised: "is_answer pc' \<and> (\<exists>key. pc = Sending alarm key \<and> dk_hash key = hash)" if c: "copy_of W cfg alarm hash l \<noteq> 0"
  proof -
    from c assms(7) obtain res where res: "pc' = Answer res" "sends (wk_out w') \<noteq> []" "raises W cfg (wk_event w) alarm hash"
      by (cases pc') (auto simp: b)
    then have "attempted res" using handler_step_ok [OF assms(1-3)] sends_attempted by simp
    with step_raising [OF assms(1), of alarm hash] res assms(4) cfg show ?thesis by auto
  qed
  show "copy_of W cfg alarm hash l \<le> of_bool (is_answer pc' \<and> stores_key k (Running st pc w))"
  proof (cases "copy_of W cfg alarm hash l = 0")
    case False
    from raised [OF this] have "is_answer pc' \<and> stores_key k (Running st pc w)" using assms(6) by auto
    then show ?thesis by (cases l) simp_all
  qed simp
  show unsent: "copy_of W cfg alarm hash l = 0" if n: "windows d k = None"
  proof (rule ccontr)
    assume "copy_of W cfg alarm hash l \<noteq> 0"
    from raised [OF this] have "touches_key k pc" using assms(6) by auto
    with assms(4,6) n show False by simp
  qed
  show "windows (wk_store w') k = None \<Longrightarrow> copy_of W cfg alarm hash l = 0" using unsent assms(5) by blast
  show "watched_worker W cfg alarm hash (windows (wk_store w') k = None) (Running st pc' w')" if a: "\<not> is_answer pc'"
  proof -
    have "raising_pc cfg alarm hash pc'" if "raises W cfg (wk_event w) alarm hash"
    proof -
      have "pc \<noteq> Sending alarm' key" for alarm' key using assms(1) a by (auto simp: answer_def)
      with step_raising [OF assms(1), of alarm hash] that assms(4) cfg a show ?thesis by auto
    qed
    with touch' cfg assms(6) show ?thesis by (auto simp: b)
  qed
qed

lemma watched_worker_shut:
  "watched_worker W cfg alarm hash shut pc \<Longrightarrow> (shut' \<Longrightarrow> shut) \<Longrightarrow> watched_worker W cfg alarm hash shut' pc"
  by (cases pc) auto

text \<open>A step that leaves the window as it was and adds nobody who is to store the key.\<close>

lemma race_frame:
  assumes "race_inv W cfg limit n alarm hash tr s" "store_kept limit s'" "tasks_ok s'"
    and "length (sv_workers s') = length (sv_workers s)" "en_state (sv_engine s') = en_state (sv_engine s)"
    and "(windows (en_dedup (sv_engine s')) (al_id alarm, hash) = None) = (windows (en_dedup (sv_engine s)) (al_id alarm, hash) = None)"
    and "\<forall>pc \<in> set (sv_workers s'). pc \<in> set (sv_workers s) \<or>
      watched_worker W cfg alarm hash (windows (en_dedup (sv_engine s)) (al_id alarm, hash) = None) pc"
    and "copy_of W cfg alarm hash l = 0"
    and "workers_sum (of_bool \<circ> stores_key (al_id alarm, hash)) s' \<le> (workers_sum (of_bool \<circ> stores_key (al_id alarm, hash)) s :: nat) \<or>
      windows (en_dedup (sv_engine s)) (al_id alarm, hash) = None"
  shows "race_inv W cfg limit n alarm hash (tr @ [l]) s'"
  using assms by (auto simp: race_inv_def Let_def split: if_splits)

lemma stores_move:
  assumes "worker_at s i pc" "sv_workers s' = sv_workers s"
  shows "workers_sum (of_bool \<circ> stores_key k) (set_worker s' i pc') + of_bool (stores_key k pc) =
    workers_sum (of_bool \<circ> stores_key k) s + (of_bool (stores_key k pc') :: nat)"
  using workers_sum_move [OF assms, of "of_bool \<circ> stores_key k" pc'] by simp

lemma race_worker:
  "race_inv W cfg limit n alarm hash tr s \<Longrightarrow> worker_at s i pc \<Longrightarrow>
     task_ok pc \<and> watched_worker W cfg alarm hash (windows (en_dedup (sv_engine s)) (al_id alarm, hash) = None) pc"
  by (auto simp: race_inv_def Let_def worker_at_def tasks_ok_def)

text \<open>A step of a running handler.\<close>

lemma race_running:
  assumes "race_inv W cfg limit n alarm hash tr s" "worker_at s i (Running st pc w)" "\<not> is_answer pc"
    and "handler_step W send st (pc, w\<lparr>wk_store := en_dedup (sv_engine s)\<rparr>) = (pc', w')"
    and "case pc' of Answer res \<Rightarrow> l = Handled (wk_event w') (sends (wk_out w')) \<and> pc2 = Counting cs
      | _ \<Rightarrow> l = step_label pc (wk_event w) \<and> pc2 = Running st pc' w'"
    and "s' = set_worker (s\<lparr>sv_engine := (sv_engine s)\<lparr>en_dedup := wk_store w'\<rparr>\<rparr>) i pc2"
    and "store_kept limit s'" "tasks_ok s'"
    and "windows (en_dedup (sv_engine s)) (al_id alarm, hash) \<noteq> None \<longrightarrow>
      windows (wk_store w') (al_id alarm, hash) \<noteq> None \<and>
      finds_open (al_id alarm, hash) (windows (en_dedup (sv_engine s)) (al_id alarm, hash)) (Running st pc w)"
  shows "race_inv W cfg limit n alarm hash (tr @ [l]) s'"
proof -
  let ?k = "(al_id alarm, hash)" and ?d = "en_dedup (sv_engine s)"
  let ?N = "workers_sum (of_bool \<circ> stores_key ?k) :: _ \<Rightarrow> nat"
  have ok: "handler_ok pc w" and ww: "watched_worker W cfg alarm hash (windows ?d ?k = None) (Running st pc w)"
    using race_worker [OF assms(1,2)] by simp_all
  have l: "case pc' of Answer res \<Rightarrow> l = Handled (wk_event w') (sends (wk_out w')) | _ \<Rightarrow> l = step_label pc (wk_event w)"
    using assms(5) by (cases pc') auto
  note h = watched_handler [OF assms(4,3) ok ww assms(9) refl l]
  have pc2: "watched_worker W cfg alarm hash (windows (wk_store w') ?k = None) pc2"
    using h(1) assms(5) by (cases pc') auto
  have shut: "windows (wk_store w') ?k = None \<Longrightarrow> windows ?d ?k = None" using assms(9) by blast
  have workers: "watched_worker W cfg alarm hash (windows (wk_store w') ?k = None) q" if "q \<in> set (sv_workers s')" for q
  proof -
    from that assms(6) have "q \<in> set (sv_workers s) \<or> q = pc2" by (auto dest!: set_worker_workers)
    moreover have "q \<in> set (sv_workers s) \<Longrightarrow> watched_worker W cfg alarm hash (windows ?d ?k = None) q"
      using assms(1) by (simp add: race_inv_def Let_def)
    ultimately show ?thesis
      using pc2 shut watched_worker_shut [of W cfg alarm hash "windows ?d ?k = None" q "windows (wk_store w') ?k = None"]
      by fast
  qed
  have stored2: "stores_key ?k pc2 \<Longrightarrow> stores_key ?k (Running st pc' w') \<and> \<not> is_answer pc'" using assms(5) by (cases pc') auto
  have N: "?N s' + of_bool (stores_key ?k (Running st pc w)) = ?N s + of_bool (stores_key ?k pc2)"
    unfolding assms(6) by (rule stores_move [OF assms(2)]) simp
  have n: "length (sv_workers s) = n" "length (sv_workers s') = n" using assms(1,6) by (auto simp: race_inv_def)
  have count: "copies W cfg alarm hash (tr @ [l]) + (if windows (wk_store w') ?k = None then 0 else ?N s')
      \<le> (if windows (wk_store w') ?k = None then 0 else n)"
  proof (cases "windows ?d ?k = None")
    case True
    then have "copies W cfg alarm hash tr = 0" using assms(1) by (simp add: race_inv_def Let_def)
    moreover have "?N s' \<le> n" using stores_at_most [of ?k s'] n(2) by simp
    ultimately show ?thesis using h(3) [OF True] by simp
  next
    case False
    then have "copy_of W cfg alarm hash l + of_bool (stores_key ?k pc2) \<le> (of_bool (stores_key ?k (Running st pc w)) :: nat)"
      using h(4) h(5) stored2 le_trans [OF h(5), of "of_bool (stores_key ?k (Running st pc w))"] by (cases "stores_key ?k pc2") auto
    with N have "copy_of W cfg alarm hash l + ?N s' \<le> ?N s" by linarith
    moreover have "copies W cfg alarm hash tr + ?N s \<le> n" using assms(1) False by (simp add: race_inv_def Let_def)
    ultimately show ?thesis using False assms(9) by auto
  qed
  have d: "en_dedup (sv_engine s') = wk_store w'" "en_state (sv_engine s') = en_state (sv_engine s)"
    by (simp_all add: assms(6))
  have "\<exists>st. en_state (sv_engine s) = Some st \<and> rs_cfg st = cfg" using assms(1) by (simp add: race_inv_def)
  then show ?thesis unfolding race_inv_def Let_def d by (intro conjI ballI assms(7,8) n(2) count workers)
qed

lemma race_step:
  assumes "watched_step E (al_id alarm, hash) s l s'" "race_inv (se_match E) cfg limit n alarm hash tr s"
  shows "race_inv (se_match E) cfg limit n alarm hash (tr @ [l]) s'"
proof -
  let ?W = "se_match E" and ?k = "(al_id alarm, hash)" and ?d = "en_dedup (sv_engine s)"
  let ?shut = "windows ?d ?k = None"
  have step: "server_step E s l s'" and quiet: "l \<notin> range Reload"
    and stays: "\<not> ?shut \<Longrightarrow> windows (en_dedup (sv_engine s')) ?k \<noteq> None \<and> (\<forall>pc \<in> set (sv_workers s). finds_open ?k (windows ?d ?k) pc)"
    using assms(1) by (simp_all add: watched_step_def)
  have kept: "store_kept limit s" "tasks_ok s" using assms(2) by (simp_all add: race_inv_def)
  note rest = step_kept [OF step kept(1)] step_tasks [OF step kept(2)]
  note frame = race_frame [OF assms(2) rest]
  have move: "worker_at s i pc \<Longrightarrow> sv_workers s2 = sv_workers s \<Longrightarrow> \<not> stores_key ?k pc' \<Longrightarrow>
      workers_sum (of_bool \<circ> stores_key ?k) (set_worker s2 i pc') \<le> (workers_sum (of_bool \<circ> stores_key ?k) s :: nat)" for i pc pc' s2
    using stores_move [of s i pc s2 ?k pc'] by simp
  show ?thesis using step
  proof (cases rule: server_step.cases)
    case (reload cfg dec ts lg b)
    with quiet show ?thesis by blast
  next
    case (tick now)
    have "store_inv ?d" using kept(1) by (simp add: store_kept_def)
    note w = windows_cleanup [OF this, of now]
    have d: "en_dedup (sv_engine s') = snd (Store_Cleanup ?d now)" using tick by (simp add: engine_Cleanup_def split_beta)
    have "(windows (en_dedup (sv_engine s')) ?k = None) = ?shut" using stays unfolding d w by (cases ?shut) (auto simp: expire_def)
    with tick show ?thesis by (intro frame) (auto simp: engine_Cleanup_def split_beta)
  next
    case (start_handler i e st pc w)
    have cfg: "rs_cfg st = cfg" using assms(2) start_handler(4) by (auto simp: race_inv_def)
    have w: "pc = Rounds False (ac_alarms cfg)" "wk_event w = e"
      using start_handler(5,6) cfg by (auto simp: handler_start_def split: sum.splits if_splits)
    with cfg have "watched_worker ?W cfg alarm hash ?shut (Running st pc w)" by simp
    with start_handler w(1) move [OF start_handler(3), of s] show ?thesis
      by (intro frame) (auto dest!: set_worker_workers)
  next
    case (answered_early i e st res w)
    have "\<not> raises ?W cfg e alarm hash"
      using start_raising [OF answered_early(5), of alarm hash] assms(2) answered_early(4) by (auto simp: race_inv_def)
    with answered_early move [OF answered_early(3), of s] show ?thesis
      by (intro frame) (auto dest!: set_worker_workers)
  next
    case (advance i st pc w sent pc' w')
    then show ?thesis using stays worker_at_mem [OF advance(3)]
      by (intro race_running [OF assms(2) advance(3-5) _ advance(2) rest]) (cases pc'; force)+
  next
    case (answered i st pc w sent res w')
    then show ?thesis using stays worker_at_mem [OF answered(3)]
      by (intro race_running [OF assms(2) answered(3-5) _ answered(2) rest]) force+
  qed (intro frame; auto dest!: set_worker_workers intro!: move)+
qed

interpretation raced: traced "watched_step E (al_id alarm, hash)" "race_inv (se_match E) cfg limit n alarm hash"
  for E cfg limit n alarm hash
  by unfold_locales (rule race_step)

section \<open>The bound\<close>


text \<open>As long as nothing is stored, a closed window stays closed.\<close>

lemma unsent_closed:
  assumes "server_step E s l s'" "stored_of l = []" "windows (en_dedup (sv_engine s)) k = None" "l \<notin> range Tick"
  shows "windows (en_dedup (sv_engine s')) k = None"
  using assms(1)
proof (cases rule: server_step.cases)
  case (advance i st pc w sent pc' w')
  with assms(2) have "\<not> (\<exists>alarm key. pc = Storing alarm key)" by auto
  then show ?thesis using handler_step_windows [OF advance(5,4), of k] assms(3) advance(2)
    by (cases "windows (wk_store w') k") auto
next
  case (answered i st pc w sent res w')
  then show ?thesis using handler_step_windows [OF answered(5,4), of k] assms(3)
    by (cases "windows (wk_store w') k") auto
qed (use assms(3,4) in \<open>auto simp: Reload_engine_def\<close>)

lemma unsent_watched:
  "server_run E s tr s' \<Longrightarrow> trace_of stored_of tr = [] \<Longrightarrow> set tr \<inter> (range Tick \<union> range Reload) = {} \<Longrightarrow>
   windows (en_dedup (sv_engine s)) k = None \<Longrightarrow>
   run (watched_step E k) s tr s' \<and> windows (en_dedup (sv_engine s')) k = None"
proof (induction rule: run.induct)
  case (run_snoc s tr s1 l s2)
  then have ih: "run (watched_step E k) s tr s1" "windows (en_dedup (sv_engine s1)) k = None"
    by (simp_all add: trace_of_def)
  have "windows (en_dedup (sv_engine s2)) k = None"
    using unsent_closed [OF run_snoc.hyps(2) _ ih(2)] run_snoc.prems by (auto simp: trace_of_def)
  moreover have "watched_step E k s1 l s2" using run_snoc.hyps(2) run_snoc.prems(2) ih(2) by (auto simp: watched_step_def)
  ultimately show ?case using run.run_snoc [OF ih(1)] by blast
qed (simp add: run_nil)

text \<open>The bound is attained: both workers look before either stores the key.\<close>

lemma duo_race:
  "\<exists>tr s'. run (watched_step sample_senv (al_id sample_alarm, sample_hash)) duo_server tr s' \<and>
     copies sample_env duo_config sample_alarm sample_hash tr = 2"
proof -
  let ?k = "(al_id sample_alarm, sample_hash)" and ?E = sample_senv
  let ?st = "\<lparr>rs_cfg = duo_config, rs_forwarder = [sample_target],
      rs_decoder = Some \<lparr>dec_g = Some None, dec_cfg = Some duo_config\<rparr>, rs_logger = sample_logger, rs_alerts = None\<rparr>
    :: (string \<times> usm_params) list gosnmp_decoder runtime_state"
  let ?tr0 = "concat (replicate 2 [Tau, Recv trap_packet, Tau, Enqueue trap_packet, Tau, Take trap_packet, Tau, Tau])"
  have env: "se_match ?E = sample_env" by (simp add: sample_senv_def)
  have st: "en_state duo_engine = Some ?st" "en_dedup duo_engine = NewStore 2"
    by (simp_all add: duo_engine_def New_engine_def duo_config_def sample_config_def)
  have new: "windows (NewStore limit) = Map.empty" for limit by (simp add: windows_def lookup_def NewStore_def fun_eq_iff)
  obtain s where s: "server_run ?E duo_server ?tr0 s" "sv_workers s = [Handling sample_parsed, Handling sample_parsed]"
    "sv_engine s = duo_engine" using duo_both_hold by blast
  have at: "worker_at s 0 (Handling sample_parsed)" "worker_at s 1 (Handling sample_parsed)" by (simp_all add: worker_at_def s(2))
  have "en_state (sv_engine s) = Some ?st" by (simp add: s(3) st)
  from two_reach_put [OF _ at this, of ?E sample_alarm sample_hash] obtain n k1 w1 k2 w2 d1 d2 where
    r: "server_run ?E s (replicate n Tau)
      (moved (moved s 0 (Running ?st (Storing sample_alarm k1) w1) d1) 1 (Running ?st (Storing sample_alarm k2) w2) d2)"
      (is "server_run _ _ _ ?s1")
    and w: "dk_hash k1 = sample_hash" "dk_hash k2 = sample_hash" "wk_event w1 = sample_parsed" "wk_event w2 = sample_parsed"
      "sends (wk_out w1) = []" "sends (wk_out w2) = []"
    using duo_raises env st new s(3) by (auto simp: open_window_def)
  have "windows (en_dedup (sv_engine duo_server)) ?k = None" by (simp add: duo_server_def New_server_def st new)
  moreover have "trace_of stored_of (?tr0 @ replicate n Tau) = []" "set (?tr0 @ replicate n Tau) \<inter> (range Tick \<union> range Reload) = {}"
    by (auto simp: trace_of_def numeral_2_eq_2)
  ultimately have r1: "run (watched_step ?E ?k) duo_server (?tr0 @ replicate n Tau) ?s1"
    and none: "windows (en_dedup (sv_engine ?s1)) ?k = None"
    using unsent_watched [OF run_append [OF r s(1)], of ?k] by blast+
  have at1: "worker_at ?s1 0 (Running ?st (Storing sample_alarm k1) w1)" "worker_at ?s1 1 (Running ?st (Storing sample_alarm k2) w2)"
    by (simp_all add: worker_at_def moved_def set_worker_def s(2))
  let ?l1 = "\<lambda>b. Handled (sample_parsed\<lparr>ev_alerts_logged := b\<rparr>) [(ev_raw_bytes sample_parsed, None)]"
  obtain b1 b2 cs1 cs2 v1 v2 d3 d4 where
    puts: "server_step ?E ?s1 (Stored sample_parsed) (moved ?s1 0 (Running ?st (Sending sample_alarm k1) v1) d3)"
      "server_step ?E (moved ?s1 0 (Running ?st (Sending sample_alarm k1) v1) d3) (?l1 b1) (moved ?s1 0 (Counting cs1) d3)"
      "server_step ?E (moved ?s1 0 (Counting cs1) d3) (Stored sample_parsed)
        (moved (moved ?s1 0 (Counting cs1) d3) 1 (Running ?st (Sending sample_alarm k2) v2) d4)"
      "server_step ?E (moved (moved ?s1 0 (Counting cs1) d3) 1 (Running ?st (Sending sample_alarm k2) v2) d4) (?l1 b2)
        (moved (moved ?s1 0 (Counting cs1) d3) 1 (Counting cs2) d4)"
    and open_now: "windows d3 ?k \<noteq> None" "windows d4 ?k \<noteq> None"
    using two_put [OF zero_neq_one at1 w(5,6,1,2), of ?E] unfolding w(3,4) by blast
  have "watched_step ?E ?k ?s1 (Stored sample_parsed) (moved ?s1 0 (Running ?st (Sending sample_alarm k1) v1) d3)"
    using puts(1) none by (auto simp: watched_step_def)
  moreover have "watched_step ?E ?k (moved ?s1 0 (Running ?st (Sending sample_alarm k1) v1) d3) (?l1 b1) (moved ?s1 0 (Counting cs1) d3)"
    using puts(2) open_now(1) by (auto simp: watched_step_def) (auto simp: moved_def set_worker_def s(2))
  moreover have "watched_step ?E ?k (moved ?s1 0 (Counting cs1) d3) (Stored sample_parsed)
      (moved (moved ?s1 0 (Counting cs1) d3) 1 (Running ?st (Sending sample_alarm k2) v2) d4)"
    using puts(3) open_now by (auto simp: watched_step_def) (auto simp: moved_def set_worker_def s(2))
  moreover have "watched_step ?E ?k (moved (moved ?s1 0 (Counting cs1) d3) 1 (Running ?st (Sending sample_alarm k2) v2) d4) (?l1 b2)
      (moved (moved ?s1 0 (Counting cs1) d3) 1 (Counting cs2) d4)"
    using puts(4) open_now(2) by (auto simp: watched_step_def) (auto simp: moved_def set_worker_def s(2))
  ultimately have "run (watched_step ?E ?k) ?s1 [Stored sample_parsed, ?l1 b1, Stored sample_parsed, ?l1 b2]
      (moved (moved ?s1 0 (Counting cs1) d3) 1 (Counting cs2) d4)" by (meson run_cons run_nil)
  moreover have "copies sample_env duo_config sample_alarm sample_hash
      ((?tr0 @ replicate n Tau) @ [Stored sample_parsed, ?l1 b1, Stored sample_parsed, ?l1 b2]) = 2"
    using duo_raises by (simp add: copies_def numeral_2_eq_2)
  ultimately show ?thesis using run_append [OF _ r1] by blast
qed


end
