(* ===== verification/Reload_Sends.thy ===== *)
theory Reload_Sends
  imports Relay_Main
begin

text \<open>
  Sending and reloading together. A handler keeps the run-time state it loaded, its forwarder included,
  until its end, and a successful reload closes the sockets of the forwarder it replaces: a handler that
  sends afterwards through the old one fails, one that sends through the new one reaches the network.
\<close>

section \<open>Sockets before and after\<close>

lemma install_closes: "conns (dm_forwarder d) \<inter> set (os_open (dm_os (install M cfg lr a ts dec m d))) = {}"
  by (auto simp: install_def Let_def)

lemma reload_outputs_closes:
  assumes "reload_outputs M cfg lr d = Inr (''config_reloaded'', d')"
  shows "conns (dm_forwarder d) \<inter> set (os_open (dm_os d')) = {}"
proof -
  have "conns (dm_forwarder d) \<inter> set (os_open (dm_os d')) = {}"
    if "reload_metrics M cfg lr a ts dec (d\<lparr>dm_os := w\<rparr>) = Inr (''config_reloaded'', d')" for a ts dec w
    using that install_closes [of "d\<lparr>dm_os := v\<rparr>" M cfg lr a ts dec m for v m]
    by (auto simp: reload_metrics_def split: prod.splits sum.splits if_splits)
  with assms show ?thesis by (auto simp: reload_outputs_def split: prod.splits sum.splits)
qed

lemma reload_closes:
  assumes "reload M path d = Inr (''config_reloaded'', d')"
  shows "conns (dm_forwarder d) \<inter> set (os_open (dm_os d')) = {}"
proof -
  obtain cfg lr l w where "reload_outputs M cfg lr (d\<lparr>dm_memory_limit := l, dm_os := w\<rparr>) = Inr (''config_reloaded'', d')"
    using assms by (auto simp: reload_def split: prod.splits sum.splits option.splits)
  from reload_outputs_closes [OF this] show ?thesis by simp
qed

lemma written_closed:
  "conns ts \<inter> set hs = {} \<Longrightarrow> (h, a, b, r) \<in> set (written_by E payload ts n hs) \<Longrightarrow> r = Some closed_err"
  by (induction ts arbitrary: n) (auto split: option.splits)

lemma written_open:
  "conns ts \<subseteq> set hs \<Longrightarrow> (h, a, b, r) \<in> set (written_by E payload ts n hs) \<Longrightarrow> \<exists>k. r = oe_write E k h a b"
  by (induction ts arbitrary: n) (auto split: option.splits)

lemma written_targets:
  "\<forall>t \<in> set ts. tg_conn t \<noteq> None \<Longrightarrow>
   map (\<lambda>(h, a, b, _). (Some h, a, b)) (written_by E payload ts n hs) = map (\<lambda>t. (tg_conn t, tg_addr t, payload)) ts"
  by (induction ts arbitrary: n) auto

lemma Send_written:
  "os_written (snd (Send E ts payload w)) = os_written w @ written_by E payload ts (os_calls w) (os_open w)"
  by (simp add: Send_def split_beta send_targets_writes)

text \<open>Through closed sockets only.\<close>

lemma Send_closed:
  assumes "conns ts \<inter> set (os_open w) = {}" "ts \<noteq> []" "\<forall>t \<in> set ts. tg_conn t \<noteq> None"
  shows "fst (Send E ts payload w) \<noteq> None"
proof -
  let ?ws = "written_by E payload ts (os_calls w) (os_open w)"
  have "map (\<lambda>(h, a, b, _). (Some h, a, b)) ?ws \<noteq> []" unfolding written_targets [OF assms(3)] using assms(2) by simp
  then obtain h a b r where "(h, a, b, r) \<in> set ?ws" by (cases ?ws) auto
  with written_closed [OF assms(1) this] have "filter (\<lambda>(_, _, _, r). r \<noteq> None) ?ws \<noteq> []"
    by (force simp: filter_empty_conv)
  then have "fst (send_targets E payload ts w) \<noteq> []" using send_targets_errs [OF assms(3), of E payload w] by auto
  then show ?thesis by (simp add: Send_def split_beta joinErrors_def split: list.splits)
qed

section \<open>Handlers\<close>

text \<open>What the engine's forwarder returns while the system is in the daemon's state.\<close>

definition daemon_send :: "'t main_env \<Rightarrow> 't daemon \<Rightarrow> sender" where
  "daemon_send M d ts raw = fst (Send (me_os M) ts raw (dm_os d))"

text \<open>
  A step of a handler sends nothing or one packet, the datagram, through the forwarder of the run-time state it was
  started with, and its answer says what the forwarder returned.
\<close>

lemma honest_handler_step:
  assumes "handler_step W send st (pc, w) = (Answer res, w')" "\<not> is_answer pc"
  shows "honest (send (rs_forwarder st)) (ev_raw_bytes (wk_event w)) res"
proof -
  have send: "send_alarm send st alarm key w = (res, w') \<Longrightarrow> honest (send (rs_forwarder st)) (ev_raw_bytes (wk_event w)) res"
    for alarm key
    by (auto simp: send_alarm_def Let_def honest_def attempted_def result_sends_def split: option.splits)
  have ans: "answer r = (Answer res, w') \<longleftrightarrow> r = (res, w')" for r by (cases r) (simp add: answer_def)
  have idle: "honest f raw (duplicate_outcome alarm, er)" for f raw alarm er
    by (simp add: honest_def attempted_def duplicate_outcome_def)
  show ?thesis
    using assms
    by (cases "(W, send, st, pc, w)" rule: handler_step.cases)
       (auto simp: after_rounds_def Let_def ans idle split: if_splits sum.splits option.splits prod.splits
          dest: honest_forwards(1,2) send)
qed

lemma handler_step_sends:
  assumes "handler_step W send st (pc, w) = (pc', w')" "\<not> is_answer pc"
  shows "\<exists>ss. sends (wk_out w') = sends (wk_out w) @ ss \<and>
    (ss = [] \<or> ss = [(ev_raw_bytes (wk_event w), send (rs_forwarder st) (ev_raw_bytes (wk_event w)))])"
proof (intro exI conjI)
  let ?raw = "ev_raw_bytes (wk_event w)"
  show "sends (wk_out w') = sends (wk_out w) @ step_sends ?raw pc'"
    by (rule effect_sends [OF handler_step_effect [OF assms]])
  show "step_sends ?raw pc' = [] \<or> step_sends ?raw pc' = [(?raw, send (rs_forwarder st) ?raw)]"
  proof (cases pc')
    case (Answer res)
    from honest_handler_step [OF assms(1) [unfolded Answer] assms(2)] Answer show ?thesis
      by (auto simp: honest_def attempted_sends [where raw = ?raw])
  qed simp_all
qed

section \<open>Properties\<close>

text \<open>
  C17. A successful reload of a daemon with at least one target decides which packets can leave. A handler
  that loaded its run-time state before the reload, wherever it stands, sends through the forwarder of that state:
  each of its later steps sends nothing or has an error for an answer from the forwarder, because every one of its
  writes is refused on a closed socket, whatever the network would have done. A handler that starts after the reload
  sends through the new forwarder: a send makes one write for every target of the new configuration, in order, to an
  open socket, with the result that the network gives.
\<close>

theorem sends_across_reload:
  assumes "daemon_inv d" "wired d" "reload M path d = Inr (''config_reloaded'', d')" "dm_forwarder d \<noteq> []"
    and "en_state (dm_engine d) = Some st" "en_state (dm_engine d') = Some st'"
  shows "(\<forall>W pc w pc' w'. \<not> is_answer pc \<longrightarrow> handler_step W (daemon_send M d') st (pc, w) = (pc', w') \<longrightarrow>
      sends (wk_out w') = sends (wk_out w) \<or>
      (\<exists>er. sends (wk_out w') = sends (wk_out w) @ [(ev_raw_bytes (wk_event w), Some er)])) \<and>
    (\<forall>raw. \<exists>ws. os_written (snd (Send (me_os M) (rs_forwarder st) raw (dm_os d'))) = os_written (dm_os d') @ ws \<and>
       (\<forall>(h, a, b, r) \<in> set ws. r = Some closed_err)) \<and>
    (\<forall>W pc w pc' w'. \<not> is_answer pc \<longrightarrow> handler_step W (daemon_send M d') st' (pc, w) = (pc', w') \<longrightarrow>
      sends (wk_out w') = sends (wk_out w) \<or>
      sends (wk_out w') = sends (wk_out w) @
        [(ev_raw_bytes (wk_event w), daemon_send M d' (dm_forwarder d') (ev_raw_bytes (wk_event w)))]) \<and>
    (\<forall>raw. \<exists>ws. os_written (snd (Send (me_os M) (dm_forwarder d') raw (dm_os d'))) = os_written (dm_os d') @ ws \<and>
       map (\<lambda>(h, a, b, _). (Some h, a, b)) ws = map (\<lambda>t. (tg_conn t, tg_addr t, raw)) (dm_forwarder d') \<and>
       (\<forall>(h, a, b, r) \<in> set ws. \<exists>k. r = oe_write (me_os M) k h a b))"
proof (intro conjI)
  note closed = reload_closes [OF assms(3)]
  have old: "rs_forwarder st = dm_forwarder d" and live: "\<forall>t \<in> set (dm_forwarder d). tg_conn t \<noteq> None"
    using assms(2,5) by (auto simp: wired_def)
  have "wired d'" using reload_wired [OF assms(1-3)] by blast
  then have new: "rs_forwarder st' = dm_forwarder d'" and live': "\<forall>t \<in> set (dm_forwarder d'). tg_conn t \<noteq> None"
    using assms(6) by (auto simp: wired_def)
  have "daemon_inv d'" using reload_inv [OF assms(1,3)] by blast
  then have opened: "conns (dm_forwarder d') \<subseteq> set (os_open (dm_os d'))" using daemon_invD(2) by (auto simp: owned_def)
  have fails: "\<exists>er. daemon_send M d' (rs_forwarder st) raw = Some er" for raw
    using Send_closed [OF closed assms(4) live, of "me_os M" raw] by (simp add: daemon_send_def old)
  show "\<forall>W pc w pc' w'. \<not> is_answer pc \<longrightarrow> handler_step W (daemon_send M d') st (pc, w) = (pc', w') \<longrightarrow>
      sends (wk_out w') = sends (wk_out w) \<or>
      (\<exists>er. sends (wk_out w') = sends (wk_out w) @ [(ev_raw_bytes (wk_event w), Some er)])"
    using handler_step_sends [of _ "daemon_send M d'" st] fails by fastforce
  show "\<forall>raw. \<exists>ws. os_written (snd (Send (me_os M) (rs_forwarder st) raw (dm_os d'))) = os_written (dm_os d') @ ws \<and>
       (\<forall>(h, a, b, r) \<in> set ws. r = Some closed_err)"
    unfolding old by (intro allI exI conjI, rule Send_written) (use written_closed [OF closed] in auto)
  show "\<forall>W pc w pc' w'. \<not> is_answer pc \<longrightarrow> handler_step W (daemon_send M d') st' (pc, w) = (pc', w') \<longrightarrow>
      sends (wk_out w') = sends (wk_out w) \<or>
      sends (wk_out w') = sends (wk_out w) @
        [(ev_raw_bytes (wk_event w), daemon_send M d' (dm_forwarder d') (ev_raw_bytes (wk_event w)))]"
    using handler_step_sends [of _ "daemon_send M d'" st'] new by fastforce
  show "\<forall>raw. \<exists>ws. os_written (snd (Send (me_os M) (dm_forwarder d') raw (dm_os d'))) = os_written (dm_os d') @ ws \<and>
       map (\<lambda>(h, a, b, _). (Some h, a, b)) ws = map (\<lambda>t. (tg_conn t, tg_addr t, raw)) (dm_forwarder d') \<and>
       (\<forall>(h, a, b, r) \<in> set ws. \<exists>k. r = oe_write (me_os M) k h a b)"
    by (intro allI exI conjI, rule Send_written, rule written_targets [OF live']) (use written_open [OF opened] in auto)
qed

text \<open>A daemon with one target, and a reload of a configuration that has none.\<close>

definition reload_env :: "(string \<times> usm_params) list main_env" where
  "reload_env =
     \<lparr>me_os = sample_os_env, me_read = (\<lambda>_ _. Inr []), me_unmarshal = (\<lambda>_. Inr file_config), me_lib = sample_lib,
      me_malformed = (\<lambda>_. False)\<rparr>"

definition reload_target :: target where
  "reload_target =
     \<lparr>tg_config = \<lparr>fc_name = ''nms'', fc_host = ''10.0.0.9'', fc_port = 162, fc_enabled = True, fc_source_host = []\<rparr>,
      tg_addr = \<lparr>ua_ip = [10, 0, 0, 9], ua_port = 162, ua_zone = []\<rparr>, tg_conn = Some 1\<rparr>"

definition reload_daemon :: "(string \<times> usm_params) list daemon" where
  "reload_daemon =
     \<lparr>dm_os = \<lparr>os_calls = 2, os_open = [1, 0], os_written = []\<rparr>,
      dm_logger = \<lparr>lg_format = TextFormat, lg_level = parseLevel ''INFO'', lg_writer = None\<rparr>, dm_closer = None, dm_alerts = None,
      dm_forwarder = [reload_target], dm_metrics = None, dm_metrics_cfg = ac_metrics loaded_config, dm_socket = 0,
      dm_server_logger = \<lparr>lg_format = TextFormat, lg_level = parseLevel ''INFO'', lg_writer = None\<rparr>,
      dm_engine = New_engine loaded_config [reload_target] None
        \<lparr>lg_format = TextFormat, lg_level = parseLevel ''INFO'', lg_writer = None\<rparr> None, dm_memory_limit = None\<rparr>"

lemma reload_daemon_reloads: "\<exists>d'. reload reload_env ''relay.yaml'' reload_daemon = Inr (''config_reloaded'', d')"
proof -
  have c: "load_config reload_env ''relay.yaml'' (dm_os reload_daemon) = Inr loaded_config"
    using file_config_loads by (simp add: load_config_def Load_def reload_env_def loaded_config_def)
  have r: "NewResource (me_os reload_env) (ac_logging loaded_config) (dm_os reload_daemon) =
    (Inr \<lparr>lr_logger = \<lparr>lg_format = TextFormat, lg_level = parseLevel ''INFO'', lg_writer = None\<rparr>, lr_closer = None\<rparr>,
     dm_os reload_daemon)"
    by (simp add: NewResource_def sample_format)
  have l: "applyRuntimeConfig loaded_config (dm_memory_limit reload_daemon) = (None, Some 1024)"
    by (simp add: applyRuntimeConfig_def get_runtime_memory_limit_def sample_limit)
  have d: "New_decoder (me_lib reload_env) loaded_config = Inr \<lparr>dec_g = Some None, dec_cfg = Some loaded_config\<rparr>"
    by (simp add: New_decoder_def Reload_decoder_def)
  have a: "NewAlertsWriter (me_os reload_env) (ac_logging loaded_config) w = (Inr None, w)" for w
    by (simp add: NewAlertsWriter_def)
  have m: "dm_metrics_cfg reload_daemon = ac_metrics loaded_config" by (simp add: reload_daemon_def)
  show ?thesis
    by (simp add: reload_def c r l reload_outputs_def a NewUDP_def d reload_metrics_def swap_metrics_def m del: loaded_config_simps(4))
qed

lemma sends_across_reload_witness:
  "\<exists>d' st er. reload reload_env ''relay.yaml'' reload_daemon = Inr (''config_reloaded'', d') \<and>
     en_state (dm_engine reload_daemon) = Some st \<and> rs_forwarder st = [reload_target] \<and>
     sends (wk_out (snd (handler_step sample_env (daemon_send reload_env d') st
       (Sending sample_alarm \<lparr>dk_hash = ''k'', dk_repr = ''k'', dk_missing_fields = []\<rparr>, start_work (NewStore 0) (alarm_at 0))))) =
     [([7], Some er)]"
proof -
  let ?pc = "Sending sample_alarm \<lparr>dk_hash = ''k'', dk_repr = ''k'', dk_missing_fields = []\<rparr>"
  let ?w = "start_work (NewStore 0) (alarm_at 0)"
  obtain d' where r: "reload reload_env ''relay.yaml'' reload_daemon = Inr (''config_reloaded'', d')"
    using reload_daemon_reloads by blast
  have d: "daemon_inv reload_daemon" "wired reload_daemon" "dm_forwarder reload_daemon \<noteq> []"
    by (auto simp: daemon_inv_def wired_def owned_def listeners_def reload_daemon_def reload_target_def os_inv_def less_Suc_eq)
  obtain st where st: "en_state (dm_engine reload_daemon) = Some st" "rs_forwarder st = [reload_target]"
    by (simp add: reload_daemon_def)
  obtain st' where st': "en_state (dm_engine d') = Some st'" using reload_wired [OF d(1,2) r] by (auto simp: wired_def)
  obtain pc' w' where step: "handler_step sample_env (daemon_send reload_env d') st (?pc, ?w) = (pc', w')" by fastforce
  then have "sends (wk_out w') = [([7], daemon_send reload_env d' (rs_forwarder st) [7])]"
    by (auto simp: answer_def send_alarm_def Let_def emit_def write_alert_def start_work_def alarm_at_def split: option.splits)
  moreover have "sends (wk_out w') = [] \<or> (\<exists>er. sends (wk_out w') = [([7], Some er)])"
    using sends_across_reload [OF d(1,2) r d(3) st(1) st', THEN conjunct1, rule_format, OF _ step]
    by (simp add: start_work_def alarm_at_def)
  ultimately show ?thesis using r st step by auto
qed

end
