(* ===== verification/Spec2Isabelle.thy ===== *)
theory Spec2Isabelle
  imports Perf_Traffic Perf_Report Race_Bound Reload_Sends
begin
text \<open>
  A relay for SNMP traps: it reads trap datagrams from a UDP socket, decodes them, drops or keeps them by
  filter rules, recognises alarms, suppresses the repetitions of an alarm for a time or until a clear
  trap, and forwards what is left, unchanged, to its targets. This development models the Go
  code of the repository and proves what makes it correct; each theory is named with the files
  it translates, and the definitions keep the names of the code.

  \<^bold>\<open>Foundations.\<close> \<open>Relay_Prelude\<close>: results (an error or a value, a panic being one of the errors),
  indexing and slicing that panic out of range, association lists, the collections of simplification
  rules. \<open>Go_Strings\<close>, \<open>Go_Numbers\<close>, \<open>Go_Text\<close>: the parts of \<open>strings\<close>, \<open>strconv\<close>, \<open>encoding/hex\<close>, \<open>unicode/utf8\<close>
  and the string escapes of \<open>encoding/json\<close> the code uses, with the round trips and injectivity the
  components need. \<open>Transition_Systems\<close>: runs of a step relation and four contracts, \<open>stable\<close> (a predicate every
  step keeps), \<open>conserved\<close> (a quantity only the labels account for), \<open>traced\<close> (a predicate of trace and state)
  and \<open>simulation\<close>. \<open>Os_World\<close>: sockets
  and files as a set of open handles; which calls fail, and how, is the parameter \<open>os_env\<close>.

  \<^bold>\<open>The path of a trap.\<close> \<open>Relay_Model\<close> (\<open>internal/model\<close>): configuration, events, keys, states. \<open>Oid_Util\<close>
  (\<open>internal/oidutil\<close>): spellings of an identifier. \<open>Ber\<close> (\<open>internal/ber\<close>) and \<open>Snmp_Parser\<close> (\<open>internal/snmp\<close>):
  the decoder, which is shown to accept exactly a grammar of encodings (\<open>tlv_enc\<close>, and the grammar
  of \<open>ParseTrap_grammar\<close>), never to index out of range, and to build the event the bytes describe.
  \<open>Receiver\<close> (\<open>internal/receiver\<close>): the decoder of the daemon; the gosnmp library, used for version 3
  and where the own parser fails, is the parameter \<open>gosnmp_lib\<close>. \<open>Field_Match\<close> (\<open>internal/match\<close>):
  fields, match rules and the dedup key, which identifies the values of its fields when the
  hash is injective; regular expressions, floating-point numbers and SHA-256 are the parameter
  \<open>match_env\<close>. \<open>Dedup_Store\<close> (\<open>internal/dedup\<close>): the store, whose operations keep a limit and refine a map;
  expired states cannot be observed. \<open>Relay_Engine\<close> (\<open>internal/engine\<close>): filters, clear rules, alarms,
  forwarding through the forwarder of the run-time state; one event after the other, the engine refines the abstract
  relay \<open>spec_step\<close>, a partial map from rule and key to the window of an alarm. \<open>Event_Handler\<close>: the same handler in
  steps of at most one store operation or one send, so that other workers can run between the \<open>Put\<close> of a fresh
  alarm and its \<open>Send\<close>; uninterrupted they are \<open>HandleEvent\<close>.

  \<^bold>\<open>The server.\<close> \<open>Relay_Server\<close> (\<open>internal/server\<close>): the reader, the queue and the workers as one step relation,
  \<open>server_step\<close>, in which a step is one action of one goroutine with at most one operation on what it shares (a
  counter, the queue, the store, the forwarder), the counters are 64-bit words, a queue of size 0 hands a packet
  over to a waiting worker, and the environment cancels, reloads and ticks at will. A reload of the engine may
  bring any configuration, forwarder, decoder, loggers; what it does to the sockets is the subject of \<open>Relay_Main\<close>. \<open>Server_Runs\<close>: over all its runs,
  datagrams are conserved and taken in order, the counters add up, the metrics count what the
  forwarder did, a cancelled server stops. \<open>Dedup_Races\<close>: the store stays bounded under every
  interleaving, and two workers can forward one alarm twice. \<open>Server_Refinement\<close>: with one worker, every
  schedule, reloads included, is a run of the abstract relay \<open>relay_step\<close>, which handles one event at a time
  with \<open>spec_step\<close>, a fresh alarm in two steps (the window, then the packet), and forgets the windows that a
  cleanup finds closed. \<open>Suppression\<close>: with any number of workers, what is suppressed repeats something that was
  stored before and has been sent or is about to be. \<open>Race_Bound\<close>: while a window stays open no
  more copies of its alarm are sent than there are workers.

  \<^bold>\<open>Around it.\<close> \<open>Memory_Limit\<close> and \<open>Relay_Config\<close> (\<open>internal/config\<close>): defaults, validation, loading; \<open>Load\<close>
  accepts exactly the well-formed configurations. \<open>Udp_Forward\<close> (\<open>internal/forward\<close>), \<open>Logging_Conf\<close>
  (\<open>internal/logging\<close>), \<open>Metrics_Server\<close> (\<open>internal/metrics\<close>): what opens and closes sockets and files, and the
  values of a scrape, rounded to \<open>float64\<close>. \<open>Relay_Main\<close> (\<open>cmd/snmptrap-relay\<close>): start-up, the check of a
  configuration, the signal loop and reload; the daemon loses no handle of its variables, the engine works with
  exactly these, and a reload is all or nothing but for two things its theorems name (the memory limit and the
  metrics listener); the logger that the server was given at start-up is not among the variables, and a
  reload closes its file. \<open>Reload_Sends\<close>: through which sockets a handler sends that a reload overtakes.
  \<open>Perf_Codec\<close>, \<open>Perf_Load\<close>, \<open>Perf_Report\<close> and \<open>Perf_Traffic\<close> (\<open>cmd/snmptrap-relay-perf\<close>): the trap encoder,
  read back by the decoder; the load and its measurements; what is printed of them; and the two traffic profiles, pushed
  through decoder and engine to the packets that are forwarded. This theory holds the properties that
  connect the configuration with the components it configures.

  \<^bold>\<open>Interfaces.\<close> The locales state what one component relies on in another, each interpreted on the model:
  the decoder the engine uses, the store behind the handler, runs of the server. Bounds: Go's \<open>int\<close> and
  \<open>int64\<close> are 64-bit words where the code can overflow (\<open>go_int\<close>, \<open>ttl_duration\<close>, lengths in \<open>Ber\<close>) and integers
  where the value stays in range; times are integers of nanoseconds. A channel or slice beyond what the Go run time can
  address panics (\<open>max_chan_size\<close>, \<open>max_alloc\<close>); below that, memory is taken to suffice. No definition needs fuel:
  every loop is structural or has a measure; \<open>job_bound\<close> bounds the steps of a worker on one packet.

  \<^bold>\<open>Not modelled.\<close> Serving HTTP and the Prometheus text format; the text of log lines of the server and the
  daemon; flag parsing and the delivery of signals; the layout of the JSON text that the load generator prints
  and its reading of the clock; what the deferred calls close when the process ends; a reload that closes
  the sockets in the middle of a send, between two of its targets; the fields of a dedup state that a log
  line reads after another worker changed them; the writes of the loggers, of which only the file they go to is kept.
  A panic in a goroutine ends the process: where the code can
  reach one, the model's result is a panic, and the server has no step for it.
\<close>

section \<open>Configuration and components\<close>

text \<open>The filter loop fails only where matching fails, once the actions are those of a loaded configuration.\<close>

lemma filter_rules_error:
  "list_all (\<lambda>r. fr_action r \<in> {''drop'', ''keep''}) rs \<Longrightarrow> filter_rules W e rs = Inl er \<Longrightarrow>
   \<exists>r \<in> set rs. Matches W e (fr_match r) = Inl er"
  by (induction rs) (auto simp: rbind_Inl_iff split: if_splits)

lemma ticker_ok: "0 < n \<Longrightarrow> n \<le> max_ttl_seconds \<Longrightarrow> 0 < ttl_duration n"
  by (subst ttl_duration_exact) (simp_all add: max_ttl_seconds_def)

text \<open>
  C15. What the validator promises to the engine and the server: with a loaded configuration the filters fail
  only when matching a rule fails, never with an unsupported action, and a server whose two intervals fit
  the nanoseconds of a 64-bit duration and whose queue and datagram buffer are not beyond what the Go run time can
  allocate starts, with the configured number of workers, at least one.
\<close>

theorem loaded_config_serves:
  assumes "Load read_file unmarshal path = Inr cfg"
  shows "(evaluateFilters W cfg e = Inl er \<longrightarrow> (\<exists>r \<in> set (fl_rules (ac_filters cfg)). Matches W e (fr_match r) = Inl er)) \<and>
    (sc_cleanup_interval_seconds (ac_server cfg) \<le> max_ttl_seconds \<and>
       sc_stats_log_interval_secs (ac_server cfg) \<le> max_ttl_seconds \<and>
       sc_queue_size (ac_server cfg) \<le> max_chan_size \<and> sc_max_datagram_size (ac_server cfg) \<le> max_alloc \<longrightarrow>
     (\<exists>s. start_run (New_server (ac_server cfg) en lg) = Inr s \<and>
        int (length (sv_workers s)) = sc_worker_count (ac_server cfg) \<and> sv_workers s \<noteq> []))"
proof -
  have wf: "wf_config cfg" using assms by (simp add: Load_accepts)
  then have "list_all (\<lambda>r. fr_action r \<in> {''drop'', ''keep''}) (fl_rules (ac_filters cfg))"
    by (simp add: wf_config_def wf_filters_def list_all_iff)
  note filter_rules_error [OF this, of W e er]
  then have filters: "evaluateFilters W cfg e = Inl er \<Longrightarrow>
      \<exists>r \<in> set (fl_rules (ac_filters cfg)). Matches W e (fr_match r) = Inl er"
    by (auto simp: evaluateFilters_def rbind_Inl_iff split: option.splits if_splits)
  have server: "wf_server (ac_server cfg)" using wf by (simp add: wf_config_def)
  have "\<exists>s. start_run (New_server (ac_server cfg) en lg) = Inr s \<and>
      int (length (sv_workers s)) = sc_worker_count (ac_server cfg) \<and> sv_workers s \<noteq> []"
    if "sc_cleanup_interval_seconds (ac_server cfg) \<le> max_ttl_seconds"
      "sc_stats_log_interval_secs (ac_server cfg) \<le> max_ttl_seconds"
      "sc_queue_size (ac_server cfg) \<le> max_chan_size" "sc_max_datagram_size (ac_server cfg) \<le> max_alloc"
    using that server ticker_ok [of "sc_cleanup_interval_seconds (ac_server cfg)"]
      ticker_ok [of "sc_stats_log_interval_secs (ac_server cfg)"]
    by (auto simp: start_run_def New_server_def wf_server_def)
  with filters show ?thesis by blast
qed

lemma loaded_config_serves_witness:
  "\<exists>s. start_run (New_server (ac_server (filled (applyDefaults file_config)))
     (sv_engine sample_server) sample_logger) = Inr s \<and> sv_workers s \<noteq> []"
proof -
  have "sc_cleanup_interval_seconds (ac_server (filled (applyDefaults file_config))) \<le> max_ttl_seconds"
    "sc_stats_log_interval_secs (ac_server (filled (applyDefaults file_config))) \<le> max_ttl_seconds"
    "sc_queue_size (ac_server (filled (applyDefaults file_config))) \<le> max_chan_size"
    "sc_max_datagram_size (ac_server (filled (applyDefaults file_config))) \<le> max_alloc"
    by (simp_all add: filled_def applyDefaults_def default_server_def int_default_def file_config_def blank_config_def
        max_ttl_seconds_def max_chan_size_def max_alloc_def)
  with loaded_config_serves [OF file_config_loads] show ?thesis by blast
qed

text \<open>Changing the server or the metrics section of the sample file.\<close>

lemma file_config_server:
  assumes "wf_server (default_server sc)"
  shows "Load (\<lambda>_. Inr []) (\<lambda>_. Inr (file_config\<lparr>ac_server := sc\<rparr>)) path =
    Inr ((filled (applyDefaults file_config))\<lparr>ac_server := default_server sc\<rparr>)"
proof -
  have "wf_config (filled (applyDefaults file_config))" using file_config_loads by (simp add: Load_accepts)
  with assms show ?thesis by (auto simp: Load_accepts wf_config_def filled_def applyDefaults_def)
qed

lemma file_config_metrics:
  assumes "wf_metrics (default_metrics mc)"
  shows "Load (\<lambda>_. Inr []) (\<lambda>_. Inr (file_config\<lparr>ac_metrics := mc\<rparr>)) path =
    Inr ((filled (applyDefaults file_config))\<lparr>ac_metrics := default_metrics mc\<rparr>)"
proof -
  have "wf_config (filled (applyDefaults file_config))" using file_config_loads by (simp add: Load_accepts)
  with assms show ?thesis by (auto simp: Load_accepts wf_config_def filled_def applyDefaults_def)
qed

definition slow_cleanup :: server_config where
  "slow_cleanup = (ac_server file_config)\<lparr>sc_cleanup_interval_seconds := 9223372037\<rparr>"

definition huge_queue :: server_config where
  "huge_queue = (ac_server file_config)\<lparr>sc_queue_size := 4611686018427387904\<rparr>"

definition huge_datagram :: server_config where
  "huge_datagram = (ac_server file_config)\<lparr>sc_max_datagram_size := 4611686018427387904\<rparr>"

definition health_metrics :: metrics_config where
  "health_metrics = \<lparr>mc_enabled = True, mc_host = [], mc_port = 0, mc_path = ''/healthz''\<rparr>"

lemmas odd_configs = slow_cleanup_def huge_queue_def huge_datagram_def health_metrics_def

lemma odd_servers_accepted:
  "wf_server (default_server slow_cleanup)" "wf_server (default_server huge_queue)" "wf_server (default_server huge_datagram)"
  by (simp_all add: wf_server_def default_server_def odd_configs int_default_def str_default_def file_config_def blank_config_def)

lemma odd_servers_panic:
  "start_run (New_server (default_server slow_cleanup) en lg) = Inl (Panic ''non-positive interval for NewTicker'')"
  "start_run (New_server (default_server huge_queue) en lg) = Inl (Panic ''makechan: size out of range'')"
  "start_run (New_server (default_server huge_datagram) en lg) = Inl (Panic ''makeslice: len out of range'')"
proof -
  have "ttl_duration 9223372037 \<le> 0" by (simp add: ttl_duration_def)
  then show "start_run (New_server (default_server slow_cleanup) en lg) = Inl (Panic ''non-positive interval for NewTicker'')"
    by (simp add: start_run_def New_server_def default_server_def slow_cleanup_def int_default_def)
  have t: "ttl_duration 30 = 30000000000" "ttl_duration 60 = 60000000000"
    by (simp_all add: ttl_duration_exact max_ttl_seconds_def)
  show "start_run (New_server (default_server huge_queue) en lg) = Inl (Panic ''makechan: size out of range'')"
    "start_run (New_server (default_server huge_datagram) en lg) = Inl (Panic ''makeslice: len out of range'')"
    by (simp_all add: start_run_def New_server_def default_server_def huge_queue_def huge_datagram_def int_default_def
        file_config_def blank_config_def t max_chan_size_def max_alloc_def)
qed

text \<open>
  C28. Four configurations that the validator accepts make the relay panic: a cleanup interval of 9223372037
  seconds, whose nanoseconds overflow to a negative duration that \<open>NewTicker\<close> refuses; a queue of \<open>2 ^ 62\<close> packets
  and a datagram buffer of \<open>2 ^ 62\<close> bytes, both of which \<open>make\<close> refuses; and metrics served under the path of the health
  check, which is then registered twice.
\<close>

theorem accepted_configs_panic:
  "(\<exists>cfg msg. Load (\<lambda>_. Inr []) (\<lambda>_. Inr (file_config\<lparr>ac_server := slow_cleanup\<rparr>)) path = Inr cfg \<and>
     start_run (New_server (ac_server cfg) en lg) = Inl (Panic msg)) \<and>
   (\<exists>cfg msg. Load (\<lambda>_. Inr []) (\<lambda>_. Inr (file_config\<lparr>ac_server := huge_queue\<rparr>)) path = Inr cfg \<and>
     start_run (New_server (ac_server cfg) en lg) = Inl (Panic msg)) \<and>
   (\<exists>cfg msg. Load (\<lambda>_. Inr []) (\<lambda>_. Inr (file_config\<lparr>ac_server := huge_datagram\<rparr>)) path = Inr cfg \<and>
     start_run (New_server (ac_server cfg) en lg) = Inl (Panic msg)) \<and>
   (\<exists>cfg msg. Load (\<lambda>_. Inr []) (\<lambda>_. Inr (file_config\<lparr>ac_metrics := health_metrics\<rparr>)) path = Inr cfg \<and>
     fst (New_metrics sample_os_env malformed (ac_metrics cfg) lg empty_os) = Inl (Panic msg))"
proof -
  have server: "\<exists>cfg msg. Load (\<lambda>_. Inr []) (\<lambda>_. Inr (file_config\<lparr>ac_server := sc\<rparr>)) path = Inr cfg \<and>
     start_run (New_server (ac_server cfg) en lg) = Inl (Panic msg)"
    if "sc \<in> {slow_cleanup, huge_queue, huge_datagram}" for sc
    using that odd_servers_accepted odd_servers_panic [of en lg] by (auto simp: file_config_server)
  have "wf_metrics (default_metrics health_metrics)"
    by (simp add: wf_metrics_def default_metrics_def health_metrics_def int_default_def str_default_def)
  note load = file_config_metrics [OF this, of path]
  have "fst (New_metrics sample_os_env malformed
      (ac_metrics ((filled (applyDefaults file_config))\<lparr>ac_metrics := default_metrics health_metrics\<rparr>)) lg empty_os) = Inl (Panic ''http: pattern'')"
    by (simp add: New_metrics_def sys_open_def sample_os_env_def empty_os_def default_metrics_def health_metrics_def
        mux_handle_def healthPath_def registerStats_all str_default_def)
  with server [of slow_cleanup] server [of huge_queue] server [of huge_datagram] load show ?thesis by blast
qed

end
